theory Spec2Isabelle
  imports Complex_Main
begin

unbundle bit_operations_syntax

section \<open>Data model\<close>

text \<open>
  The development embeds \<^verbatim>\<open>prime_backup/action/create_backup_action.py\<close>.
  Python integers are \<^typ>\<open>int\<close>, byte strings and text are character lists,
  dictionaries are maps, exceptions are values of the datatype \<open>exn\<close>.
\<close>

type_synonym path = string
type_synonym hash = string
type_synonym bytes = string

text \<open>
  Modelled from the spec: \<^verbatim>\<open>CompressMethod\<close> lives in \<^verbatim>\<open>prime_backup.compressors\<close>;
  the spec lists the tags plain, gzip, zstd, lzma.
\<close>

datatype CompressMethod = plain | gzip | zstd | lzma

fun name_of :: "CompressMethod \<Rightarrow> string" where
  "name_of plain = ''plain''"
| "name_of gzip = ''gzip''"
| "name_of zstd = ''zstd''"
| "name_of lzma = ''lzma''"

text \<open>The fields of \<^verbatim>\<open>os.stat_result\<close> that the action reads.\<close>

record stat_result =
  st_mode :: int
  st_size :: int
  st_uid :: int
  st_gid :: int
  st_mtime_ns :: int
  st_dev :: int

text \<open>Python's \<^verbatim>\<open>stat.S_IFMT\<close>, \<^verbatim>\<open>S_ISREG\<close>, \<^verbatim>\<open>S_ISDIR\<close>, \<^verbatim>\<open>S_ISLNK\<close>.\<close>

definition S_IFMT :: "int \<Rightarrow> int" where
  "S_IFMT m = m AND 61440"

definition S_ISREG :: "int \<Rightarrow> bool" where
  "S_ISREG m \<longleftrightarrow> S_IFMT m = 32768"

definition S_ISDIR :: "int \<Rightarrow> bool" where
  "S_ISDIR m \<longleftrightarrow> S_IFMT m = 16384"

definition S_ISLNK :: "int \<Rightarrow> bool" where
  "S_ISLNK m \<longleftrightarrow> S_IFMT m = 40960"

text \<open>\<^verbatim>\<open>schema.Blob\<close> and \<^verbatim>\<open>schema.File\<close> rows (the columns the action sets).
  The columns of a File row carry the prefix \<open>f_\<close>, since \<open>blob_hash\<close> is
  also a local variable of \<^verbatim>\<open>attempt_once\<close>.\<close>

record Blob =
  hash :: hash
  compress :: string
  raw_size :: int
  stored_size :: int

record File =
  f_path :: string
  f_mode :: int
  f_content :: "bytes option"
  f_blob_hash :: "hash option"
  f_blob_compress :: "string option"
  f_blob_raw_size :: "int option"
  f_blob_stored_size :: "int option"
  f_uid :: int
  f_gid :: int
  f_mtime :: int

datatype exn =
    BlobFileChanged
  | VolatileBlobFile
  | SourceFileNotFound path
  | FileNotFoundError string
  | UnsupportedFileFormat int
  | KeyError
  | ValueError
  | AssertionError
  | CatalogError

text \<open>\<^verbatim>\<open>_BlobCreatePolicy\<close>; the member \<^verbatim>\<open>default\<close> is \<open>default_policy\<close> here.\<close>

datatype BlobCreatePolicy = read_all | hash_once | copy_hash | default_policy

definition BLOB_FILE_CHANGED_RETRY_COUNT :: nat where
  "BLOB_FILE_CHANGED_RETRY_COUNT = 3"

definition READ_ALL_SIZE_THRESHOLD :: int where
  "READ_ALL_SIZE_THRESHOLD = 8 * 1024"

definition HASH_ONCE_SIZE_THRESHOLD :: int where
  "HASH_ONCE_SIZE_THRESHOLD = 10 * 1024 * 1024"

datatype BqmReq = SizeReq int | HashReq hash

datatype BqmRsp = SizeRsp bool | HashRsp "Blob option"

section \<open>Environment, configuration and state\<close>

text \<open>
  The source tree is written by other processes while the backup runs. The
  environment gives the tree as it is at every instant: \<open>fs_at env t p\<close> is the
  entry at path \<open>p\<close> when the \<open>t\<close>-th observation is made, and \<open>time_at env t\<close>
  is what \<^verbatim>\<open>time.time()\<close> returns then (seconds, a float in the source, a real
  number here). Every observation of the environment advances \<open>clock\<close>.
  \<open>last_backup_files\<close> is what the catalog holds when the run starts: the File
  rows of the most recent backup, \<open>None\<close> when there is no backup.
\<close>

record src_node =
  n_stat :: stat_result
  n_content :: bytes
  n_link :: string

record env =
  fs_at :: "nat \<Rightarrow> path \<Rightarrow> src_node option"
  time_at :: "nat \<Rightarrow> real"
  last_backup_files :: "File list option"

text \<open>
  The configuration and the helpers of other modules the action calls:
  \<^verbatim>\<open>config.backup.*\<close>, \<^verbatim>\<open>file_utils.HAS_COPY_FILE_RANGE\<close>,
  \<^verbatim>\<open>file_utils.does_fs_support_cow\<close> and the \<^verbatim>\<open>st_dev\<close> of the blob store
  (probed once per run), \<^verbatim>\<open>hash_utils\<close> (the digest of a byte string),
  \<^verbatim>\<open>Compressor\<close> (the stored form of a byte string), \<^verbatim>\<open>Path.relative_to\<close>
  against the source root (\<open>None\<close> when it raises \<^verbatim>\<open>ValueError\<close>), the
  skip-missing \<^verbatim>\<open>pathspec\<close> match, and whether \<^verbatim>\<open>os.replace\<close> from the
  temporary directory into the blob store succeeds.
\<close>

record config =
  get_compress_method_from_size :: "int \<Rightarrow> CompressMethod"
  HAS_COPY_FILE_RANGE :: bool
  blob_store_in_cow_fs :: bool
  blob_store_st_dev :: int
  calc_bytes_hash :: "bytes \<Rightarrow> hash"
  compressed :: "CompressMethod \<Rightarrow> bytes \<Rightarrow> bytes"
  relative_to_source :: "path \<Rightarrow> string option"
  creation_skip_missing_file :: bool
  skip_missing_match :: "string \<Rightarrow> bool"
  reuse_stat_unchanged_file :: bool
  effective_concurrency :: int
  os_replace_ok :: bool

text \<open>
  Files written by the action: blob files, addressed by fingerprint
  (\<^verbatim>\<open>blob_utils.get_blob_path\<close>), and temporary files, one name per source path
  (\<^verbatim>\<open>blob_<pid>_<tid>_<md5 of the path>.tmp\<close>).
\<close>

datatype disk_path = BlobPath hash | TempPath path

text \<open>Observable events, in the order they happen (newest first).\<close>

datatype event =
    EvAttempt path nat bool
  | EvRollbackAdd disk_path
  | EvWrite disk_path
  | EvSizeQuery "int set"
  | EvHashQuery "hash set"

record world =
  clock :: nat
  disk :: "disk_path \<Rightarrow> bytes option"
  rollback :: "disk_path list"
  blob_by_size_cache :: "int \<Rightarrow> bool option"
  blob_by_hash_cache :: "hash \<Rightarrow> Blob option option"
  pre_calc_stats :: "path \<Rightarrow> stat_result option"
  pre_calc_hashes :: "path \<Rightarrow> hash option"
  pre_calc_reused_files :: "path \<Rightarrow> File option"
  db_blobs :: "Blob list"
  trace :: "event list"

subsection \<open>Primitive operations\<close>

definition tick :: "world \<Rightarrow> world" where
  "tick w = w\<lparr>clock := Suc (clock w)\<rparr>"

definition log_event :: "event \<Rightarrow> world \<Rightarrow> world" where
  "log_event e w = w\<lparr>trace := e # trace w\<rparr>"

text \<open>\<^verbatim>\<open>Path.lstat()\<close> on a source path; \<open>None\<close> is \<^verbatim>\<open>FileNotFoundError\<close>.\<close>

definition lstat :: "env \<Rightarrow> path \<Rightarrow> world \<Rightarrow> stat_result option \<times> world" where
  "lstat ev p w = (map_option n_stat (fs_at ev (clock w) p), tick w)"

text \<open>Opening a source file and reading it to the end.\<close>

definition read_source :: "env \<Rightarrow> path \<Rightarrow> world \<Rightarrow> bytes option \<times> world" where
  "read_source ev p w = (map_option n_content (fs_at ev (clock w) p), tick w)"

text \<open>\<^verbatim>\<open>open(path, 'rb').read(n)\<close>: at most \<open>n\<close> bytes from the start.\<close>

definition read_source_upto :: "env \<Rightarrow> path \<Rightarrow> nat \<Rightarrow> world \<Rightarrow> bytes option \<times> world" where
  "read_source_upto ev p n w = (map_option (\<lambda>nd. take n (n_content nd)) (fs_at ev (clock w) p), tick w)"

definition readlink :: "env \<Rightarrow> path \<Rightarrow> world \<Rightarrow> string option \<times> world" where
  "readlink ev p w = (map_option n_link (fs_at ev (clock w) p), tick w)"

definition write_file :: "disk_path \<Rightarrow> bytes \<Rightarrow> world \<Rightarrow> world" where
  "write_file dp c w = log_event (EvWrite dp) (w\<lparr>disk := (disk w)(dp \<mapsto> c)\<rparr>)"

definition remove_file :: "disk_path \<Rightarrow> world \<Rightarrow> world" where
  "remove_file dp w = w\<lparr>disk := (disk w)(dp := None)\<rparr>"

text \<open>\<^verbatim>\<open>dict.get(key)\<close> on \<^verbatim>\<open>__blob_by_hash_cache\<close>: a missing key and a key
  bound to \<^verbatim>\<open>None\<close> both give \<^verbatim>\<open>None\<close>.\<close>

definition cache_get :: "world \<Rightarrow> hash \<Rightarrow> Blob option" where
  "cache_get w h = (case blob_by_hash_cache w h of Some (Some b) \<Rightarrow> Some b | _ \<Rightarrow> None)"

text \<open>
  Modelled from the spec: \<^verbatim>\<open>CreateBackupActionBase\<close> is not part of the given
  sources. The spec says: the coordinator maintains an append-only list of the
  blob paths this run created, and on any exception escaping it each path in the
  list is removed from disk; \<^verbatim>\<open>_create_blob\<close> inserts a Blob row with
  \<open>(H, C, raw_size, stored_size)\<close>.
\<close>

definition add_remove_file_rollbacker :: "disk_path \<Rightarrow> world \<Rightarrow> world" where
  "add_remove_file_rollbacker bp w = log_event (EvRollbackAdd bp) (w\<lparr>rollback := rollback w @ [bp]\<rparr>)"

definition apply_blob_rollback :: "world \<Rightarrow> world" where
  "apply_blob_rollback w = fold remove_file (rollback w) w"

definition create_blob :: "hash \<Rightarrow> string \<Rightarrow> int \<Rightarrow> int \<Rightarrow> world \<Rightarrow> Blob \<times> world" where
  "create_blob h c r s w =
     (let b = \<lparr>hash = h, compress = c, raw_size = r, stored_size = s\<rparr>
      in (b, w\<lparr>db_blobs := db_blobs w @ [b]\<rparr>))"

text \<open>
  Modelled from the spec: the catalog session is not part of the given sources.
  \<^verbatim>\<open>has_blob_with_size_batched(sizes)\<close> returns size \<open>\<rightarrow>\<close> bool and
  \<^verbatim>\<open>get_blobs(hashes)\<close> returns hash \<open>\<rightarrow>\<close> Blob or nothing, for the keys asked.
\<close>

definition has_blob_with_size_batched :: "world \<Rightarrow> int set \<Rightarrow> (int \<Rightarrow> bool option)" where
  "has_blob_with_size_batched w szs =
     (\<lambda>sz. if sz \<in> szs then Some (sz \<in> raw_size ` set (db_blobs w)) else None)"

definition get_blobs :: "world \<Rightarrow> hash set \<Rightarrow> (hash \<Rightarrow> Blob option option)" where
  "get_blobs w hs =
     (\<lambda>h. if h \<in> hs then Some (find (\<lambda>b. hash b = h) (db_blobs w)) else None)"

section \<open>One attempt to create a blob: \<^verbatim>\<open>attempt_once\<close>\<close>

text \<open>
  \<^verbatim>\<open>attempt_once\<close> is a generator. Its local variables are the record \<open>locals\<close>;
  a suspended generator is the label of the \<^verbatim>\<open>yield\<close> it stopped at together
  with its locals. Each function below covers a range of source lines and
  returns how control leaves the range (\<open>Next\<close>: falls through to the next
  line), the locals and the world.
\<close>

record locals =
  last_chance :: bool
  compress_method :: CompressMethod
  can_copy_on_write :: bool
  policy :: "BlobCreatePolicy option"
  blob_hash :: "hash option"
  blob_content :: "bytes option"
  pre_calc_hash :: "hash option"

datatype label =
    At_size_req       \<comment> \<open>\<^verbatim>\<open>yield BlobBySizeFetcher.Req(st.st_size)\<close>, line 477\<close>
  | At_hash_req       \<comment> \<open>\<^verbatim>\<open>yield BlobByHashFetcher.Req(blob_hash)\<close>, line 497\<close>
  | At_copy_hash_req  \<comment> \<open>the same request under \<^verbatim>\<open>copy_hash\<close>, line 534\<close>

datatype ctl = Next | Yield BqmReq label | Return Blob | Raise exn

type_synonym outcome = "ctl \<times> locals \<times> world"

definition and_then :: "outcome \<Rightarrow> (locals \<Rightarrow> world \<Rightarrow> outcome) \<Rightarrow> outcome" where
  "and_then r k = (case r of (Next, f, w) \<Rightarrow> k f w | _ \<Rightarrow> r)"

text \<open>Lines 445--458: the compress method, \<^verbatim>\<open>can_copy_on_write\<close>, the initial
  locals; the pre-computed hash of the path is popped from the table.\<close>

definition attempt_enter :: "config \<Rightarrow> path \<Rightarrow> stat_result \<Rightarrow> bool \<Rightarrow> world \<Rightarrow> locals \<times> world" where
  "attempt_enter cfg src_path st lc w =
     (let cm = get_compress_method_from_size cfg (st_size st) in
      (\<lparr>last_chance = lc,
        compress_method = cm,
        can_copy_on_write =
          (HAS_COPY_FILE_RANGE cfg \<and> cm = plain \<and> blob_store_in_cow_fs cfg
             \<and> st_dev st = blob_store_st_dev cfg),
        policy = None, blob_hash = None, blob_content = None,
        pre_calc_hash = pre_calc_hashes w src_path\<rparr>,
       w\<lparr>pre_calc_hashes := (pre_calc_hashes w)(src_path := None)\<rparr>))"

text \<open>Lines 481--484.\<close>

definition set_hash_once :: "bool \<Rightarrow> locals \<Rightarrow> locals" where
  "set_hash_once can_hash_once f = (if can_hash_once then f\<lparr>policy := Some hash_once\<rparr> else f)"

text \<open>Lines 460--484, up to the first \<^verbatim>\<open>yield\<close>.\<close>

definition select_policy :: "config \<Rightarrow> env \<Rightarrow> path \<Rightarrow> stat_result \<Rightarrow> locals \<Rightarrow> world \<Rightarrow> outcome" where
  "select_policy cfg ev src_path st f w =
     (if last_chance f then (Next, f\<lparr>policy := Some copy_hash\<rparr>, w)
      else if pre_calc_hash f \<noteq> None then
        (Next, f\<lparr>policy := Some default_policy, blob_hash := pre_calc_hash f\<rparr>, w)
      else if \<not> can_copy_on_write f then
        (if st_size st \<le> READ_ALL_SIZE_THRESHOLD then
           (case read_source_upto ev src_path (nat (READ_ALL_SIZE_THRESHOLD + 1)) w of
              (None, w1) \<Rightarrow> (Raise (SourceFileNotFound src_path), f\<lparr>policy := Some read_all\<rparr>, w1)
            | (Some c, w1) \<Rightarrow>
                if int (length c) > READ_ALL_SIZE_THRESHOLD
                then (Raise BlobFileChanged, f\<lparr>policy := Some read_all, blob_content := Some c\<rparr>, w1)
                else (Next, f\<lparr>policy := Some read_all, blob_content := Some c,
                               blob_hash := Some (calc_bytes_hash cfg c)\<rparr>, w1))
         else if st_size st > HASH_ONCE_SIZE_THRESHOLD then
           (case blob_by_size_cache w (st_size st) of
              None \<Rightarrow> (Yield (SizeReq (st_size st)) At_size_req, f, w)
            | Some exist \<Rightarrow> (Next, set_hash_once (exist = False) f, w))
         else (Next, f, w))
      else (Next, f, w))"

text \<open>Line 478, after the size request is answered:
  \<^verbatim>\<open>can_hash_once = self.__blob_by_size_cache[st.st_size] is False\<close>.\<close>

definition select_policy_resume :: "stat_result \<Rightarrow> locals \<Rightarrow> world \<Rightarrow> outcome" where
  "select_policy_resume st f w =
     (case blob_by_size_cache w (st_size st) of
        None \<Rightarrow> (Raise KeyError, f, w)
      | Some exist \<Rightarrow> (Next, set_hash_once (exist = False) f, w))"

text \<open>Lines 485--489.\<close>

definition compute_default :: "config \<Rightarrow> env \<Rightarrow> path \<Rightarrow> locals \<Rightarrow> world \<Rightarrow> outcome" where
  "compute_default cfg ev src_path f w =
     (if policy f = None then
        (case read_source ev src_path w of
           (None, w1) \<Rightarrow> (Raise (SourceFileNotFound src_path), f\<lparr>policy := Some default_policy\<rparr>, w1)
         | (Some c, w1) \<Rightarrow>
             (Next, f\<lparr>policy := Some default_policy, blob_hash := Some (calc_bytes_hash cfg c)\<rparr>, w1))
      else (Next, f, w))"

text \<open>Lines 492--497.\<close>

definition dedup_lookup :: "locals \<Rightarrow> world \<Rightarrow> outcome" where
  "dedup_lookup f w =
     (case blob_hash f of
        None \<Rightarrow> (Next, f, w)
      | Some h \<Rightarrow>
          if policy f = Some hash_once then (Raise AssertionError, f, w)
          else (case cache_get w h of
                  Some b \<Rightarrow> (Return b, f, w)
                | None \<Rightarrow> (Yield (HashReq h) At_hash_req, f, w)))"

text \<open>Lines 498--499, after the hash request is answered.\<close>

definition dedup_resume :: "locals \<Rightarrow> world \<Rightarrow> outcome" where
  "dedup_resume f w =
     (case blob_hash f of
        None \<Rightarrow> (Next, f, w)
      | Some h \<Rightarrow>
          (case cache_get w h of
             Some b \<Rightarrow> (Return b, f, w)
           | None \<Rightarrow> (Next, f, w)))"

text \<open>Lines 505--509; \<open>True\<close> when \<^verbatim>\<open>_BlobFileChanged\<close> is raised.\<close>

definition check_changes :: "stat_result \<Rightarrow> locals \<Rightarrow> int \<Rightarrow> hash option \<Rightarrow> bool" where
  "check_changes st f new_size new_hash \<longleftrightarrow>
     new_size \<noteq> st_size st
       \<or> (blob_hash f \<noteq> None \<and> new_hash \<noteq> None \<and> new_hash \<noteq> blob_hash f)"

text \<open>Lines 511--519.\<close>

definition bp_rba :: "hash \<Rightarrow> world \<Rightarrow> disk_path \<times> world" where
  "bp_rba h w = (BlobPath h, add_remove_file_rollbacker (BlobPath h) w)"

text \<open>Lines 594--603.\<close>

definition commit_blob :: "locals \<Rightarrow> hash \<Rightarrow> int \<Rightarrow> int \<Rightarrow> world \<Rightarrow> outcome" where
  "commit_blob f h rsz ssz w =
     (case create_blob h (name_of (compress_method f)) rsz ssz w of
        (b, w1) \<Rightarrow> (Return b, f, w1))"

text \<open>Lines 522--534: \<^verbatim>\<open>copy_hash\<close> up to its \<^verbatim>\<open>yield\<close>. The temporary file is
  removed when the \<^verbatim>\<open>with\<close> block is left, not when the generator suspends.\<close>

definition write_copy_hash :: "config \<Rightarrow> env \<Rightarrow> path \<Rightarrow> locals \<Rightarrow> world \<Rightarrow> outcome" where
  "write_copy_hash cfg ev src_path f w =
     (if blob_hash f \<noteq> None then (Raise AssertionError, f, w)
      else
        (case read_source ev src_path w of
           (None, w1) \<Rightarrow> (Raise (SourceFileNotFound src_path), f, remove_file (TempPath src_path) w1)
         | (Some c, w1) \<Rightarrow>
             (let w2 = write_file (TempPath src_path) c w1;
                  h = calc_bytes_hash cfg c;
                  f1 = f\<lparr>blob_hash := Some h\<rparr>
              in if \<not> last_chance f then (Raise AssertionError, f1, remove_file (TempPath src_path) w2)
                 else (case cache_get w2 h of
                         Some b \<Rightarrow> (Return b, f1, remove_file (TempPath src_path) w2)
                       | None \<Rightarrow> (Yield (HashReq h) At_copy_hash_req, f1, w2)))))"

text \<open>Lines 535--541 and 594--603.\<close>

definition write_copy_hash_resume :: "config \<Rightarrow> path \<Rightarrow> locals \<Rightarrow> world \<Rightarrow> outcome" where
  "write_copy_hash_resume cfg src_path f w =
     (case blob_hash f of
        None \<Rightarrow> (Raise AssertionError, f, remove_file (TempPath src_path) w)
      | Some h \<Rightarrow>
          (case cache_get w h of
             Some b \<Rightarrow> (Return b, f, remove_file (TempPath src_path) w)
           | None \<Rightarrow>
               (case bp_rba h w of
                  (blob_path, w1) \<Rightarrow>
                    (case disk w1 (TempPath src_path) of
                       None \<Rightarrow> (Raise (FileNotFoundError src_path), f, remove_file (TempPath src_path) w1)
                     | Some c \<Rightarrow>
                         (let z = compressed cfg (compress_method f) c;
                              w2 = write_file blob_path z w1
                          in commit_blob f h (int (length c)) (int (length z))
                               (remove_file (TempPath src_path) w2))))))"

text \<open>Lines 543--563 and 594--603: \<^verbatim>\<open>hash_once\<close>. \<^verbatim>\<open>os.replace\<close> moves the
  temporary file to the blob path; when it fails the file is copied.\<close>

definition write_hash_once :: "config \<Rightarrow> env \<Rightarrow> path \<Rightarrow> stat_result \<Rightarrow> locals \<Rightarrow> world \<Rightarrow> outcome" where
  "write_hash_once cfg ev src_path st f w =
     (if blob_hash f \<noteq> None then (Raise AssertionError, f, w)
      else
        (case read_source ev src_path w of
           (None, w1) \<Rightarrow> (Raise (SourceFileNotFound src_path), f, remove_file (TempPath src_path) w1)
         | (Some c, w1) \<Rightarrow>
             (let z = compressed cfg (compress_method f) c;
                  w2 = write_file (TempPath src_path) z w1
              in if check_changes st f (int (length c)) None
                 then (Raise BlobFileChanged, f, remove_file (TempPath src_path) w2)
                 else
                   (let h = calc_bytes_hash cfg c;
                        f1 = f\<lparr>blob_hash := Some h\<rparr>
                    in case bp_rba h w2 of
                         (blob_path, w3) \<Rightarrow>
                           (let w4 = (if os_replace_ok cfg
                                      then remove_file (TempPath src_path) (write_file blob_path z w3)
                                      else write_file blob_path z w3)
                            in commit_blob f1 h (int (length c)) (int (length z))
                                 (remove_file (TempPath src_path) w4))))))"

text \<open>Lines 565--603: \<^verbatim>\<open>read_all\<close> and \<^verbatim>\<open>default\<close>, the hash is known.\<close>

definition write_known_hash :: "config \<Rightarrow> env \<Rightarrow> path \<Rightarrow> stat_result \<Rightarrow> locals \<Rightarrow> world \<Rightarrow> outcome" where
  "write_known_hash cfg ev src_path st f w =
     (case blob_hash f of
        None \<Rightarrow> (Raise AssertionError, f, w)
      | Some h \<Rightarrow>
          (case bp_rba h w of
             (blob_path, w1) \<Rightarrow>
               if policy f = Some read_all then
                 (case blob_content f of
                    None \<Rightarrow> (Raise AssertionError, f, w1)
                  | Some c \<Rightarrow>
                      (let z = compressed cfg (compress_method f) c
                       in commit_blob f h (int (length c)) (int (length z)) (write_file blob_path z w1)))
               else if policy f = Some default_policy then
                 (if can_copy_on_write f \<and> compress_method f = plain then
                    (case read_source ev src_path w1 of
                       (None, w2) \<Rightarrow> (Raise (SourceFileNotFound src_path), f, w2)
                     | (Some c, w2) \<Rightarrow>
                         (let w3 = write_file blob_path c w2
                          in if check_changes st f (int (length c)) (Some (calc_bytes_hash cfg c))
                             then (Raise BlobFileChanged, f, w3)
                             else commit_blob f h (int (length c)) (int (length c)) w3))
                  else
                    (case read_source ev src_path w1 of
                       (None, w2) \<Rightarrow> (Raise (SourceFileNotFound src_path), f, w2)
                     | (Some c, w2) \<Rightarrow>
                         (let z = compressed cfg (compress_method f) c;
                              w3 = write_file blob_path z w2
                          in if check_changes st f (int (length c)) (Some (calc_bytes_hash cfg c))
                             then (Raise BlobFileChanged, f, w3)
                             else commit_blob f h (int (length c)) (int (length z)) w3)))
               else (Raise AssertionError, f, w1)))"

text \<open>Lines 521--592: the branch on the policy.\<close>

definition write_blob :: "config \<Rightarrow> env \<Rightarrow> path \<Rightarrow> stat_result \<Rightarrow> locals \<Rightarrow> world \<Rightarrow> outcome" where
  "write_blob cfg ev src_path st f w =
     (if policy f = Some copy_hash then write_copy_hash cfg ev src_path f w
      else if policy f = Some hash_once then write_hash_once cfg ev src_path st f w
      else write_known_hash cfg ev src_path st f w)"

text \<open>The body of \<^verbatim>\<open>attempt_once\<close> from line 485 on, and from line 492 on.\<close>

definition attempt_from_dedup :: "config \<Rightarrow> env \<Rightarrow> path \<Rightarrow> stat_result \<Rightarrow> locals \<Rightarrow> world \<Rightarrow> outcome" where
  "attempt_from_dedup cfg ev src_path st f w =
     and_then (dedup_lookup f w) (write_blob cfg ev src_path st)"

definition attempt_from_default :: "config \<Rightarrow> env \<Rightarrow> path \<Rightarrow> stat_result \<Rightarrow> locals \<Rightarrow> world \<Rightarrow> outcome" where
  "attempt_from_default cfg ev src_path st f w =
     and_then (compute_default cfg ev src_path f w) (attempt_from_dedup cfg ev src_path st)"

text \<open>\<^verbatim>\<open>gen = attempt_once(last_chance); gen.send(None)\<close>: the generator runs from
  its first line to its first \<^verbatim>\<open>yield\<close>, its \<^verbatim>\<open>return\<close> or an exception.\<close>

definition attempt_once :: "config \<Rightarrow> env \<Rightarrow> path \<Rightarrow> stat_result \<Rightarrow> bool \<Rightarrow> world \<Rightarrow> outcome" where
  "attempt_once cfg ev src_path st lc w =
     (case attempt_enter cfg src_path st lc w of
        (f, w0) \<Rightarrow>
          and_then (select_policy cfg ev src_path st f w0) (attempt_from_default cfg ev src_path st))"

text \<open>\<^verbatim>\<open>gen.send(result)\<close> on a suspended generator: it continues after the
  \<^verbatim>\<open>yield\<close> it stopped at. The value sent is not used by \<^verbatim>\<open>attempt_once\<close>.\<close>

definition attempt_resume :: "config \<Rightarrow> env \<Rightarrow> path \<Rightarrow> stat_result \<Rightarrow> label \<Rightarrow> locals \<Rightarrow> world \<Rightarrow> outcome" where
  "attempt_resume cfg ev src_path st l f w =
     (case l of
        At_size_req \<Rightarrow>
          and_then (select_policy_resume st f w) (attempt_from_default cfg ev src_path st)
      | At_hash_req \<Rightarrow>
          and_then (dedup_resume f w) (write_blob cfg ev src_path st)
      | At_copy_hash_req \<Rightarrow> write_copy_hash_resume cfg src_path f w)"

section \<open>The retry loop: \<^verbatim>\<open>__get_or_create_blob\<close>\<close>

text \<open>What \<^verbatim>\<open>gen.send\<close> gives its caller: the request of the next \<^verbatim>\<open>yield\<close>
  with the suspended generator, the value of \<^verbatim>\<open>StopIteration\<close>, or an
  exception.\<close>

datatype ('g, 'a) sent = Yielded BqmReq 'g | Returned 'a | Raised exn

text \<open>A suspended \<^verbatim>\<open>__get_or_create_blob\<close>: the loop index \<open>i\<close>, the current
  \<open>st\<close> and the suspended \<^verbatim>\<open>attempt_once\<close> it forwards to.\<close>

datatype gocb_gen = GocbGen nat stat_result label locals

text \<open>
  Lines 605--631. The function is entered at iteration \<open>i\<close> either to start
  a new attempt (\<open>None\<close>) or to resume the suspended one. After
  \<^verbatim>\<open>_BlobFileChanged\<close> the source is re-stat'ed with a plain \<^verbatim>\<open>lstat\<close> and
  the loop goes on; past the last iteration \<^verbatim>\<open>VolatileBlobFile\<close> is raised.
\<close>

text \<open>Lines 606--615: the attempt of iteration \<open>i\<close> is created and run to its
  first \<^verbatim>\<open>yield\<close>, or the suspended attempt is resumed.\<close>

definition run_attempt ::
  "config \<Rightarrow> env \<Rightarrow> path \<Rightarrow> nat \<Rightarrow> stat_result \<Rightarrow> (label \<times> locals) option \<Rightarrow> world \<Rightarrow> outcome" where
  "run_attempt cfg ev src_path i st susp w =
     (let is_last_attempt = (i + 1 = BLOB_FILE_CHANGED_RETRY_COUNT) in
      case susp of
        None \<Rightarrow> attempt_once cfg ev src_path st is_last_attempt
                  (log_event (EvAttempt src_path i is_last_attempt) w)
      | Some (l, f) \<Rightarrow> attempt_resume cfg ev src_path st l f w)"

function get_or_create_blob ::
  "config \<Rightarrow> env \<Rightarrow> path \<Rightarrow> nat \<Rightarrow> stat_result \<Rightarrow> (label \<times> locals) option \<Rightarrow> world
     \<Rightarrow> (gocb_gen, Blob \<times> stat_result) sent \<times> world"
where
  "get_or_create_blob cfg ev src_path i st susp w =
     (if i \<ge> BLOB_FILE_CHANGED_RETRY_COUNT then (Raised VolatileBlobFile, w)
      else
        (case run_attempt cfg ev src_path i st susp w of
           (Yield q l, f, w1) \<Rightarrow> (Yielded q (GocbGen i st l f), w1)
         | (Return blob, f, w1) \<Rightarrow>
             (Returned (blob, st),
              w1\<lparr>blob_by_size_cache := (blob_by_size_cache w1)(raw_size blob \<mapsto> True),
                 blob_by_hash_cache := (blob_by_hash_cache w1)(hash blob \<mapsto> Some blob)\<rparr>)
         | (Raise e, f, w1) \<Rightarrow>
             if e = BlobFileChanged then
               (case lstat ev src_path w1 of
                  (None, w2) \<Rightarrow> (Raised (FileNotFoundError src_path), w2)
                | (Some st', w2) \<Rightarrow> get_or_create_blob cfg ev src_path (i + 1) st' None w2)
             else (Raised e, w1)
         | (Next, f, w1) \<Rightarrow> (Raised AssertionError, w1)))"
  by pat_completeness auto
termination
  by (relation "measure (\<lambda>(cfg, ev, src_path, i, st, susp, w). BLOB_FILE_CHANGED_RETRY_COUNT - i)") auto

declare get_or_create_blob.simps [simp del]

section \<open>One file: \<^verbatim>\<open>__create_file\<close>\<close>

text \<open>
  Modelled from the spec: \<^verbatim>\<open>session.create_file\<close> is not part of the given
  sources; it builds the File row from the columns passed, the blob columns
  from the Blob row when one is given.
\<close>

definition session_create_file ::
  "string \<Rightarrow> stat_result \<Rightarrow> bytes option \<Rightarrow> int \<Rightarrow> Blob option \<Rightarrow> File" where
  "session_create_file rel st content mt blob =
     \<lparr>f_path = rel, f_mode = st_mode st, f_content = content,
      f_blob_hash = map_option hash blob,
      f_blob_compress = map_option compress blob,
      f_blob_raw_size = map_option raw_size blob,
      f_blob_stored_size = map_option stored_size blob,
      f_uid = st_uid st, f_gid = st_gid st, f_mtime = mt\<rparr>"

text \<open>A suspended \<^verbatim>\<open>__create_file\<close>, or one that was not started yet.\<close>

datatype create_file_gen = CF_start path | CF_blob path gocb_gen

type_synonym file_sent = "(create_file_gen, File) sent \<times> world"

text \<open>Lines 674--685; \<^verbatim>\<open>__file_path_to_db_path\<close> raises \<^verbatim>\<open>ValueError\<close> for a
  path outside the source root.\<close>

definition create_file_row ::
  "config \<Rightarrow> path \<Rightarrow> stat_result \<Rightarrow> Blob option \<Rightarrow> bytes option \<Rightarrow> world \<Rightarrow> file_sent" where
  "create_file_row cfg p st blob content w =
     (case relative_to_source cfg p of
        None \<Rightarrow> (Raised ValueError, w)
      | Some rel \<Rightarrow>
          (Returned (session_create_file rel st content (st_mtime_ns st div 1000) blob), w))"

text \<open>Lines 657--665: forwarding the requests of \<^verbatim>\<open>__get_or_create_blob\<close>.\<close>

definition forward_blob ::
  "config \<Rightarrow> path \<Rightarrow> (gocb_gen, Blob \<times> stat_result) sent \<times> world \<Rightarrow> file_sent" where
  "forward_blob cfg p r =
     (case r of
        (Yielded q g, w) \<Rightarrow> (Yielded q (CF_blob p g), w)
      | (Returned (blob, st), w) \<Rightarrow> create_file_row cfg p st (Some blob) None w
      | (Raised e, w) \<Rightarrow> (Raised e, w))"

text \<open>\<^verbatim>\<open>gen.send(value)\<close> on \<^verbatim>\<open>__create_file\<close> (lines 633--685). A reused file is
  copied from the prior row. The value sent is not used.\<close>

definition create_file_send ::
  "config \<Rightarrow> env \<Rightarrow> create_file_gen \<Rightarrow> BqmRsp option \<Rightarrow> world \<Rightarrow> file_sent" where
  "create_file_send cfg ev g v w =
     (case g of
        CF_start p \<Rightarrow>
          (case pre_calc_reused_files w p of
             Some reused_file \<Rightarrow> (Returned reused_file, w)
           | None \<Rightarrow>
               (case (case pre_calc_stats w p of
                        Some st \<Rightarrow> (Some st, w\<lparr>pre_calc_stats := (pre_calc_stats w)(p := None)\<rparr>)
                      | None \<Rightarrow> lstat ev p w) of
                  (None, w1) \<Rightarrow> (Raised (SourceFileNotFound p), w1)
                | (Some st, w1) \<Rightarrow>
                    if S_ISREG (st_mode st) then
                      forward_blob cfg p (get_or_create_blob cfg ev p 0 st None w1)
                    else if S_ISDIR (st_mode st) then create_file_row cfg p st None None w1
                    else if S_ISLNK (st_mode st) then
                      (case readlink ev p w1 of
                         (None, w2) \<Rightarrow> (Raised (SourceFileNotFound p), w2)
                       | (Some target, w2) \<Rightarrow> create_file_row cfg p st None (Some target) w2)
                    else (Raised (UnsupportedFileFormat (st_mode st)), w1)))
      | CF_blob p (GocbGen i st l f) \<Rightarrow>
          forward_blob cfg p (get_or_create_blob cfg ev p i st (Some (l, f)) w))"

section \<open>The batch query manager\<close>

text \<open>
  A fetcher holds its pending tasks, each a key and a callback, and the set of
  distinct keys. The callback made by the coordinator (line 742) puts the
  generator \<open>g\<close> with the response at the front of the schedule queue, so a
  task is stored as the key and \<open>g\<close>.
\<close>

record 'k fetcher =
  max_batch_size :: int
  first_task_scheduled_time :: real
  tasks :: "('k \<times> create_file_gen) list"
  keys :: "'k set"

record sched =
  schedule_queue :: "(create_file_gen \<times> BqmRsp option) list"
  fetcher_size :: "int fetcher"
  fetcher_hash :: "hash fetcher"
  files :: "File list"

type_synonym state = "sched \<times> world"

definition time_now :: "env \<Rightarrow> world \<Rightarrow> real \<times> world" where
  "time_now ev w = (time_at ev (clock w), tick w)"

text \<open>Line 743: \<^verbatim>\<open>schedule_queue.appendleft((g, query_rsp))\<close>.\<close>

definition callback :: "create_file_gen \<Rightarrow> BqmRsp \<Rightarrow> sched \<Rightarrow> sched" where
  "callback g query_rsp s = s\<lparr>schedule_queue := (g, Some query_rsp) # schedule_queue s\<rparr>"

text \<open>
  Lines 152--160 and 187--195. The answer holds every key of the key set, and
  \<^verbatim>\<open>query\<close> puts the key of every task in that set, so the lookups
  \<^verbatim>\<open>existence[sz]\<close> and \<^verbatim>\<open>blobs[h]\<close> do not fail.
\<close>

definition size_batch_run :: "state \<Rightarrow> state" where
  "size_batch_run = (\<lambda>(s, w).
     (let fs = fetcher_size s;
          existence = has_blob_with_size_batched w (keys fs);
          w1 = log_event (EvSizeQuery (keys fs))
                 (w\<lparr>blob_by_size_cache := blob_by_size_cache w ++ existence\<rparr>);
          s1 = fold (\<lambda>(sz, g). callback g (SizeRsp (existence sz = Some True))) (rev (tasks fs)) s
      in (s1\<lparr>fetcher_size := fs\<lparr>tasks := [], keys := {}\<rparr>\<rparr>, w1)))"

definition hash_batch_run :: "state \<Rightarrow> state" where
  "hash_batch_run = (\<lambda>(s, w).
     (let fh = fetcher_hash s;
          blobs = get_blobs w (keys fh);
          w1 = log_event (EvHashQuery (keys fh))
                 (w\<lparr>blob_by_hash_cache := blob_by_hash_cache w ++ blobs\<rparr>);
          s1 = fold (\<lambda>(h, g). callback g (HashRsp (case blobs h of Some r \<Rightarrow> r | None \<Rightarrow> None)))
                 (rev (tasks fh)) s
      in (s1\<lparr>fetcher_hash := fh\<lparr>tasks := [], keys := {}\<rparr>\<rparr>, w1)))"

text \<open>Lines 115--117: \<^verbatim>\<open>flush_if_needed\<close>; the \<^verbatim>\<open>and\<close>/\<^verbatim>\<open>or\<close> of the condition
  read the clock only when the operands before it do not decide.\<close>

definition flush_needed :: "'k fetcher \<Rightarrow> real \<Rightarrow> bool" where
  "flush_needed f now \<longleftrightarrow>
     length (tasks f) > 0
       \<and> (int (length (tasks f)) \<ge> max_batch_size f \<or> now - first_task_scheduled_time f \<ge> 0.1)"

definition flush_if_needed ::
  "env \<Rightarrow> (sched \<Rightarrow> 'k fetcher) \<Rightarrow> (state \<Rightarrow> state) \<Rightarrow> state \<Rightarrow> state" where
  "flush_if_needed ev fetcher batch_run = (\<lambda>(s, w).
     if length (tasks (fetcher s)) > 0 then
       (if int (length (tasks (fetcher s))) \<ge> max_batch_size (fetcher s) then batch_run (s, w)
        else (case time_now ev w of
                (now, w1) \<Rightarrow>
                  if now - first_task_scheduled_time (fetcher s) \<ge> 0.1 then batch_run (s, w1)
                  else (s, w1)))
     else (s, w))"

text \<open>Lines 119--121: \<^verbatim>\<open>flush\<close>.\<close>

definition flush :: "(sched \<Rightarrow> 'k fetcher) \<Rightarrow> (state \<Rightarrow> state) \<Rightarrow> state \<Rightarrow> state" where
  "flush fetcher batch_run = (\<lambda>(s, w).
     if length (tasks (fetcher s)) > 0 then batch_run (s, w) else (s, w))"

text \<open>Lines 146--149 with 109--113, and 181--184: \<^verbatim>\<open>query\<close> and \<^verbatim>\<open>_post_query\<close>.\<close>

definition size_query :: "env \<Rightarrow> int \<Rightarrow> create_file_gen \<Rightarrow> state \<Rightarrow> state" where
  "size_query ev sz g = (\<lambda>(s, w).
     (let fs = fetcher_size s;
          fs1 = fs\<lparr>tasks := tasks fs @ [(sz, g)], keys := insert sz (keys fs)\<rparr>
      in case time_now ev w of
           (now, w1) \<Rightarrow>
             (let fs2 = (if length (tasks fs1) = 1 then fs1\<lparr>first_task_scheduled_time := now\<rparr> else fs1)
              in flush_if_needed ev fetcher_size size_batch_run (s\<lparr>fetcher_size := fs2\<rparr>, w1))))"

definition hash_query :: "env \<Rightarrow> hash \<Rightarrow> create_file_gen \<Rightarrow> state \<Rightarrow> state" where
  "hash_query ev h g = (\<lambda>(s, w).
     (let fh = fetcher_hash s;
          fh1 = fh\<lparr>tasks := tasks fh @ [(h, g)], keys := insert h (keys fh)\<rparr>
      in case time_now ev w of
           (now, w1) \<Rightarrow>
             (let fh2 = (if length (tasks fh1) = 1 then fh1\<lparr>first_task_scheduled_time := now\<rparr> else fh1)
              in flush_if_needed ev fetcher_hash hash_batch_run (s\<lparr>fetcher_hash := fh2\<rparr>, w1))))"

text \<open>\<^verbatim>\<open>BatchQueryManager\<close>, lines 202--226.\<close>

definition bqm_query :: "env \<Rightarrow> BqmReq \<Rightarrow> create_file_gen \<Rightarrow> state \<Rightarrow> state" where
  "bqm_query ev req g =
     (case req of SizeReq sz \<Rightarrow> size_query ev sz g | HashReq h \<Rightarrow> hash_query ev h g)"

definition bqm_flush_if_needed :: "env \<Rightarrow> state \<Rightarrow> state" where
  "bqm_flush_if_needed ev x =
     flush_if_needed ev fetcher_hash hash_batch_run
       (flush_if_needed ev fetcher_size size_batch_run x)"

definition bqm_flush :: "state \<Rightarrow> state" where
  "bqm_flush x = flush fetcher_hash hash_batch_run (flush fetcher_size size_batch_run x)"

text \<open>\<^verbatim>\<open>BatchFetcherBase.__init__\<close> and \<^verbatim>\<open>BatchQueryManager.__init__\<close>
  (\<^verbatim>\<open>max_batch_size: int = 100\<close>).\<close>

definition fetcher_init :: "int \<Rightarrow> real \<Rightarrow> 'k fetcher" where
  "fetcher_init mbs now =
     \<lparr>max_batch_size = mbs, first_task_scheduled_time = now, tasks = [], keys = {}\<rparr>"

definition MAX_BATCH_SIZE :: int where
  "MAX_BATCH_SIZE = 100"

section \<open>The coordinator: \<^verbatim>\<open>__create_backup\<close> and \<^verbatim>\<open>run\<close>\<close>

text \<open>Lines 724--732.\<close>

definition should_skip_missing_source_file :: "config \<Rightarrow> path \<Rightarrow> bool" where
  "should_skip_missing_source_file cfg src_file_path =
     (if creation_skip_missing_file cfg then
        (case relative_to_source cfg src_file_path of
           None \<Rightarrow> False
         | Some rel_path \<Rightarrow> skip_missing_match cfg rel_path)
      else False)"

text \<open>Lines 755--757.\<close>

definition end_of_iteration :: "env \<Rightarrow> state \<Rightarrow> state" where
  "end_of_iteration ev x =
     (case bqm_flush_if_needed ev x of
        (s1, w1) \<Rightarrow> if length (schedule_queue s1) = 0 then bqm_flush (s1, w1) else (s1, w1))"

text \<open>Lines 740--757: one iteration of the \<^verbatim>\<open>while\<close> loop. \<open>Some e\<close> is an
  exception that leaves the loop.\<close>

definition loop_body :: "config \<Rightarrow> env \<Rightarrow> state \<Rightarrow> exn option \<times> state" where
  "loop_body cfg ev = (\<lambda>(s, w).
     (case schedule_queue s of
        [] \<Rightarrow> (None, s, w)
      | (g, v) # q \<Rightarrow>
          (let s0 = s\<lparr>schedule_queue := q\<rparr> in
           case create_file_send cfg ev g v w of
             (Yielded query_req g', w1) \<Rightarrow>
               (None, end_of_iteration ev (bqm_query ev query_req g' (s0, w1)))
           | (Returned file, w1) \<Rightarrow>
               (None, end_of_iteration ev (s0\<lparr>files := files s0 @ [file]\<rparr>, w1))
           | (Raised e, w1) \<Rightarrow>
               (case e of
                  SourceFileNotFound file_path \<Rightarrow>
                    if should_skip_missing_source_file cfg file_path
                    then (None, end_of_iteration ev (s0, w1))
                    else (Some e, s0, w1)
                | _ \<Rightarrow> (Some e, s0, w1)))))"

text \<open>
  The loop ends: every \<^verbatim>\<open>send\<close> that yields leaves its generator with fewer
  requests still possible, and a flush only moves tasks from a fetcher to the
  queue.
\<close>

fun label_rank :: "label \<Rightarrow> nat" where
  "label_rank At_size_req = 2"
| "label_rank At_hash_req = 1"
| "label_rank At_copy_hash_req = 0"

fun gen_rank :: "create_file_gen \<Rightarrow> nat" where
  "gen_rank (CF_start p) = 10"
| "gen_rank (CF_blob p (GocbGen i st l f)) = label_rank l + 3 * (2 - i)"

definition total_rank :: "sched \<Rightarrow> nat" where
  "total_rank s =
     sum_list (map (\<lambda>(g, v). Suc (gen_rank g)) (schedule_queue s))
       + sum_list (map (\<lambda>(k, g). Suc (gen_rank g)) (tasks (fetcher_size s)))
       + sum_list (map (\<lambda>(k, g). Suc (gen_rank g)) (tasks (fetcher_hash s)))"

subsection \<open>Termination of the coordinator loop\<close>

lemma commit_blob_ctl: "commit_blob f h r s w = (c, f', w') \<Longrightarrow> \<exists>b. c = Return b"
  by (auto simp: commit_blob_def create_blob_def Let_def)

lemma write_copy_hash_yield:
  "write_copy_hash cfg ev p f w = (Yield q l, f', w') \<Longrightarrow> l = At_copy_hash_req"
  by (auto simp: write_copy_hash_def Let_def split: if_splits option.splits prod.splits)

lemma write_copy_hash_resume_no_yield:
  "write_copy_hash_resume cfg p f w \<noteq> (Yield q l, f', w')"
  by (auto simp: write_copy_hash_resume_def bp_rba_def Let_def
      split: if_splits option.splits prod.splits dest: commit_blob_ctl)

lemma write_hash_once_no_yield:
  "write_hash_once cfg ev p st f w \<noteq> (Yield q l, f', w')"
  by (auto simp: write_hash_once_def bp_rba_def Let_def
      split: if_splits option.splits prod.splits dest: commit_blob_ctl)

lemma write_known_hash_no_yield:
  "write_known_hash cfg ev p st f w \<noteq> (Yield q l, f', w')"
  by (auto simp: write_known_hash_def bp_rba_def Let_def
      split: if_splits option.splits prod.splits dest: commit_blob_ctl)

lemma write_blob_yield:
  "write_blob cfg ev p st f w = (Yield q l, f', w') \<Longrightarrow> l = At_copy_hash_req"
  using write_copy_hash_yield write_hash_once_no_yield write_known_hash_no_yield
  by (auto simp: write_blob_def split: if_splits)

lemma and_then_yield:
  "and_then r k = (Yield q l, f', w') \<Longrightarrow>
     r = (Yield q l, f', w') \<or> (\<exists>f0 w0. r = (Next, f0, w0) \<and> k f0 w0 = (Yield q l, f', w'))"
  by (auto simp: and_then_def split: prod.splits ctl.splits)

lemma attempt_from_dedup_yield:
  "attempt_from_dedup cfg ev p st f w = (Yield q l, f', w') \<Longrightarrow> label_rank l \<le> 1"
  unfolding attempt_from_dedup_def
  by (auto dest!: and_then_yield write_blob_yield simp: dedup_lookup_def split: option.splits if_splits)

lemma attempt_from_default_yield:
  "attempt_from_default cfg ev p st f w = (Yield q l, f', w') \<Longrightarrow> label_rank l \<le> 1"
  unfolding attempt_from_default_def
  by (auto dest!: and_then_yield attempt_from_dedup_yield simp: compute_default_def split: option.splits if_splits prod.splits)

lemma attempt_resume_yield:
  "attempt_resume cfg ev p st l f w = (Yield q l', f', w') \<Longrightarrow> label_rank l' < label_rank l"
  unfolding attempt_resume_def
  by (cases l) (auto dest!: and_then_yield attempt_from_default_yield write_blob_yield
       simp: select_policy_resume_def dedup_resume_def write_copy_hash_resume_no_yield
       split: option.splits)

lemma run_attempt_yield:
  "run_attempt cfg ev p i st susp w = (Yield q l', f', w') \<Longrightarrow>
     label_rank l' < (case susp of None \<Rightarrow> 3 | Some (l, f) \<Rightarrow> label_rank l)"
  by (cases susp; cases l') (auto simp: run_attempt_def dest: attempt_resume_yield)

lemma gocb_yield:
  "get_or_create_blob cfg ev p i st susp w = (Yielded q (GocbGen i' st' l' f'), w') \<Longrightarrow>
     label_rank l' + 3 * (2 - i') < (case susp of None \<Rightarrow> 3 | Some (l, f) \<Rightarrow> label_rank l) + 3 * (2 - i)
       \<and> i \<le> i' \<and> i' < 3"
proof (induction cfg ev p i st susp w rule: get_or_create_blob.induct)
  case (1 cfg ev src_path i st susp w)
  show ?case
  proof (cases "i \<ge> BLOB_FILE_CHANGED_RETRY_COUNT")
    case True
    with "1.prems" show ?thesis by (simp add: get_or_create_blob.simps)
  next
    case False
    hence i3: "i < 3" by (simp add: BLOB_FILE_CHANGED_RETRY_COUNT_def)
    obtain c f1 w1 where r: "run_attempt cfg ev src_path i st susp w = (c, f1, w1)"
      by (cases "run_attempt cfg ev src_path i st susp w") auto
    note unf = get_or_create_blob.simps[of cfg ev src_path i st susp w]
    show ?thesis
    proof (cases c)
      case Next
      with "1.prems" False r show ?thesis by (simp add: unf)
    next
      case (Yield q0 l0)
      with "1.prems" False r have eq: "i' = i" "l' = l0"
        by (simp_all add: unf)
      from run_attempt_yield[OF r[unfolded Yield]] eq i3 show ?thesis by simp
    next
      case (Return b)
      with "1.prems" False r show ?thesis by (simp add: unf)
    next
      case (Raise e)
      show ?thesis
      proof (cases "e = BlobFileChanged")
        case nb: False
        with Raise "1.prems" False r show ?thesis by (simp add: unf)
      next
        case True
        obtain so w2 where ls: "lstat ev src_path w1 = (so, w2)" by (cases "lstat ev src_path w1") auto
        show ?thesis
        proof (cases so)
          case None
          with True Raise "1.prems" False r ls show ?thesis by (simp add: unf)
        next
          case (Some st2)
          with True Raise "1.prems" False r ls
          have rec: "get_or_create_blob cfg ev src_path (i + 1) st2 None w2 = (Yielded q (GocbGen i' st' l' f'), w')"
            by (simp add: unf)
          have "i + 1 \<le> i' \<and> i' < 3"
            using "1.IH"[OF False r[symmetric] _ _ True ls[symmetric] _ rec] Raise Some
            by simp
          moreover have "label_rank l' \<le> 2" by (cases l') auto
          ultimately show ?thesis by (auto split: option.splits)
        qed
      qed
    qed
  qed
qed

lemma forward_blob_yield:
  "forward_blob cfg p r = (Yielded q g', w') \<Longrightarrow> \<exists>gg. g' = CF_blob p gg \<and> r = (Yielded q gg, w')"
  by (auto simp: forward_blob_def create_file_row_def split: prod.splits sent.splits option.splits)

lemma create_file_send_yield:
  "create_file_send cfg ev g v w = (Yielded q g', w') \<Longrightarrow> gen_rank g' < gen_rank g"
proof (cases g)
  case (CF_start p)
  assume a: "create_file_send cfg ev g v w = (Yielded q g', w')"
  then obtain st w1 gg where "get_or_create_blob cfg ev p 0 st None w1 = (Yielded q gg, w')" "g' = CF_blob p gg"
    using CF_start
    by (auto simp: create_file_send_def create_file_row_def split: option.splits prod.splits if_splits dest!: forward_blob_yield)
  then show ?thesis using CF_start gocb_yield[of cfg ev p 0 st None w1 q] by (cases gg) auto
next
  case (CF_blob p gg)
  assume a: "create_file_send cfg ev g v w = (Yielded q g', w')"
  obtain i st l f where gg: "gg = GocbGen i st l f" by (cases gg) auto
  from a CF_blob gg obtain gg' where "get_or_create_blob cfg ev p i st (Some (l, f)) w = (Yielded q gg', w')" "g' = CF_blob p gg'"
    by (auto simp: create_file_send_def dest!: forward_blob_yield)
  then show ?thesis using CF_blob gg gocb_yield[of cfg ev p i st "Some (l, f)" w q] by (cases gg') auto
qed

lemma fold_callback:
  "fold (\<lambda>(k, g). callback g (R k)) ts s =
     s\<lparr>schedule_queue := map (\<lambda>(k, g). (g, Some (R k))) (rev ts) @ schedule_queue s\<rparr>"
  by (induction ts arbitrary: s) (auto simp: callback_def)

lemma sum_rank_map:
  "sum_list (map ((\<lambda>(g, v). Suc (gen_rank g)) \<circ> (\<lambda>(k, g). (g, F k))) ts)
     = sum_list (map (\<lambda>(k, g). Suc (gen_rank g)) ts)"
  by (induction ts) auto

lemma size_batch_run_rank: "total_rank (fst (size_batch_run (s, w))) = total_rank s"
  by (simp add: size_batch_run_def Let_def fold_callback total_rank_def sum_rank_map)

lemma hash_batch_run_rank: "total_rank (fst (hash_batch_run (s, w))) = total_rank s"
  by (simp add: hash_batch_run_def Let_def fold_callback total_rank_def sum_rank_map)

lemma flush_if_needed_rank:
  assumes "\<And>s w. total_rank (fst (batch_run (s, w))) = total_rank s"
  shows "total_rank (fst (flush_if_needed ev fetcher batch_run x)) = total_rank (fst x)"
  using assms by (cases x) (auto simp: flush_if_needed_def split: prod.splits)

lemma flush_rank:
  assumes "\<And>s w. total_rank (fst (batch_run (s, w))) = total_rank s"
  shows "total_rank (fst (flush fetcher batch_run x)) = total_rank (fst x)"
  using assms by (cases x) (auto simp: flush_def)

lemma bqm_flush_if_needed_rank: "total_rank (fst (bqm_flush_if_needed ev x)) = total_rank (fst x)"
  by (simp add: bqm_flush_if_needed_def flush_if_needed_rank size_batch_run_rank hash_batch_run_rank)

lemma bqm_flush_rank: "total_rank (fst (bqm_flush x)) = total_rank (fst x)"
  by (simp add: bqm_flush_def flush_rank size_batch_run_rank hash_batch_run_rank)

lemma end_of_iteration_rank: "total_rank (fst (end_of_iteration ev x)) = total_rank (fst x)"
  using bqm_flush_if_needed_rank[of ev x] bqm_flush_rank
  by (auto simp: end_of_iteration_def split: prod.splits)

lemma bqm_query_rank:
  "total_rank (fst (bqm_query ev req g x)) = total_rank (fst x) + Suc (gen_rank g)"
proof (cases x)
  case (Pair s w)
  show ?thesis
  proof (cases req)
    case (SizeReq sz)
    have "total_rank (fst (size_query ev sz g (s, w)))
            = total_rank (s\<lparr>fetcher_size := (fetcher_size s)\<lparr>tasks := tasks (fetcher_size s) @ [(sz, g)]\<rparr>\<rparr>)"
      by (simp add: size_query_def Let_def time_now_def flush_if_needed_rank size_batch_run_rank)
         (simp add: total_rank_def)
    then show ?thesis using Pair SizeReq by (simp add: bqm_query_def total_rank_def)
  next
    case (HashReq h)
    have "total_rank (fst (hash_query ev h g (s, w)))
            = total_rank (s\<lparr>fetcher_hash := (fetcher_hash s)\<lparr>tasks := tasks (fetcher_hash s) @ [(h, g)]\<rparr>\<rparr>)"
      by (simp add: hash_query_def Let_def time_now_def flush_if_needed_rank hash_batch_run_rank)
         (simp add: total_rank_def)
    then show ?thesis using Pair HashReq by (simp add: bqm_query_def total_rank_def)
  qed
qed

lemma loop_body_rank:
  assumes "schedule_queue (fst x) \<noteq> []" "loop_body cfg ev x = (None, x')"
  shows "total_rank (fst x') < total_rank (fst x)"
proof -
  obtain s w where x: "x = (s, w)" by (cases x) auto
  from assms x obtain g v q where q: "schedule_queue s = (g, v) # q" by (cases "schedule_queue s") auto
  let ?s0 = "s\<lparr>schedule_queue := q\<rparr>"
  have r0: "total_rank s = total_rank ?s0 + Suc (gen_rank g)" using q by (simp add: total_rank_def)
  obtain r w1 where cf: "create_file_send cfg ev g v w = (r, w1)" by (cases "create_file_send cfg ev g v w") auto
  show ?thesis
  proof (cases r)
    case (Yielded req g')
    with assms x q cf have "x' = end_of_iteration ev (bqm_query ev req g' (?s0, w1))"
      by (simp add: loop_body_def)
    then have "total_rank (fst x') = total_rank ?s0 + Suc (gen_rank g')"
      by (simp add: end_of_iteration_rank bqm_query_rank)
    with create_file_send_yield[OF cf[unfolded Yielded]] r0 x show ?thesis by simp
  next
    case (Returned fl)
    with assms x q cf have "x' = end_of_iteration ev (?s0\<lparr>files := files ?s0 @ [fl]\<rparr>, w1)"
      by (simp add: loop_body_def)
    then have "total_rank (fst x') = total_rank (?s0\<lparr>files := files ?s0 @ [fl]\<rparr>)"
      by (simp add: end_of_iteration_rank)
    then have "total_rank (fst x') = total_rank ?s0"
      by (simp add: total_rank_def)
    with r0 x show ?thesis by simp
  next
    case (Raised e)
    with assms x q cf have "x' = end_of_iteration ev (?s0, w1)"
      by (auto simp: loop_body_def Let_def split: exn.splits if_splits)
    then have "total_rank (fst x') = total_rank ?s0"
      by (simp add: end_of_iteration_rank)
    with r0 x show ?thesis by simp
  qed
qed

text \<open>Lines 739--757: the \<^verbatim>\<open>while\<close> loop.\<close>

function create_files_loop :: "config \<Rightarrow> env \<Rightarrow> state \<Rightarrow> exn option \<times> state" where
  "create_files_loop cfg ev x =
     (if length (schedule_queue (fst x)) > 0 then
        (case loop_body cfg ev x of
           (Some e, x') \<Rightarrow> (Some e, x')
         | (None, x') \<Rightarrow> create_files_loop cfg ev x')
      else (None, x))"
  by pat_completeness auto
termination
  by (relation "measure (\<lambda>(cfg, ev, x). total_rank (fst x))") (auto dest!: loop_body_rank[rotated, OF sym])

declare create_files_loop.simps [simp del]

subsection \<open>The stages before the loop\<close>

text \<open>A scan result entry (\<^verbatim>\<open>_ScanResultEntry\<close>) is a path with its stat; the
  scan result is the list \<^verbatim>\<open>all_files\<close> in the order the scanner emitted it.\<close>

type_synonym ScanResultEntry = "path \<times> stat_result"

text \<open>Lines 345--349.\<close>

definition pre_calculate_stats :: "ScanResultEntry list \<Rightarrow> world \<Rightarrow> world" where
  "pre_calculate_stats all_files w =
     w\<lparr>pre_calc_stats := fold (\<lambda>(p, st) m. m(p \<mapsto> st)) all_files Map.empty\<rparr>"

text \<open>Lines 357--380: \<^verbatim>\<open>StatKey\<close> and the table of the last backup's regular
  files; lines 384--391: the key of a scanned file.\<close>

type_synonym StatKey = "string \<times> int option \<times> int \<times> int \<times> int \<times> int"

definition key_of_file :: "File \<Rightarrow> StatKey" where
  "key_of_file file = (f_path file, f_blob_raw_size file, f_mode file, f_uid file, f_gid file, f_mtime file)"

definition key_of_entry :: "string \<Rightarrow> stat_result \<Rightarrow> StatKey" where
  "key_of_entry rel st =
     (rel, Some (st_size st), st_mode st, st_uid st, st_gid st, st_mtime_ns st div 1000)"

definition stat_to_files :: "File list \<Rightarrow> (StatKey \<Rightarrow> File option)" where
  "stat_to_files backup_files =
     fold (\<lambda>file m. if S_ISREG (f_mode file) then m(key_of_file file \<mapsto> file) else m)
       backup_files Map.empty"

text \<open>Lines 382--393.\<close>

fun reuse_entries ::
  "config \<Rightarrow> (StatKey \<Rightarrow> File option) \<Rightarrow> ScanResultEntry list \<Rightarrow> world \<Rightarrow> exn option \<times> world" where
  "reuse_entries cfg m [] w = (None, w)"
| "reuse_entries cfg m ((p, st) # es) w =
     (if S_ISREG (st_mode st) then
        (case relative_to_source cfg p of
           None \<Rightarrow> (Some ValueError, w)
         | Some rel \<Rightarrow>
             (case m (key_of_entry rel st) of
                Some file \<Rightarrow>
                  reuse_entries cfg m es
                    (w\<lparr>pre_calc_reused_files := (pre_calc_reused_files w)(p \<mapsto> file)\<rparr>)
              | None \<Rightarrow> reuse_entries cfg m es w))
      else reuse_entries cfg m es w)"

text \<open>Lines 351--393.\<close>

definition reuse_unchanged_files :: "config \<Rightarrow> env \<Rightarrow> ScanResultEntry list \<Rightarrow> world \<Rightarrow> exn option \<times> world" where
  "reuse_unchanged_files cfg ev all_files w =
     (case last_backup_files ev of
        None \<Rightarrow> (None, w)
      | Some backup_files \<Rightarrow> reuse_entries cfg (stat_to_files backup_files) all_files w)"

text \<open>Lines 409--419: the hasher pool, one file after the other. A missing file
  makes \<^verbatim>\<open>calc_file_hash\<close> raise \<^verbatim>\<open>FileNotFoundError\<close>.\<close>

fun hash_entries ::
  "config \<Rightarrow> env \<Rightarrow> (int \<Rightarrow> bool option) \<Rightarrow> ScanResultEntry list \<Rightarrow> world \<Rightarrow> exn option \<times> world" where
  "hash_entries cfg ev existed_sizes [] w = (None, w)"
| "hash_entries cfg ev existed_sizes ((p, st) # es) w =
     (case existed_sizes (st_size st) of
        None \<Rightarrow> (Some KeyError, w)
      | Some ex \<Rightarrow>
          if ex then
            (case read_source ev p w of
               (None, w1) \<Rightarrow> (Some (FileNotFoundError p), w1)
             | (Some c, w1) \<Rightarrow>
                 hash_entries cfg ev existed_sizes es
                   (w1\<lparr>pre_calc_hashes := (pre_calc_hashes w1)(p \<mapsto> calc_bytes_hash cfg c)\<rparr>))
          else hash_entries cfg ev existed_sizes es w)"

text \<open>Lines 395--419.\<close>

definition pre_calculate_hash :: "config \<Rightarrow> env \<Rightarrow> ScanResultEntry list \<Rightarrow> world \<Rightarrow> exn option \<times> world" where
  "pre_calculate_hash cfg ev all_files w =
     (let file_entries_to_hash =
            filter (\<lambda>(p, st). S_ISREG (st_mode st) \<and> pre_calc_reused_files w p = None) all_files;
          all_sizes = set (map (\<lambda>(p, st). st_size st) file_entries_to_hash);
          existed_sizes = has_blob_with_size_batched w all_sizes;
          w1 = w\<lparr>pre_calc_hashes := Map.empty,
                 blob_by_size_cache := blob_by_size_cache w ++ existed_sizes\<rparr>
      in hash_entries cfg ev existed_sizes file_entries_to_hash w1)"

subsection \<open>\<^verbatim>\<open>__create_backup\<close> and \<^verbatim>\<open>run\<close>\<close>

text \<open>Lines 704--712: the stages before the loop, each may raise.\<close>

definition prepare :: "config \<Rightarrow> env \<Rightarrow> ScanResultEntry list \<Rightarrow> world \<Rightarrow> exn option \<times> world" where
  "prepare cfg ev all_files w =
     (case (if reuse_stat_unchanged_file cfg
            then reuse_unchanged_files cfg ev all_files (pre_calculate_stats all_files w)
            else (None, pre_calculate_stats all_files w)) of
        (Some e, w1) \<Rightarrow> (Some e, w1)
      | (None, w1) \<Rightarrow>
          if effective_concurrency cfg > 1 then pre_calculate_hash cfg ev all_files w1
          else (None, w1))"

text \<open>Lines 687--765, given the scan result: the prior stages, then one
  \<^verbatim>\<open>__create_file\<close> generator per entry is queued (lines 736--738) and the loop
  runs. The result is the list \<^verbatim>\<open>files\<close> handed to the finalization.\<close>

definition create_backup ::
  "config \<Rightarrow> env \<Rightarrow> ScanResultEntry list \<Rightarrow> state \<Rightarrow> (exn + File list) \<times> world" where
  "create_backup cfg ev all_files = (\<lambda>(s, w).
     (case prepare cfg ev all_files w of
        (Some e, w1) \<Rightarrow> (Inl e, w1)
      | (None, w1) \<Rightarrow>
          (case create_files_loop cfg ev
                  (s\<lparr>schedule_queue := schedule_queue s @ map (\<lambda>(p, st). (CF_start p, None)) all_files\<rparr>, w1) of
             (Some e, s2, w2) \<Rightarrow> (Inl e, w2)
           | (None, s2, w2) \<Rightarrow> (Inr (files s2), w2))))"

text \<open>Lines 772--782: the caches are cleared and the batch query manager is made
  with the default batch size; each fetcher reads the clock when it is made.\<close>

definition initial_state :: "env \<Rightarrow> world \<Rightarrow> state" where
  "initial_state ev w =
     (let w0 = w\<lparr>blob_by_size_cache := Map.empty, blob_by_hash_cache := Map.empty\<rparr> in
      case time_now ev w0 of
        (t1, w1) \<Rightarrow>
          (case time_now ev w1 of
             (t2, w2) \<Rightarrow>
               (\<lparr>schedule_queue = [],
                 fetcher_size = fetcher_init MAX_BATCH_SIZE t1,
                 fetcher_hash = fetcher_init MAX_BATCH_SIZE t2,
                 files = []\<rparr>, w2)))"

text \<open>Lines 768--794: an exception that leaves \<^verbatim>\<open>__create_backup\<close> applies the
  blob rollback before it is raised again.\<close>

definition run :: "config \<Rightarrow> env \<Rightarrow> ScanResultEntry list \<Rightarrow> world \<Rightarrow> (exn + File list) \<times> world" where
  "run cfg ev all_files w =
     (case create_backup cfg ev all_files (initial_state ev w) of
        (Inl e, w3) \<Rightarrow> (Inl e, apply_blob_rollback w3)
      | (Inr fl, w3) \<Rightarrow> (Inr fl, w3))"

section \<open>Policy selection as one phase\<close>

text \<open>Lines 445--489 of \<^verbatim>\<open>attempt_once\<close>, from its first line to the point where
  the policy is fixed, and the same range entered again after the size request.\<close>

definition policy_phase :: "config \<Rightarrow> env \<Rightarrow> path \<Rightarrow> stat_result \<Rightarrow> bool \<Rightarrow> world \<Rightarrow> outcome" where
  "policy_phase cfg ev src_path st lc w =
     (case attempt_enter cfg src_path st lc w of
        (f, w0) \<Rightarrow> and_then (select_policy cfg ev src_path st f w0) (compute_default cfg ev src_path))"

definition policy_phase_resume :: "config \<Rightarrow> env \<Rightarrow> path \<Rightarrow> stat_result \<Rightarrow> locals \<Rightarrow> world \<Rightarrow> outcome" where
  "policy_phase_resume cfg ev src_path st f w =
     and_then (select_policy_resume st f w) (compute_default cfg ev src_path)"

text \<open>The value of \<^verbatim>\<open>can_copy_on_write\<close> (lines 446--451) for a stat.\<close>

definition can_cow :: "config \<Rightarrow> stat_result \<Rightarrow> bool" where
  "can_cow cfg st \<longleftrightarrow>
     HAS_COPY_FILE_RANGE cfg \<and> get_compress_method_from_size cfg (st_size st) = plain
       \<and> blob_store_in_cow_fs cfg \<and> st_dev st = blob_store_st_dev cfg"

text \<open>
  The decision table of the specification, in its words: first match wins;
  the final retry; a pre-computed fingerprint; not \<open>can_cow\<close> and at most 8 KiB;
  not \<open>can_cow\<close>, more than 10 MiB and no blob of that size; otherwise.
\<close>

definition spec_policy :: "bool \<Rightarrow> bool \<Rightarrow> bool \<Rightarrow> int \<Rightarrow> bool \<Rightarrow> BlobCreatePolicy" where
  "spec_policy final_retry has_pre_hash cow sz no_blob_of_size =
     (if final_retry then copy_hash
      else if has_pre_hash then default_policy
      else if \<not> cow \<and> sz \<le> 8 * 1024 then read_all
      else if \<not> cow \<and> sz > 10 * 1024 * 1024 \<and> no_blob_of_size then hash_once
      else default_policy)"

text \<open>The specification's truncating division: the quotient rounded toward zero.\<close>

definition trunc_div :: "int \<Rightarrow> int \<Rightarrow> int" where
  "trunc_div a b = sgn a * sgn b * (\<bar>a\<bar> div \<bar>b\<bar>)"

section \<open>Concrete inputs\<close>

text \<open>A configuration without compression and without copy-on-write, whose
  digest is the content itself, and which skips every missing file.\<close>

definition example_config :: config where
  "example_config =
     \<lparr>get_compress_method_from_size = (\<lambda>sz. plain),
      HAS_COPY_FILE_RANGE = False,
      blob_store_in_cow_fs = False,
      blob_store_st_dev = 1,
      calc_bytes_hash = (\<lambda>c. c),
      compressed = (\<lambda>m c. c),
      relative_to_source = (\<lambda>p. Some p),
      creation_skip_missing_file = True,
      skip_missing_match = (\<lambda>rel. True),
      reuse_stat_unchanged_file = False,
      effective_concurrency = 1,
      os_replace_ok = True\<rparr>"

text \<open>The same on a copy-on-write file system shared with the source.\<close>

definition cow_config :: config where
  "cow_config = example_config\<lparr>HAS_COPY_FILE_RANGE := True, blob_store_in_cow_fs := True\<rparr>"

definition st_regular :: "int \<Rightarrow> int \<Rightarrow> stat_result" where
  "st_regular sz mt =
     \<lparr>st_mode = 33188, st_size = sz, st_uid = 1000, st_gid = 1000, st_mtime_ns = mt, st_dev = 1\<rparr>"

definition st_directory :: stat_result where
  "st_directory =
     \<lparr>st_mode = 16877, st_size = 4096, st_uid = 1000, st_gid = 1000, st_mtime_ns = 5000, st_dev = 1\<rparr>"

definition regular_file :: "int \<Rightarrow> bytes \<Rightarrow> src_node" where
  "regular_file sz c = \<lparr>n_stat = st_regular sz 5000, n_content = c, n_link = []\<rparr>"

definition directory :: src_node where
  "directory = \<lparr>n_stat = st_directory, n_content = [], n_link = []\<rparr>"

text \<open>A source tree that does not change, and a clock that stands still.\<close>

definition static_env :: "(path \<Rightarrow> src_node option) \<Rightarrow> env" where
  "static_env tree = \<lparr>fs_at = (\<lambda>t. tree), time_at = (\<lambda>t. 0), last_backup_files = None\<rparr>"

text \<open>A source tree that is \<open>tree\<close> for the first \<open>n\<close> observations and empty
  afterwards.\<close>

definition vanishing_env :: "nat \<Rightarrow> (path \<Rightarrow> src_node option) \<Rightarrow> env" where
  "vanishing_env n tree =
     \<lparr>fs_at = (\<lambda>t. if t < n then tree else Map.empty), time_at = (\<lambda>t. 0), last_backup_files = None\<rparr>"

definition empty_world :: world where
  "empty_world =
     \<lparr>clock = 0, disk = Map.empty, rollback = [],
      blob_by_size_cache = Map.empty, blob_by_hash_cache = Map.empty,
      pre_calc_stats = Map.empty, pre_calc_hashes = Map.empty, pre_calc_reused_files = Map.empty,
      db_blobs = [], trace = []\<rparr>"

lemmas example_defs =
  example_config_def cow_config_def st_regular_def st_directory_def regular_file_def directory_def
  static_env_def vanishing_env_def empty_world_def

lemmas policy_phase_defs =
  policy_phase_def policy_phase_resume_def attempt_enter_def select_policy_def select_policy_resume_def
  compute_default_def and_then_def set_hash_once_def
  READ_ALL_SIZE_THRESHOLD_def HASH_ONCE_SIZE_THRESHOLD_def read_source_def read_source_upto_def tick_def

section \<open>Policy selection (C1)\<close>

lemma and_then_assoc: "and_then (and_then r k1) k2 = and_then r (\<lambda>f w. and_then (k1 f w) k2)"
  by (auto simp: and_then_def split: prod.splits ctl.splits)

text \<open>\<open>policy_phase\<close> is the first part of \<^verbatim>\<open>attempt_once\<close>, the dedup lookup and
  the write paths follow it.\<close>

lemma attempt_once_phases:
  "attempt_once cfg ev p st lc w =
     and_then (policy_phase cfg ev p st lc w) (attempt_from_dedup cfg ev p st)"
  by (simp add: attempt_once_def policy_phase_def and_then_assoc attempt_from_default_def[abs_def]
      split: prod.splits)

lemma attempt_resume_phases:
  "attempt_resume cfg ev p st At_size_req f w =
     and_then (policy_phase_resume cfg ev p st f w) (attempt_from_dedup cfg ev p st)"
  by (simp add: attempt_resume_def policy_phase_resume_def and_then_assoc attempt_from_default_def[abs_def])

lemma policy_phase_table:
  assumes "policy_phase cfg ev p st lc w = (c, f, w')" and "\<forall>q l. c \<noteq> Yield q l"
  shows "policy f = Some (spec_policy lc (pre_calc_hashes w p \<noteq> None) (can_cow cfg st) (st_size st)
                             (blob_by_size_cache w (st_size st) = Some False))"
  using assms
  unfolding policy_phase_defs spec_policy_def can_cow_def Let_def
  by (auto split: if_splits option.splits prod.splits)

lemma policy_phase_yield:
  assumes "policy_phase cfg ev p st lc w = (Yield q l, f, w')"
  shows "q = SizeReq (st_size st) \<and> l = At_size_req \<and> \<not> lc \<and> pre_calc_hashes w p = None
           \<and> \<not> can_cow cfg st \<and> st_size st > 10 * 1024 * 1024
           \<and> blob_by_size_cache w (st_size st) = None \<and> policy f = None"
  using assms
  unfolding policy_phase_defs can_cow_def Let_def
  by (auto split: if_splits option.splits prod.splits)








section \<open>The stored mtime (C6)\<close>

lemma fold_update_key:
  "fold (\<lambda>x m. if P x then m(kf x \<mapsto> x) else m) xs m0 k = Some y
     \<Longrightarrow> (\<forall>k' y'. m0 k' = Some y' \<longrightarrow> kf y' = k') \<Longrightarrow> kf y = k"
  by (induction xs arbitrary: m0) (auto split: if_splits)

lemma stat_to_files_key:
  "stat_to_files backup_files k = Some prior \<Longrightarrow> key_of_file prior = k"
  unfolding stat_to_files_def by (erule fold_update_key) simp

section \<open>The order of the File rows (C2)\<close>

text \<open>The definitions that a run on a concrete input unfolds.\<close>

lemmas attempt_write_defs =
  attempt_once_def attempt_resume_def attempt_from_default_def attempt_from_dedup_def
  attempt_enter_def select_policy_def select_policy_resume_def compute_default_def
  dedup_lookup_def dedup_resume_def write_blob_def write_known_hash_def write_hash_once_def
  write_copy_hash_def write_copy_hash_resume_def commit_blob_def create_blob_def bp_rba_def
  add_remove_file_rollbacker_def write_file_def remove_file_def check_changes_def cache_get_def
  and_then_def set_hash_once_def READ_ALL_SIZE_THRESHOLD_def HASH_ONCE_SIZE_THRESHOLD_def
  read_source_def read_source_upto_def lstat_def readlink_def log_event_def tick_def

lemmas run_defs =
  run_def initial_state_def create_backup_def prepare_def pre_calculate_stats_def time_now_def fetcher_init_def
  MAX_BATCH_SIZE_def create_files_loop.simps loop_body_def end_of_iteration_def
  bqm_flush_if_needed_def bqm_flush_def flush_if_needed_def flush_def bqm_query_def
  size_query_def hash_query_def size_batch_run_def hash_batch_run_def callback_def
  has_blob_with_size_batched_def get_blobs_def
  create_file_send_def forward_blob_def create_file_row_def session_create_file_def
  get_or_create_blob.simps run_attempt_def BLOB_FILE_CHANGED_RETRY_COUNT_def
  attempt_write_defs
  S_ISREG_def S_ISDIR_def S_ISLNK_def S_IFMT_def apply_blob_rollback_def
  should_skip_missing_source_file_def

text \<open>
  C2, at a failing input. The scanner emits the new regular file \<open>a.txt\<close> and
  then the directory \<open>d\<close>. The task of \<open>a.txt\<close> suspends with a hash request;
  the task of \<open>d\<close> needs no request and completes in the next iteration, so its
  row is appended first. The rows come out as \<open>d\<close>, \<open>a.txt\<close>.
\<close>

theorem file_rows_out_of_scan_order:
  "map fst [(''a.txt'', st_regular 2 5000), (''d'', st_directory)] = [''a.txt'', ''d'']
   \<and> fst (run example_config
            (static_env [''a.txt'' \<mapsto> regular_file 2 ''hi'', ''d'' \<mapsto> directory])
            [(''a.txt'', st_regular 2 5000), (''d'', st_directory)] empty_world)
       = Inr [session_create_file ''d'' st_directory None 5 None,
              session_create_file ''a.txt'' (st_regular 2 5000) None 5
                (Some \<lparr>hash = ''hi'', compress = ''plain'', raw_size = 2, stored_size = 2\<rparr>)]"
  by (simp add: run_defs example_defs Let_def)

section \<open>The retry loop, step by step\<close>

lemma gocb_exhausted:
  "get_or_create_blob cfg ev p 3 st susp w = (Raised VolatileBlobFile, w)"
  by (simp add: get_or_create_blob.simps BLOB_FILE_CHANGED_RETRY_COUNT_def)

lemma gocb_changed:
  assumes "i < 3" and "run_attempt cfg ev p i st susp w = (Raise BlobFileChanged, f, w1)"
  shows "get_or_create_blob cfg ev p i st susp w =
           (case lstat ev p w1 of
              (None, w2) \<Rightarrow> (Raised (FileNotFoundError p), w2)
            | (Some st', w2) \<Rightarrow> get_or_create_blob cfg ev p (i + 1) st' None w2)"
  using assms
  by (simp add: get_or_create_blob.simps[of cfg ev p i] BLOB_FILE_CHANGED_RETRY_COUNT_def)

lemma gocb_raise_other:
  assumes "i < 3" and "run_attempt cfg ev p i st susp w = (Raise e, f, w1)" and "e \<noteq> BlobFileChanged"
  shows "get_or_create_blob cfg ev p i st susp w = (Raised e, w1)"
  using assms
  by (simp add: get_or_create_blob.simps[of cfg ev p i] BLOB_FILE_CHANGED_RETRY_COUNT_def)

lemma gocb_yielded:
  assumes "i < 3" and "run_attempt cfg ev p i st susp w = (Yield q l, f, w1)"
  shows "get_or_create_blob cfg ev p i st susp w = (Yielded q (GocbGen i st l f), w1)"
  using assms
  by (simp add: get_or_create_blob.simps[of cfg ev p i] BLOB_FILE_CHANGED_RETRY_COUNT_def)

lemma gocb_returned:
  assumes "i < 3" and "run_attempt cfg ev p i st susp w = (Return blob, f, w1)"
  shows "get_or_create_blob cfg ev p i st susp w =
           (Returned (blob, st),
            w1\<lparr>blob_by_size_cache := (blob_by_size_cache w1)(raw_size blob \<mapsto> True),
               blob_by_hash_cache := (blob_by_hash_cache w1)(hash blob \<mapsto> Some blob)\<rparr>)"
  using assms
  by (simp add: get_or_create_blob.simps[of cfg ev p i] BLOB_FILE_CHANGED_RETRY_COUNT_def)

section \<open>The \<^verbatim>\<open>read_all\<close> policy reads a bounded prefix (C9)\<close>

lemma policy_phase_unchanged:
  assumes "policy_phase cfg ev p st lc w = (c, f, w')"
  shows "disk w' = disk w \<and> rollback w' = rollback w \<and> trace w' = trace w
           \<and> db_blobs w' = db_blobs w \<and> blob_by_hash_cache w' = blob_by_hash_cache w
           \<and> clock w' \<le> Suc (clock w)"
  using assms
  unfolding policy_phase_defs Let_def
  by (auto split: if_splits option.splits prod.splits)

lemma policy_phase_read_all:
  assumes "policy_phase cfg ev p st lc w = (c, f, w')"
    and "\<not> lc" and "pre_calc_hashes w p = None" and "\<not> can_cow cfg st"
    and "st_size st \<le> READ_ALL_SIZE_THRESHOLD"
  shows "policy f = Some read_all
       \<and> (\<forall>x. blob_content f = Some x \<longrightarrow>
            (\<exists>nd. fs_at ev (clock w) p = Some nd
               \<and> x = take (nat (READ_ALL_SIZE_THRESHOLD + 1)) (n_content nd)))
       \<and> (\<forall>nd. fs_at ev (clock w) p = Some nd \<and> int (length (n_content nd)) > READ_ALL_SIZE_THRESHOLD
            \<longrightarrow> c = Raise BlobFileChanged)
       \<and> (c = Next \<longrightarrow> blob_hash f \<noteq> None \<and> blob_content f \<noteq> None)"
  using assms
  unfolding policy_phase_defs can_cow_def Let_def
  by (auto split: if_splits option.splits prod.splits)

lemma dedup_read_all_unchanged:
  assumes "attempt_from_dedup cfg ev p st f w = (c, f', w')"
    and "policy f = Some read_all" and "blob_hash f \<noteq> None" and "blob_content f \<noteq> None"
  shows "policy f' = Some read_all \<and> blob_content f' = blob_content f \<and> clock w' = clock w"
  using assms
  unfolding attempt_from_dedup_def dedup_lookup_def and_then_def write_blob_def write_known_hash_def
    commit_blob_def create_blob_def bp_rba_def add_remove_file_rollbacker_def write_file_def
    log_event_def Let_def
  by (auto split: if_splits option.splits prod.splits)

lemma and_then_cases:
  assumes "and_then r k = (c, f, w)"
  obtains "r = (c, f, w)" "c \<noteq> Next" | f0 w0 where "r = (Next, f0, w0)" "k f0 w0 = (c, f, w)"
  using assms by (auto simp: and_then_def split: prod.splits ctl.splits)

text \<open>
  C9. Under \<open>read_all\<close> (not the last attempt, no pre-computed hash, no
  copy-on-write, a stat size of at most 8 KiB) the attempt observes the source
  once and holds at most the first 8 KiB + 1 bytes of it; when the file has more
  than 8 KiB the attempt raises \<^verbatim>\<open>_BlobFileChanged\<close> with the disk, the rollback
  list and the catalog untouched, and the retry loop re-stats the source and
  goes on to the next attempt.
\<close>

theorem read_all_bounded_read:
  assumes "attempt_once cfg ev p st lc w = (c, f, w')"
    and "\<not> lc" and "pre_calc_hashes w p = None" and "\<not> can_cow cfg st"
    and "st_size st \<le> READ_ALL_SIZE_THRESHOLD"
  shows "policy f = Some read_all
       \<and> clock w' \<le> Suc (clock w)
       \<and> (\<forall>x. blob_content f = Some x \<longrightarrow>
            int (length x) \<le> READ_ALL_SIZE_THRESHOLD + 1
              \<and> (\<exists>nd. fs_at ev (clock w) p = Some nd
                    \<and> x = take (nat (READ_ALL_SIZE_THRESHOLD + 1)) (n_content nd)))
       \<and> (\<forall>nd. fs_at ev (clock w) p = Some nd \<and> int (length (n_content nd)) > READ_ALL_SIZE_THRESHOLD
            \<longrightarrow> c = Raise BlobFileChanged \<and> disk w' = disk w \<and> rollback w' = rollback w
                \<and> db_blobs w' = db_blobs w \<and> trace w' = trace w)
       \<and> (c = Raise BlobFileChanged \<longrightarrow>
            (\<forall>i susp w0. i < 3 \<and> run_attempt cfg ev p i st susp w0 = (c, f, w') \<longrightarrow>
               get_or_create_blob cfg ev p i st susp w0 =
                 (case lstat ev p w' of
                    (None, w2) \<Rightarrow> (Raised (FileNotFoundError p), w2)
                  | (Some st', w2) \<Rightarrow> get_or_create_blob cfg ev p (i + 1) st' None w2)))"
proof -
  from assms(1) have a: "and_then (policy_phase cfg ev p st lc w) (attempt_from_dedup cfg ev p st) = (c, f, w')"
    by (simp add: attempt_once_phases)
  have main: "policy f = Some read_all
       \<and> clock w' \<le> Suc (clock w)
       \<and> (\<forall>x. blob_content f = Some x \<longrightarrow>
              (\<exists>nd. fs_at ev (clock w) p = Some nd
                    \<and> x = take (nat (READ_ALL_SIZE_THRESHOLD + 1)) (n_content nd)))
       \<and> (\<forall>nd. fs_at ev (clock w) p = Some nd \<and> int (length (n_content nd)) > READ_ALL_SIZE_THRESHOLD
            \<longrightarrow> c = Raise BlobFileChanged \<and> disk w' = disk w \<and> rollback w' = rollback w
                \<and> db_blobs w' = db_blobs w \<and> trace w' = trace w)"
  proof (rule and_then_cases[OF a])
    assume r: "policy_phase cfg ev p st lc w = (c, f, w')" and "c \<noteq> Next"
    from policy_phase_read_all[OF r assms(2-5)] policy_phase_unchanged[OF r]
    show ?thesis by blast
  next
    fix f0 w0
    assume r: "policy_phase cfg ev p st lc w = (Next, f0, w0)"
      and d: "attempt_from_dedup cfg ev p st f0 w0 = (c, f, w')"
    note ra = policy_phase_read_all[OF r assms(2-5)]
    note un = policy_phase_unchanged[OF r]
    from ra have "policy f0 = Some read_all" "blob_hash f0 \<noteq> None" "blob_content f0 \<noteq> None"
      by simp_all
    from dedup_read_all_unchanged[OF d this]
    have k: "policy f = Some read_all" "blob_content f = blob_content f0" "clock w' = clock w0"
      by simp_all
    from ra have "\<forall>nd. fs_at ev (clock w) p = Some nd \<longrightarrow> \<not> int (length (n_content nd)) > READ_ALL_SIZE_THRESHOLD"
      by auto
    with k ra un show ?thesis by auto
  qed
  have len: "int (length (take (nat (READ_ALL_SIZE_THRESHOLD + 1)) xs)) \<le> READ_ALL_SIZE_THRESHOLD + 1" for xs :: bytes
    by (simp add: READ_ALL_SIZE_THRESHOLD_def)
  have retry: "c = Raise BlobFileChanged \<longrightarrow>
            (\<forall>i susp w0. i < 3 \<and> run_attempt cfg ev p i st susp w0 = (c, f, w') \<longrightarrow>
               get_or_create_blob cfg ev p i st susp w0 =
                 (case lstat ev p w' of
                    (None, w2) \<Rightarrow> (Raised (FileNotFoundError p), w2)
                  | (Some st', w2) \<Rightarrow> get_or_create_blob cfg ev p (i + 1) st' None w2))"
    using gocb_changed by blast
  from main len retry show ?thesis by (metis (no_types, lifting))
qed

lemma read_all_too_long_example:
  "attempt_once example_config
      (static_env [''a.txt'' \<mapsto> regular_file 2 (replicate 8193 CHR ''x'')]) ''a.txt''
      (st_regular 2 5000) False empty_world
     = (Raise BlobFileChanged,
        \<lparr>last_chance = False, compress_method = plain, can_copy_on_write = False,
         policy = Some read_all, blob_hash = None,
         blob_content = Some (replicate 8193 CHR ''x''), pre_calc_hash = None\<rparr>,
        empty_world\<lparr>clock := 1\<rparr>)"
  by (simp add: attempt_write_defs example_defs)

theorem read_all_bounded_read_witness:
  "attempt_once example_config
      (static_env [''a.txt'' \<mapsto> regular_file 2 (replicate 8193 CHR ''x'')]) ''a.txt''
      (st_regular 2 5000) False empty_world
     = (Raise BlobFileChanged,
        \<lparr>last_chance = False, compress_method = plain, can_copy_on_write = False,
         policy = Some read_all, blob_hash = None,
         blob_content = Some (replicate 8193 CHR ''x''), pre_calc_hash = None\<rparr>,
        empty_world\<lparr>clock := 1\<rparr>)
   \<and> pre_calc_hashes empty_world ''a.txt'' = None
   \<and> \<not> can_cow example_config (st_regular 2 5000)
   \<and> st_size (st_regular 2 5000) \<le> READ_ALL_SIZE_THRESHOLD
   \<and> clock (empty_world\<lparr>clock := 1\<rparr>) \<le> Suc (clock empty_world)"
proof -
  have a: "\<not> False" by simp
  have b: "pre_calc_hashes empty_world ''a.txt'' = None" by (simp add: empty_world_def)
  have c: "\<not> can_cow example_config (st_regular 2 5000)" by (simp add: can_cow_def example_config_def)
  have d: "st_size (st_regular 2 5000) \<le> READ_ALL_SIZE_THRESHOLD"
    by (simp add: st_regular_def READ_ALL_SIZE_THRESHOLD_def)
  from read_all_bounded_read[OF read_all_too_long_example a b c d]
  have t: "clock (empty_world\<lparr>clock := 1\<rparr>) \<le> Suc (clock empty_world)" by blast
  from read_all_too_long_example b c d t show ?thesis by blast
qed

section \<open>The dedup short-circuit (C5)\<close>

lemma policy_phase_hash_known:
  assumes "policy_phase cfg ev p st lc w = (Next, f, w')" and "blob_hash f = Some h"
  shows "policy f \<noteq> Some hash_once"
  using assms
  unfolding policy_phase_defs Let_def
  by (auto split: if_splits option.splits prod.splits)

lemma policy_phase_yield_locals:
  assumes "policy_phase cfg ev p st lc w = (Yield q l, f, w')"
  shows "policy f = None \<and> blob_hash f = None"
  using assms
  unfolding policy_phase_defs Let_def
  by (auto split: if_splits option.splits prod.splits)

lemma policy_phase_resume_hash_known:
  assumes "policy_phase_resume cfg ev p st f w = (Next, f', w')"
    and "policy f = None" and "blob_hash f = None" and "blob_hash f' = Some h"
  shows "policy f' \<noteq> Some hash_once"
  using assms
  unfolding policy_phase_defs Let_def
  by (auto split: if_splits option.splits prod.splits)

lemma policy_phase_resume_unchanged:
  assumes "policy_phase_resume cfg ev p st f w = (c, f', w')"
  shows "disk w' = disk w \<and> rollback w' = rollback w \<and> trace w' = trace w
           \<and> db_blobs w' = db_blobs w \<and> blob_by_hash_cache w' = blob_by_hash_cache w"
  using assms
  unfolding policy_phase_defs Let_def
  by (auto split: if_splits option.splits prod.splits)

lemma dedup_known_hash:
  assumes "blob_hash f = Some h" and "policy f \<noteq> Some hash_once"
  shows "attempt_from_dedup cfg ev p st f w =
           (case cache_get w h of
              Some b \<Rightarrow> (Return b, f, w)
            | None \<Rightarrow> (Yield (HashReq h) At_hash_req, f, w))"
  using assms
  by (simp add: attempt_from_dedup_def dedup_lookup_def and_then_def split: option.splits)

lemma dedup_resume_known_hash:
  assumes "blob_hash f = Some h"
  shows "attempt_resume cfg ev p st At_hash_req f w =
           (case cache_get w h of
              Some b \<Rightarrow> (Return b, f, w)
            | None \<Rightarrow> write_blob cfg ev p st f w)"
  using assms
  by (simp add: attempt_resume_def dedup_resume_def and_then_def split: option.splits)

text \<open>
  C5. When the policy phase ends with the fingerprint \<open>h\<close> known (at the start
  of an attempt, or after the size request), nothing was written and nothing was
  added to the rollback list so far; the attempt returns the row the
  \<^verbatim>\<open>blob_by_hash\<close> cache holds for \<open>h\<close>, in the same world, and otherwise suspends
  with a hash request; when it is resumed it looks the cache up again and
  returns the row found, in the world it was resumed in; only when both lookups
  miss it goes on to the write paths.
\<close>

theorem dedup_short_circuit:
  "(policy_phase cfg ev p st lc w = (Next, f0, w0) \<and> blob_hash f0 = Some h \<longrightarrow>
      disk w0 = disk w \<and> rollback w0 = rollback w \<and> trace w0 = trace w \<and> db_blobs w0 = db_blobs w
      \<and> attempt_once cfg ev p st lc w =
          (case cache_get w0 h of
             Some b \<Rightarrow> (Return b, f0, w0)
           | None \<Rightarrow> (Yield (HashReq h) At_hash_req, f0, w0)))
   \<and> (policy_phase cfg ev p st lc w = (Yield q l, f1, w1)
        \<and> policy_phase_resume cfg ev p st f1 w2 = (Next, f0, w0) \<and> blob_hash f0 = Some h \<longrightarrow>
      disk w0 = disk w2 \<and> rollback w0 = rollback w2 \<and> trace w0 = trace w2 \<and> db_blobs w0 = db_blobs w2
      \<and> attempt_resume cfg ev p st At_size_req f1 w2 =
          (case cache_get w0 h of
             Some b \<Rightarrow> (Return b, f0, w0)
           | None \<Rightarrow> (Yield (HashReq h) At_hash_req, f0, w0)))
   \<and> (blob_hash f0 = Some h \<longrightarrow>
      attempt_resume cfg ev p st At_hash_req f0 w3 =
          (case cache_get w3 h of
             Some b \<Rightarrow> (Return b, f0, w3)
           | None \<Rightarrow> write_blob cfg ev p st f0 w3))"
proof (intro conjI impI)
  assume a: "policy_phase cfg ev p st lc w = (Next, f0, w0) \<and> blob_hash f0 = Some h"
  then have r: "policy_phase cfg ev p st lc w = (Next, f0, w0)" and h: "blob_hash f0 = Some h"
    by simp_all
  from policy_phase_unchanged[OF r]
  show "disk w0 = disk w" "rollback w0 = rollback w" "trace w0 = trace w" "db_blobs w0 = db_blobs w"
    by simp_all
  show "attempt_once cfg ev p st lc w =
          (case cache_get w0 h of
             Some b \<Rightarrow> (Return b, f0, w0)
           | None \<Rightarrow> (Yield (HashReq h) At_hash_req, f0, w0))"
    using dedup_known_hash[OF h policy_phase_hash_known[OF r h]]
    by (simp add: attempt_once_phases r and_then_def)
next
  assume a: "policy_phase cfg ev p st lc w = (Yield q l, f1, w1)
        \<and> policy_phase_resume cfg ev p st f1 w2 = (Next, f0, w0) \<and> blob_hash f0 = Some h"
  then have y: "policy_phase cfg ev p st lc w = (Yield q l, f1, w1)"
    and r: "policy_phase_resume cfg ev p st f1 w2 = (Next, f0, w0)" and h: "blob_hash f0 = Some h"
    by simp_all
  from policy_phase_resume_unchanged[OF r]
  show "disk w0 = disk w2" "rollback w0 = rollback w2" "trace w0 = trace w2" "db_blobs w0 = db_blobs w2"
    by simp_all
  from policy_phase_yield_locals[OF y] have "policy f1 = None" "blob_hash f1 = None" by simp_all
  from policy_phase_resume_hash_known[OF r this h]
  show "attempt_resume cfg ev p st At_size_req f1 w2 =
          (case cache_get w0 h of
             Some b \<Rightarrow> (Return b, f0, w0)
           | None \<Rightarrow> (Yield (HashReq h) At_hash_req, f0, w0))"
    using dedup_known_hash[OF h]
    by (simp add: attempt_resume_phases r and_then_def)
next
  assume "blob_hash f0 = Some h"
  then show "attempt_resume cfg ev p st At_hash_req f0 w3 =
          (case cache_get w3 h of
             Some b \<Rightarrow> (Return b, f0, w3)
           | None \<Rightarrow> write_blob cfg ev p st f0 w3)"
    by (rule dedup_resume_known_hash)
qed

text \<open>The blob \<open>hi\<close> is in the cache: the attempt for a file with that content
  returns the cached row and leaves the disk and the rollback list empty.\<close>

definition blob_hi :: Blob where
  "blob_hi = \<lparr>hash = ''hi'', compress = ''plain'', raw_size = 2, stored_size = 2\<rparr>"

definition locals_hi :: locals where
  "locals_hi =
     \<lparr>last_chance = False, compress_method = plain, can_copy_on_write = False,
      policy = Some read_all, blob_hash = Some ''hi'', blob_content = Some ''hi'',
      pre_calc_hash = None\<rparr>"

lemma policy_phase_cached_example:
  "policy_phase example_config (static_env [''a.txt'' \<mapsto> regular_file 2 ''hi'']) ''a.txt''
       (st_regular 2 5000) False (empty_world\<lparr>blob_by_hash_cache := [''hi'' \<mapsto> Some blob_hi]\<rparr>)
     = (Next, locals_hi, empty_world\<lparr>clock := 1, blob_by_hash_cache := [''hi'' \<mapsto> Some blob_hi]\<rparr>)"
  by (simp add: policy_phase_defs example_defs locals_hi_def)

theorem dedup_short_circuit_witness:
  "policy_phase example_config (static_env [''a.txt'' \<mapsto> regular_file 2 ''hi'']) ''a.txt''
       (st_regular 2 5000) False (empty_world\<lparr>blob_by_hash_cache := [''hi'' \<mapsto> Some blob_hi]\<rparr>)
     = (Next, locals_hi, empty_world\<lparr>clock := 1, blob_by_hash_cache := [''hi'' \<mapsto> Some blob_hi]\<rparr>)
   \<and> blob_hash locals_hi = Some ''hi''
   \<and> attempt_once example_config (static_env [''a.txt'' \<mapsto> regular_file 2 ''hi'']) ''a.txt''
       (st_regular 2 5000) False (empty_world\<lparr>blob_by_hash_cache := [''hi'' \<mapsto> Some blob_hi]\<rparr>)
     = (Return blob_hi, locals_hi,
        empty_world\<lparr>clock := 1, blob_by_hash_cache := [''hi'' \<mapsto> Some blob_hi]\<rparr>)
   \<and> disk (empty_world\<lparr>clock := 1, blob_by_hash_cache := [''hi'' \<mapsto> Some blob_hi]\<rparr>)
       = disk (empty_world\<lparr>blob_by_hash_cache := [''hi'' \<mapsto> Some blob_hi]\<rparr>)
   \<and> rollback (empty_world\<lparr>clock := 1, blob_by_hash_cache := [''hi'' \<mapsto> Some blob_hi]\<rparr>)
       = rollback (empty_world\<lparr>blob_by_hash_cache := [''hi'' \<mapsto> Some blob_hi]\<rparr>)"
proof -
  let ?wa = "empty_world\<lparr>blob_by_hash_cache := [''hi'' \<mapsto> Some blob_hi]\<rparr>"
  let ?wb = "empty_world\<lparr>clock := 1, blob_by_hash_cache := [''hi'' \<mapsto> Some blob_hi]\<rparr>"
  have h: "blob_hash locals_hi = Some ''hi''" by (simp add: locals_hi_def)
  have cg: "cache_get ?wb ''hi'' = Some blob_hi" by (simp add: cache_get_def)
  from dedup_short_circuit[of example_config "static_env [''a.txt'' \<mapsto> regular_file 2 ''hi'']"
      "''a.txt''" "st_regular 2 5000" False ?wa locals_hi ?wb "''hi''"]
    policy_phase_cached_example h
  have t: "disk ?wb = disk ?wa \<and> rollback ?wb = rollback ?wa
     \<and> attempt_once example_config (static_env [''a.txt'' \<mapsto> regular_file 2 ''hi'']) ''a.txt''
           (st_regular 2 5000) False ?wa
         = (case cache_get ?wb ''hi'' of
              Some b \<Rightarrow> (Return b, locals_hi, ?wb)
            | None \<Rightarrow> (Yield (HashReq ''hi'') At_hash_req, locals_hi, ?wb))"
    by blast
  from t cg policy_phase_cached_example h show ?thesis by simp
qed

section \<open>At most three attempts (C4)\<close>

text \<open>The number of attempts started so far, read off the events.\<close>

fun is_attempt :: "event \<Rightarrow> bool" where
  "is_attempt (EvAttempt p i lc) = True"
| "is_attempt e = False"

definition attempts_in :: "event list \<Rightarrow> nat" where
  "attempts_in t = length (filter is_attempt t)"

lemma attempts_in_simps [simp]:
  "attempts_in [] = 0"
  "attempts_in (EvAttempt p i lc # t) = Suc (attempts_in t)"
  "attempts_in (EvWrite dp # t) = attempts_in t"
  "attempts_in (EvRollbackAdd dp # t) = attempts_in t"
  "attempts_in (EvSizeQuery szs # t) = attempts_in t"
  "attempts_in (EvHashQuery hs # t) = attempts_in t"
  by (simp_all add: attempts_in_def)

lemma commit_blob_attempts:
  "commit_blob f h r s w = (c, f', w') \<Longrightarrow> attempts_in (trace w') = attempts_in (trace w)"
  by (auto simp: commit_blob_def create_blob_def Let_def)

lemma write_copy_hash_attempts:
  "write_copy_hash cfg ev p f w = (c, f', w') \<Longrightarrow> attempts_in (trace w') = attempts_in (trace w)"
  by (auto simp: write_copy_hash_def read_source_def tick_def write_file_def remove_file_def
        log_event_def Let_def split: if_splits option.splits prod.splits)

lemma write_copy_hash_resume_attempts:
  "write_copy_hash_resume cfg p f w = (c, f', w') \<Longrightarrow> attempts_in (trace w') = attempts_in (trace w)"
  by (auto simp: write_copy_hash_resume_def bp_rba_def add_remove_file_rollbacker_def
        write_file_def remove_file_def log_event_def Let_def
        split: if_splits option.splits prod.splits dest!: commit_blob_attempts)

lemma write_hash_once_attempts:
  "write_hash_once cfg ev p st f w = (c, f', w') \<Longrightarrow> attempts_in (trace w') = attempts_in (trace w)"
  by (auto simp: write_hash_once_def bp_rba_def add_remove_file_rollbacker_def read_source_def
        tick_def write_file_def remove_file_def log_event_def Let_def
        split: if_splits option.splits prod.splits dest!: commit_blob_attempts)

lemma write_known_hash_attempts:
  "write_known_hash cfg ev p st f w = (c, f', w') \<Longrightarrow> attempts_in (trace w') = attempts_in (trace w)"
  by (auto simp: write_known_hash_def bp_rba_def add_remove_file_rollbacker_def read_source_def
        tick_def write_file_def log_event_def Let_def
        split: if_splits option.splits prod.splits dest!: commit_blob_attempts)

lemma write_blob_attempts:
  "write_blob cfg ev p st f w = (c, f', w') \<Longrightarrow> attempts_in (trace w') = attempts_in (trace w)"
  by (auto simp: write_blob_def split: if_splits
        dest: write_copy_hash_attempts write_hash_once_attempts write_known_hash_attempts)

lemma attempt_from_dedup_attempts:
  assumes "attempt_from_dedup cfg ev p st f w = (c, f', w')"
  shows "attempts_in (trace w') = attempts_in (trace w)"
proof (rule and_then_cases[OF assms[unfolded attempt_from_dedup_def]])
  assume "dedup_lookup f w = (c, f', w')"
  then show ?thesis by (auto simp: dedup_lookup_def split: option.splits if_splits)
next
  fix f0 w0
  assume "dedup_lookup f w = (Next, f0, w0)" and b: "write_blob cfg ev p st f0 w0 = (c, f', w')"
  then have "w0 = w" by (auto simp: dedup_lookup_def split: option.splits if_splits)
  with write_blob_attempts[OF b] show ?thesis by simp
qed

lemma attempt_once_attempts:
  assumes "attempt_once cfg ev p st lc w = (c, f', w')"
  shows "attempts_in (trace w') = attempts_in (trace w)"
proof (rule and_then_cases[OF assms[unfolded attempt_once_phases]])
  assume "policy_phase cfg ev p st lc w = (c, f', w')"
  from policy_phase_unchanged[OF this] show ?thesis by simp
next
  fix f0 w0
  assume r: "policy_phase cfg ev p st lc w = (Next, f0, w0)"
    and d: "attempt_from_dedup cfg ev p st f0 w0 = (c, f', w')"
  from policy_phase_unchanged[OF r] attempt_from_dedup_attempts[OF d] show ?thesis by simp
qed

lemma attempt_resume_attempts:
  assumes "attempt_resume cfg ev p st l f w = (c, f', w')"
  shows "attempts_in (trace w') = attempts_in (trace w)"
proof (cases l)
  case At_size_req
  show ?thesis
  proof (rule and_then_cases[OF assms[unfolded At_size_req attempt_resume_phases]])
    assume "policy_phase_resume cfg ev p st f w = (c, f', w')"
    from policy_phase_resume_unchanged[OF this] show ?thesis by simp
  next
    fix f0 w0
    assume r: "policy_phase_resume cfg ev p st f w = (Next, f0, w0)"
      and d: "attempt_from_dedup cfg ev p st f0 w0 = (c, f', w')"
    from policy_phase_resume_unchanged[OF r] attempt_from_dedup_attempts[OF d] show ?thesis by simp
  qed
next
  case At_hash_req
  from assms have a: "and_then (dedup_resume f w) (write_blob cfg ev p st) = (c, f', w')"
    by (simp add: attempt_resume_def At_hash_req)
  show ?thesis
  proof (rule and_then_cases[OF a])
    assume "dedup_resume f w = (c, f', w')"
    then show ?thesis by (auto simp: dedup_resume_def split: option.splits)
  next
    fix f0 w0
    assume "dedup_resume f w = (Next, f0, w0)" and b: "write_blob cfg ev p st f0 w0 = (c, f', w')"
    then have "w0 = w" by (auto simp: dedup_resume_def split: option.splits)
    with write_blob_attempts[OF b] show ?thesis by simp
  qed
next
  case At_copy_hash_req
  with assms show ?thesis
    by (auto simp: attempt_resume_def dest: write_copy_hash_resume_attempts)
qed

lemma run_attempt_attempts:
  assumes "run_attempt cfg ev p i st susp w = (c, f, w1)"
  shows "attempts_in (trace w1) = attempts_in (trace w) + (if susp = None then 1 else 0)"
proof (cases susp)
  case None
  with assms have "attempt_once cfg ev p st (i + 1 = BLOB_FILE_CHANGED_RETRY_COUNT)
      (log_event (EvAttempt p i (i + 1 = BLOB_FILE_CHANGED_RETRY_COUNT)) w) = (c, f, w1)"
    by (simp add: run_attempt_def Let_def)
  from attempt_once_attempts[OF this] None show ?thesis by (simp add: log_event_def)
next
  case (Some lf)
  obtain l f0 where "lf = (l, f0)" by (cases lf) auto
  with Some assms have "attempt_resume cfg ev p st l f0 w = (c, f, w1)"
    by (simp add: run_attempt_def Let_def)
  from attempt_resume_attempts[OF this] Some show ?thesis by simp
qed

lemma lstat_trace: "lstat ev p w = (so, w2) \<Longrightarrow> trace w2 = trace w"
  by (auto simp: lstat_def tick_def)

lemma gocb_attempts:
  "get_or_create_blob cfg ev p i st susp w = (r, w') \<Longrightarrow> i < 3 \<or> susp = None \<Longrightarrow> i \<le> 3 \<Longrightarrow>
     attempts_in (trace w') + i + (if susp = None then 0 else 1) \<le> attempts_in (trace w) + 3
     \<and> (\<forall>q i' st' l' f'. r = Yielded q (GocbGen i' st' l' f') \<longrightarrow>
          i' < 3 \<and> attempts_in (trace w') + i + (if susp = None then 0 else 1)
                     = attempts_in (trace w) + i' + 1)"
proof (induction cfg ev p i st susp w rule: get_or_create_blob.induct)
  case (1 cfg ev src_path i st susp w)
  show ?case
  proof (cases "i < 3")
    case False
    with "1.prems" have i3: "i = 3" and sn: "susp = None" by auto
    from "1.prems"(1) show ?thesis unfolding i3 gocb_exhausted using sn by auto
  next
    case True
    hence nb: "\<not> BLOB_FILE_CHANGED_RETRY_COUNT \<le> i" by (simp add: BLOB_FILE_CHANGED_RETRY_COUNT_def)
    obtain c f1 w1 where ra: "run_attempt cfg ev src_path i st susp w = (c, f1, w1)"
      by (cases "run_attempt cfg ev src_path i st susp w") auto
    note at = run_attempt_attempts[OF ra]
    show ?thesis
    proof (cases c)
      case Next
      with "1.prems"(1) True ra at show ?thesis
        by (auto simp: get_or_create_blob.simps[of cfg ev src_path i] BLOB_FILE_CHANGED_RETRY_COUNT_def)
    next
      case (Yield q0 l0)
      from "1.prems"(1) gocb_yielded[OF True ra[unfolded Yield]] True at show ?thesis by auto
    next
      case (Return b)
      from "1.prems"(1) gocb_returned[OF True ra[unfolded Return]] True at show ?thesis by auto
    next
      case (Raise e)
      show ?thesis
      proof (cases "e = BlobFileChanged")
        case False
        from "1.prems"(1) gocb_raise_other[OF True ra[unfolded Raise] False] True at show ?thesis by auto
      next
        case bfc: True
        obtain so w2 where ls: "lstat ev src_path w1 = (so, w2)" by (cases "lstat ev src_path w1") auto
        note tr = lstat_trace[OF ls]
        note unf = gocb_changed[OF True ra[unfolded Raise bfc], unfolded ls]
        show ?thesis
        proof (cases so)
          case None
          with "1.prems"(1) unf True at tr show ?thesis by auto
        next
          case (Some st2)
          with "1.prems"(1) unf
          have rec: "get_or_create_blob cfg ev src_path (i + 1) st2 None w2 = (r, w')" by simp
          have ih: "attempts_in (trace w') + (i + 1) + 0 \<le> attempts_in (trace w2) + 3
              \<and> (\<forall>q i' st' l' f'. r = Yielded q (GocbGen i' st' l' f') \<longrightarrow>
                   i' < 3 \<and> attempts_in (trace w') + (i + 1) + 0 = attempts_in (trace w2) + i' + 1)"
            using "1.IH"[OF nb ra[symmetric] _ _ bfc ls[symmetric] _ rec] Raise Some True
            by simp
          with at tr show ?thesis by (auto split: if_splits)
        qed
      qed
    qed
  qed
qed

text \<open>The attempt of the last iteration is made with \<^verbatim>\<open>last_chance\<close>, takes the
  \<open>copy_hash\<close> policy, and has no path on which \<^verbatim>\<open>_BlobFileChanged\<close> is raised.\<close>

lemma policy_phase_last_chance:
  "policy_phase cfg ev p st True w = (c, f, w') \<Longrightarrow>
     c = Next \<and> policy f = Some copy_hash \<and> blob_hash f = None \<and> last_chance f"
  unfolding policy_phase_defs Let_def
  by (auto split: if_splits option.splits prod.splits)

lemma last_attempt_never_changed:
  "attempt_once cfg ev p st True w \<noteq> (Raise BlobFileChanged, f, w')"
proof
  assume a: "attempt_once cfg ev p st True w = (Raise BlobFileChanged, f, w')"
  show False
  proof (rule and_then_cases[OF a[unfolded attempt_once_phases]])
    assume "policy_phase cfg ev p st True w = (Raise BlobFileChanged, f, w')"
    from policy_phase_last_chance[OF this] show False by simp
  next
    fix f0 w0
    assume r: "policy_phase cfg ev p st True w = (Next, f0, w0)"
      and d: "attempt_from_dedup cfg ev p st f0 w0 = (Raise BlobFileChanged, f, w')"
    from policy_phase_last_chance[OF r] d show False
      by (auto simp: attempt_from_dedup_def dedup_lookup_def and_then_def write_blob_def
            write_copy_hash_def read_source_def Let_def split: option.splits if_splits)
  qed
qed

lemma copy_hash_resume_never_changed:
  "write_copy_hash_resume cfg p f w \<noteq> (Raise BlobFileChanged, f', w')"
  by (auto simp: write_copy_hash_resume_def bp_rba_def Let_def
      split: if_splits option.splits prod.splits dest: commit_blob_ctl)

lemma read_all_never_changed:
  "policy f = Some read_all \<Longrightarrow> write_blob cfg ev p st f w \<noteq> (Raise BlobFileChanged, f', w')"
  by (auto simp: write_blob_def write_known_hash_def bp_rba_def Let_def
      split: option.splits prod.splits dest: commit_blob_ctl)

lemma copy_hash_never_changed:
  "policy f = Some copy_hash \<Longrightarrow> write_blob cfg ev p st f w \<noteq> (Raise BlobFileChanged, f', w')"
  by (auto simp: write_blob_def write_copy_hash_def read_source_def Let_def
      split: if_splits option.splits prod.splits)

text \<open>A generator suspended in the last iteration waits at the request of
  \<open>copy_hash\<close> (line 533), the only \<^verbatim>\<open>yield\<close> the last attempt reaches.\<close>

definition last_waits_at_copy_hash :: "nat \<Rightarrow> (label \<times> locals) option \<Rightarrow> bool" where
  "last_waits_at_copy_hash i susp =
     (case susp of None \<Rightarrow> True | Some (l, f) \<Rightarrow> i = 2 \<longrightarrow> l = At_copy_hash_req)"

lemma last_attempt_yield:
  assumes "attempt_once cfg ev p st True w = (Yield q l, f, w')"
  shows "l = At_copy_hash_req"
proof (rule and_then_cases[OF assms[unfolded attempt_once_phases]])
  assume "policy_phase cfg ev p st True w = (Yield q l, f, w')"
  from policy_phase_last_chance[OF this] show ?thesis by simp
next
  fix f0 w0
  assume r: "policy_phase cfg ev p st True w = (Next, f0, w0)"
    and d: "attempt_from_dedup cfg ev p st f0 w0 = (Yield q l, f, w')"
  from policy_phase_last_chance[OF r] d
  have "write_copy_hash cfg ev p f0 w0 = (Yield q l, f, w')"
    by (auto simp: attempt_from_dedup_def dedup_lookup_def and_then_def write_blob_def)
  then show ?thesis by (rule write_copy_hash_yield)
qed

lemma commit_blob_raise: "commit_blob f h r s w \<noteq> (Raise e, f', w')"
  by (auto simp: commit_blob_def create_blob_def Let_def)

lemma write_blob_not_volatile:
  "write_blob cfg ev p st f w \<noteq> (Raise VolatileBlobFile, f', w')"
  by (auto simp: write_blob_def write_copy_hash_def write_hash_once_def write_known_hash_def
        bp_rba_def read_source_def Let_def commit_blob_raise
      split: if_splits option.splits prod.splits)

lemma write_copy_hash_resume_not_volatile:
  "write_copy_hash_resume cfg p f w \<noteq> (Raise VolatileBlobFile, f', w')"
  by (auto simp: write_copy_hash_resume_def bp_rba_def Let_def commit_blob_raise
      split: if_splits option.splits prod.splits)

lemma policy_phase_not_volatile:
  "policy_phase cfg ev p st lc w \<noteq> (Raise VolatileBlobFile, f', w')"
  unfolding policy_phase_defs Let_def
  by (auto split: if_splits option.splits prod.splits)

lemma policy_phase_resume_not_volatile:
  "policy_phase_resume cfg ev p st f w \<noteq> (Raise VolatileBlobFile, f', w')"
  unfolding policy_phase_defs Let_def
  by (auto split: if_splits option.splits prod.splits)

lemma attempt_from_dedup_not_volatile:
  "attempt_from_dedup cfg ev p st f w \<noteq> (Raise VolatileBlobFile, f', w')"
proof
  assume a: "attempt_from_dedup cfg ev p st f w = (Raise VolatileBlobFile, f', w')"
  show False
  proof (rule and_then_cases[OF a[unfolded attempt_from_dedup_def]])
    assume "dedup_lookup f w = (Raise VolatileBlobFile, f', w')"
    then show False by (auto simp: dedup_lookup_def split: option.splits if_splits)
  next
    fix f0 w0
    assume "write_blob cfg ev p st f0 w0 = (Raise VolatileBlobFile, f', w')"
    then show False by (simp add: write_blob_not_volatile)
  qed
qed

lemma attempt_once_not_volatile:
  "attempt_once cfg ev p st lc w \<noteq> (Raise VolatileBlobFile, f', w')"
proof
  assume a: "attempt_once cfg ev p st lc w = (Raise VolatileBlobFile, f', w')"
  show False
  proof (rule and_then_cases[OF a[unfolded attempt_once_phases]])
    assume "policy_phase cfg ev p st lc w = (Raise VolatileBlobFile, f', w')"
    then show False by (simp add: policy_phase_not_volatile)
  next
    fix f0 w0
    assume "attempt_from_dedup cfg ev p st f0 w0 = (Raise VolatileBlobFile, f', w')"
    then show False by (simp add: attempt_from_dedup_not_volatile)
  qed
qed

lemma attempt_resume_not_volatile:
  "attempt_resume cfg ev p st l f w \<noteq> (Raise VolatileBlobFile, f', w')"
proof
  assume a: "attempt_resume cfg ev p st l f w = (Raise VolatileBlobFile, f', w')"
  show False
  proof (cases l)
    case At_size_req
    show False
    proof (rule and_then_cases[OF a[unfolded At_size_req attempt_resume_phases]])
      assume "policy_phase_resume cfg ev p st f w = (Raise VolatileBlobFile, f', w')"
      then show False by (simp add: policy_phase_resume_not_volatile)
    next
      fix f0 w0
      assume "attempt_from_dedup cfg ev p st f0 w0 = (Raise VolatileBlobFile, f', w')"
      then show False by (simp add: attempt_from_dedup_not_volatile)
    qed
  next
    case At_hash_req
    from a have b: "and_then (dedup_resume f w) (write_blob cfg ev p st) = (Raise VolatileBlobFile, f', w')"
      by (simp add: attempt_resume_def At_hash_req)
    show False
    proof (rule and_then_cases[OF b])
      assume "dedup_resume f w = (Raise VolatileBlobFile, f', w')"
      then show False by (auto simp: dedup_resume_def split: option.splits)
    next
      fix f0 w0
      assume "write_blob cfg ev p st f0 w0 = (Raise VolatileBlobFile, f', w')"
      then show False by (simp add: write_blob_not_volatile)
    qed
  next
    case At_copy_hash_req
    with a show False by (simp add: attempt_resume_def write_copy_hash_resume_not_volatile)
  qed
qed

lemma run_attempt_not_volatile:
  "run_attempt cfg ev p i st susp w \<noteq> (Raise VolatileBlobFile, f', w')"
  by (cases susp)
     (auto simp: run_attempt_def Let_def attempt_once_not_volatile attempt_resume_not_volatile)

lemma last_run_attempt:
  assumes "last_waits_at_copy_hash 2 susp"
  shows "run_attempt cfg ev p 2 st susp w \<noteq> (Raise BlobFileChanged, f', w')"
    and "run_attempt cfg ev p 2 st susp w = (Yield q l, f', w') \<Longrightarrow> l = At_copy_hash_req"
proof -
  show "run_attempt cfg ev p 2 st susp w \<noteq> (Raise BlobFileChanged, f', w')"
  proof (cases susp)
    case None
    then show ?thesis
      by (simp add: run_attempt_def Let_def BLOB_FILE_CHANGED_RETRY_COUNT_def last_attempt_never_changed)
  next
    case (Some lf)
    with assms show ?thesis
      by (cases lf)
         (simp add: run_attempt_def Let_def last_waits_at_copy_hash_def attempt_resume_def
            copy_hash_resume_never_changed)
  qed
  show "run_attempt cfg ev p 2 st susp w = (Yield q l, f', w') \<Longrightarrow> l = At_copy_hash_req"
  proof (cases susp)
    case None
    assume "run_attempt cfg ev p 2 st susp w = (Yield q l, f', w')"
    with None show ?thesis
      by (auto simp: run_attempt_def Let_def BLOB_FILE_CHANGED_RETRY_COUNT_def dest: last_attempt_yield)
  next
    case (Some lf)
    assume "run_attempt cfg ev p 2 st susp w = (Yield q l, f', w')"
    with Some assms show ?thesis
      by (cases lf)
         (simp add: run_attempt_def Let_def last_waits_at_copy_hash_def attempt_resume_def
            write_copy_hash_resume_no_yield)
  qed
qed

lemma gocb_never_volatile:
  "get_or_create_blob cfg ev p i st susp w = (r, w') \<Longrightarrow> i < 3 \<Longrightarrow> last_waits_at_copy_hash i susp \<Longrightarrow>
     r \<noteq> Raised VolatileBlobFile
     \<and> (\<forall>q i' st' l' f'. r = Yielded q (GocbGen i' st' l' f') \<longrightarrow>
          last_waits_at_copy_hash i' (Some (l', f')))"
proof (induction cfg ev p i st susp w rule: get_or_create_blob.induct)
  case (1 cfg ev src_path i st susp w)
  from "1.prems" have i3: "i < 3" and ok: "last_waits_at_copy_hash i susp" by simp_all
  hence nb: "\<not> BLOB_FILE_CHANGED_RETRY_COUNT \<le> i" by (simp add: BLOB_FILE_CHANGED_RETRY_COUNT_def)
  obtain c f1 w1 where ra: "run_attempt cfg ev src_path i st susp w = (c, f1, w1)"
    by (cases "run_attempt cfg ev src_path i st susp w") auto
  show ?case
  proof (cases c)
    case Next
    with "1.prems"(1) i3 ra show ?thesis
      by (auto simp: get_or_create_blob.simps[of cfg ev src_path i] BLOB_FILE_CHANGED_RETRY_COUNT_def)
  next
    case (Yield q0 l0)
    have "i = 2 \<longrightarrow> l0 = At_copy_hash_req"
      using last_run_attempt(2)[of susp cfg ev src_path st w q0 l0 f1 w1] ra ok Yield by auto
    with "1.prems"(1) gocb_yielded[OF i3 ra[unfolded Yield]] show ?thesis
      by (auto simp: last_waits_at_copy_hash_def)
  next
    case (Return b)
    with "1.prems"(1) gocb_returned[OF i3 ra[unfolded Return]] show ?thesis by auto
  next
    case (Raise e)
    show ?thesis
    proof (cases "e = BlobFileChanged")
      case False
      from ra Raise have "e \<noteq> VolatileBlobFile" using run_attempt_not_volatile by auto
      with "1.prems"(1) gocb_raise_other[OF i3 ra[unfolded Raise] False] show ?thesis by auto
    next
      case True
      have i2: "i < 2"
      proof (rule ccontr)
        assume "\<not> i < 2"
        with i3 have "i = 2" by simp
        with ra Raise True ok last_run_attempt(1)[of susp cfg ev src_path st w f1 w1]
        show False by simp
      qed
      obtain so w2 where ls: "lstat ev src_path w1 = (so, w2)" by (cases "lstat ev src_path w1") auto
      note ch = gocb_changed[OF i3 ra[unfolded Raise True]]
      show ?thesis
      proof (cases so)
        case None
        with "1.prems"(1) ch ls show ?thesis by auto
      next
        case (Some st2)
        with "1.prems"(1) ch ls
        have rec: "get_or_create_blob cfg ev src_path (i + 1) st2 None w2 = (r, w')" by simp
        have "i + 1 < 3" using i2 by simp
        moreover have "last_waits_at_copy_hash (i + 1) None" by (simp add: last_waits_at_copy_hash_def)
        ultimately show ?thesis
          using "1.IH"[OF nb ra[symmetric] _ _ _ ls[symmetric] _ rec] Raise True Some
          by simp
      qed
    qed
  qed
qed

text \<open>
  C4, against the claim as stated. The stat of \<open>a.txt\<close> says 2 bytes and the
  file holds the 5 bytes \<open>hello\<close>. The attempt, under \<open>read_all\<close>, reads 5
  bytes; no \<^verbatim>\<open>_BlobFileChanged\<close> is raised: the run makes one attempt and
  commits a blob of raw size 5.
\<close>

theorem size_disagreement_not_raised:
  "st_size (st_regular 2 5000) = 2
   \<and> fst (run example_config (static_env [''a.txt'' \<mapsto> regular_file 2 ''hello''])
            [(''a.txt'', st_regular 2 5000)] empty_world)
       = Inr [session_create_file ''a.txt'' (st_regular 2 5000) None 5
                (Some \<lparr>hash = ''hello'', compress = ''plain'', raw_size = 5, stored_size = 5\<rparr>)]
   \<and> attempts_in (trace (snd (run example_config (static_env [''a.txt'' \<mapsto> regular_file 2 ''hello''])
            [(''a.txt'', st_regular 2 5000)] empty_world))) = 1"
  by (simp add: run_defs example_defs Let_def)

text \<open>
  C4, amended. A call of the retry loop that starts or resumes iteration \<open>i\<close>
  makes at most \<open>3 - i\<close> further attempts, so a blob acquisition makes at most
  three; the attempt of an iteration before the last is made without
  \<^verbatim>\<open>last_chance\<close>, the third with it, and then the policy is \<open>copy_hash\<close>. The
  write path raises \<^verbatim>\<open>_BlobFileChanged\<close> under \<open>hash_once\<close> when the size read
  is not the stat size, and under \<open>default\<close> when the size read is not the stat
  size or the hash read is not the hash computed before; under \<open>read_all\<close> and
  under \<open>copy_hash\<close> it never raises it. When the attempt of iteration \<open>i\<close> raises
  \<^verbatim>\<open>_BlobFileChanged\<close> and the re-stat succeeds, the loop goes on with iteration
  \<open>i + 1\<close> on the new stat, and past the last iteration it raises
  \<^verbatim>\<open>VolatileBlobFile\<close>. The attempt of the last iteration, started or resumed
  at its only request, never raises \<^verbatim>\<open>_BlobFileChanged\<close>; so a blob acquisition
  never raises \<^verbatim>\<open>VolatileBlobFile\<close>.
\<close>

theorem retry_loop_attempts_and_changes:
  "(get_or_create_blob cfg ev p i st susp w = (r, w') \<and> (i < 3 \<or> (i = 3 \<and> susp = None)) \<longrightarrow>
      attempts_in (trace w') + i + (if susp = None then 0 else 1) \<le> attempts_in (trace w) + 3
      \<and> (\<forall>q i' st' l' f'. r = Yielded q (GocbGen i' st' l' f') \<longrightarrow>
           i' < 3 \<and> attempts_in (trace w') + i + (if susp = None then 0 else 1)
                      = attempts_in (trace w) + i' + 1))
   \<and> (i < 3 \<longrightarrow> run_attempt cfg ev p i st None w
        = attempt_once cfg ev p st (i = 2) (log_event (EvAttempt p i (i = 2)) w))
   \<and> (policy_phase cfg ev p st True wa = (c, fa, wa') \<longrightarrow> c = Next \<and> policy fa = Some copy_hash)
   \<and> (policy fb = Some hash_once \<and> blob_hash fb = None \<and> fs_at ev (clock wb) p = Some nd
        \<and> int (length (n_content nd)) \<noteq> st_size st
      \<longrightarrow> fst (write_blob cfg ev p st fb wb) = Raise BlobFileChanged)
   \<and> (policy fb = Some default_policy \<and> blob_hash fb = Some h \<and> fs_at ev (clock wb) p = Some nd
        \<and> (int (length (n_content nd)) \<noteq> st_size st \<or> calc_bytes_hash cfg (n_content nd) \<noteq> h)
      \<longrightarrow> fst (write_blob cfg ev p st fb wb) = Raise BlobFileChanged)
   \<and> (policy fb = Some read_all \<or> policy fb = Some copy_hash
      \<longrightarrow> fst (write_blob cfg ev p st fb wb) \<noteq> Raise BlobFileChanged)
   \<and> fst (write_copy_hash_resume cfg p fb wb) \<noteq> Raise BlobFileChanged
   \<and> (i < 3 \<and> run_attempt cfg ev p i st susp w = (Raise BlobFileChanged, f, w1)
        \<and> lstat ev p w1 = (Some st', w2)
      \<longrightarrow> get_or_create_blob cfg ev p i st susp w
            = get_or_create_blob cfg ev p (i + 1) st' None w2)
   \<and> get_or_create_blob cfg ev p 3 st susp w = (Raised VolatileBlobFile, w)
   \<and> (last_waits_at_copy_hash 2 susp
      \<longrightarrow> fst (run_attempt cfg ev p 2 st susp w) \<noteq> Raise BlobFileChanged)
   \<and> (get_or_create_blob cfg ev p i st susp w = (r, w') \<and> i < 3 \<and> last_waits_at_copy_hash i susp
      \<longrightarrow> r \<noteq> Raised VolatileBlobFile
          \<and> (\<forall>q i' st' l' f'. r = Yielded q (GocbGen i' st' l' f') \<longrightarrow>
                last_waits_at_copy_hash i' (Some (l', f'))))"
proof (intro conjI impI)
  assume a: "get_or_create_blob cfg ev p i st susp w = (r, w') \<and> (i < 3 \<or> (i = 3 \<and> susp = None))"
  then have g: "get_or_create_blob cfg ev p i st susp w = (r, w')"
    and c1: "i < 3 \<or> susp = None" and c2: "i \<le> 3" by auto
  from gocb_attempts[OF g c1 c2]
  show "attempts_in (trace w') + i + (if susp = None then 0 else 1) \<le> attempts_in (trace w) + 3"
    and "\<forall>q i' st' l' f'. r = Yielded q (GocbGen i' st' l' f') \<longrightarrow>
           i' < 3 \<and> attempts_in (trace w') + i + (if susp = None then 0 else 1)
                      = attempts_in (trace w) + i' + 1"
    by simp_all
next
  assume "i < 3"
  then have "(i + 1 = BLOB_FILE_CHANGED_RETRY_COUNT) = (i = 2)"
    by (auto simp: BLOB_FILE_CHANGED_RETRY_COUNT_def)
  then show "run_attempt cfg ev p i st None w
        = attempt_once cfg ev p st (i = 2) (log_event (EvAttempt p i (i = 2)) w)"
    by (simp add: run_attempt_def Let_def)
next
  assume "policy_phase cfg ev p st True wa = (c, fa, wa')"
  from policy_phase_last_chance[OF this] show "c = Next" "policy fa = Some copy_hash" by simp_all
next
  assume "policy fb = Some hash_once \<and> blob_hash fb = None \<and> fs_at ev (clock wb) p = Some nd
        \<and> int (length (n_content nd)) \<noteq> st_size st"
  then show "fst (write_blob cfg ev p st fb wb) = Raise BlobFileChanged"
    by (simp add: write_blob_def write_hash_once_def read_source_def check_changes_def Let_def)
next
  assume "policy fb = Some default_policy \<and> blob_hash fb = Some h \<and> fs_at ev (clock wb) p = Some nd
        \<and> (int (length (n_content nd)) \<noteq> st_size st \<or> calc_bytes_hash cfg (n_content nd) \<noteq> h)"
  then show "fst (write_blob cfg ev p st fb wb) = Raise BlobFileChanged"
    by (auto simp: write_blob_def write_known_hash_def read_source_def check_changes_def Let_def
          bp_rba_def add_remove_file_rollbacker_def log_event_def)
next
  assume a: "policy fb = Some read_all \<or> policy fb = Some copy_hash"
  show "fst (write_blob cfg ev p st fb wb) \<noteq> Raise BlobFileChanged"
  proof
    assume b: "fst (write_blob cfg ev p st fb wb) = Raise BlobFileChanged"
    obtain f' w' where "write_blob cfg ev p st fb wb = (Raise BlobFileChanged, f', w')"
      using b by (cases "write_blob cfg ev p st fb wb") auto
    with a read_all_never_changed copy_hash_never_changed show False by blast
  qed
next
  show "fst (write_copy_hash_resume cfg p fb wb) \<noteq> Raise BlobFileChanged"
  proof
    assume b: "fst (write_copy_hash_resume cfg p fb wb) = Raise BlobFileChanged"
    obtain f' w' where "write_copy_hash_resume cfg p fb wb = (Raise BlobFileChanged, f', w')"
      using b by (cases "write_copy_hash_resume cfg p fb wb") auto
    with copy_hash_resume_never_changed show False by blast
  qed
next
  assume a: "i < 3 \<and> run_attempt cfg ev p i st susp w = (Raise BlobFileChanged, f, w1)
        \<and> lstat ev p w1 = (Some st', w2)"
  then have i3: "i < 3" and ra: "run_attempt cfg ev p i st susp w = (Raise BlobFileChanged, f, w1)"
    and ls: "lstat ev p w1 = (Some st', w2)" by simp_all
  show "get_or_create_blob cfg ev p i st susp w = get_or_create_blob cfg ev p (i + 1) st' None w2"
    using gocb_changed[OF i3 ra] ls by simp
next
  show "get_or_create_blob cfg ev p 3 st susp w = (Raised VolatileBlobFile, w)"
    by (rule gocb_exhausted)
next
  assume a: "last_waits_at_copy_hash 2 susp"
  show "fst (run_attempt cfg ev p 2 st susp w) \<noteq> Raise BlobFileChanged"
  proof
    assume b: "fst (run_attempt cfg ev p 2 st susp w) = Raise BlobFileChanged"
    obtain f' w' where "run_attempt cfg ev p 2 st susp w = (Raise BlobFileChanged, f', w')"
      using b by (cases "run_attempt cfg ev p 2 st susp w") auto
    with last_run_attempt(1)[OF a] show False by blast
  qed
next
  assume a: "get_or_create_blob cfg ev p i st susp w = (r, w') \<and> i < 3 \<and> last_waits_at_copy_hash i susp"
  then have g: "get_or_create_blob cfg ev p i st susp w = (r, w')" and i3: "i < 3"
    and ok: "last_waits_at_copy_hash i susp" by simp_all
  from gocb_never_volatile[OF g i3 ok]
  show "r \<noteq> Raised VolatileBlobFile"
    and "\<forall>q i' st' l' f'. r = Yielded q (GocbGen i' st' l' f') \<longrightarrow>
                last_waits_at_copy_hash i' (Some (l', f'))"
    by simp_all
qed

text \<open>The file \<open>a.txt\<close> has the stat size 9000 and the content \<open>hi\<close>. The first
  attempt, resumed after its hash request, writes under \<open>default\<close>, finds two
  bytes and raises \<^verbatim>\<open>_BlobFileChanged\<close>; the loop re-stats and starts the second
  attempt, which does not raise \<^verbatim>\<open>VolatileBlobFile\<close>.\<close>

definition locals_default_hi :: locals where
  "locals_default_hi =
     \<lparr>last_chance = False, compress_method = plain, can_copy_on_write = False,
      policy = Some default_policy, blob_hash = Some ''hi'', blob_content = None,
      pre_calc_hash = None\<rparr>"

definition world_after_failed_write :: world where
  "world_after_failed_write =
     empty_world\<lparr>clock := 1, disk := [BlobPath ''hi'' \<mapsto> ''hi''], rollback := [BlobPath ''hi''],
       trace := [EvWrite (BlobPath ''hi''), EvRollbackAdd (BlobPath ''hi'')]\<rparr>"

lemma run_attempt_changed_example:
  "run_attempt example_config (static_env [''a.txt'' \<mapsto> regular_file 9000 ''hi'']) ''a.txt'' 0
       (st_regular 9000 5000) (Some (At_hash_req, locals_default_hi)) empty_world
     = (Raise BlobFileChanged, locals_default_hi, world_after_failed_write)"
  by (simp add: run_attempt_def attempt_write_defs example_defs locals_default_hi_def
        world_after_failed_write_def Let_def)

lemma lstat_example:
  "lstat (static_env [''a.txt'' \<mapsto> regular_file 9000 ''hi'']) ''a.txt'' world_after_failed_write
     = (Some (st_regular 9000 5000), world_after_failed_write\<lparr>clock := 2\<rparr>)"
  by (simp add: lstat_def tick_def example_defs world_after_failed_write_def)

theorem retry_loop_attempts_and_changes_witness:
  "run_attempt example_config (static_env [''a.txt'' \<mapsto> regular_file 9000 ''hi'']) ''a.txt'' 0
       (st_regular 9000 5000) (Some (At_hash_req, locals_default_hi)) empty_world
     = (Raise BlobFileChanged, locals_default_hi, world_after_failed_write)
   \<and> lstat (static_env [''a.txt'' \<mapsto> regular_file 9000 ''hi'']) ''a.txt'' world_after_failed_write
       = (Some (st_regular 9000 5000), world_after_failed_write\<lparr>clock := 2\<rparr>)
   \<and> get_or_create_blob example_config (static_env [''a.txt'' \<mapsto> regular_file 9000 ''hi''])
         ''a.txt'' 0 (st_regular 9000 5000) (Some (At_hash_req, locals_default_hi)) empty_world
       = get_or_create_blob example_config (static_env [''a.txt'' \<mapsto> regular_file 9000 ''hi''])
           ''a.txt'' 1 (st_regular 9000 5000) None (world_after_failed_write\<lparr>clock := 2\<rparr>)
   \<and> last_waits_at_copy_hash 0 (Some (At_hash_req, locals_default_hi))
   \<and> fst (get_or_create_blob example_config (static_env [''a.txt'' \<mapsto> regular_file 9000 ''hi''])
         ''a.txt'' 0 (st_regular 9000 5000) (Some (At_hash_req, locals_default_hi)) empty_world)
       \<noteq> Raised VolatileBlobFile"
proof -
  let ?ev = "static_env [''a.txt'' \<mapsto> regular_file 9000 ''hi'']"
  let ?g = "get_or_create_blob example_config ?ev ''a.txt'' 0 (st_regular 9000 5000)
              (Some (At_hash_req, locals_default_hi)) empty_world"
  have i: "(0::nat) < 3" by simp
  have ok: "last_waits_at_copy_hash 0 (Some (At_hash_req, locals_default_hi))"
    by (simp add: last_waits_at_copy_hash_def)
  have gg: "?g = (fst ?g, snd ?g)" by simp
  note t = retry_loop_attempts_and_changes[where cfg = example_config and ev = ?ev
      and p = "''a.txt''" and i = 0 and st = "st_regular 9000 5000"
      and susp = "Some (At_hash_req, locals_default_hi)" and w = empty_world
      and r = "fst ?g" and w' = "snd ?g" and f = locals_default_hi
      and ?w1.0 = world_after_failed_write and st' = "st_regular 9000 5000"
      and ?w2.0 = "world_after_failed_write\<lparr>clock := 2\<rparr>"]
  from t i run_attempt_changed_example lstat_example
  have a: "?g = get_or_create_blob example_config ?ev ''a.txt'' (0 + 1) (st_regular 9000 5000) None
                  (world_after_failed_write\<lparr>clock := 2\<rparr>)"
    by blast
  from t i ok gg have b: "fst ?g \<noteq> Raised VolatileBlobFile" by blast
  from a b ok run_attempt_changed_example lstat_example show ?thesis by simp
qed

section \<open>A failed re-stat is not skipped (C10)\<close>

lemma fold_remove_file:
  "rollback (fold remove_file dps w) = rollback w
   \<and> disk (fold remove_file dps w) dp = (if dp \<in> set dps then None else disk w dp)"
  by (induction dps arbitrary: w) (auto simp: remove_file_def)

lemma apply_blob_rollback_disk:
  "disk (apply_blob_rollback w) dp = (if dp \<in> set (rollback w) then None else disk w dp)"
  by (simp add: apply_blob_rollback_def fold_remove_file)

lemma apply_blob_rollback_rollback: "rollback (apply_blob_rollback w) = rollback w"
  by (simp add: apply_blob_rollback_def fold_remove_file)

lemma loop_body_not_found:
  assumes "schedule_queue s = (g, v) # q"
    and "create_file_send cfg ev g v w = (Raised (FileNotFoundError x), w1)"
  shows "loop_body cfg ev (s, w) = (Some (FileNotFoundError x), s\<lparr>schedule_queue := q\<rparr>, w1)"
  using assms by (simp add: loop_body_def)

lemma create_files_loop_raise:
  assumes "schedule_queue (fst x) \<noteq> []" and "loop_body cfg ev x = (Some e, x')"
  shows "create_files_loop cfg ev x = (Some e, x')"
  using assms by (simp add: create_files_loop.simps[of cfg ev x])

lemma create_files_loop_continue:
  assumes "schedule_queue (fst x) \<noteq> []" and "loop_body cfg ev x = (None, x')"
  shows "create_files_loop cfg ev x = create_files_loop cfg ev x'"
  using assms by (simp add: create_files_loop.simps[of cfg ev x])

lemma create_files_loop_done:
  assumes "schedule_queue (fst x) = []"
  shows "create_files_loop cfg ev x = (None, x)"
  using assms by (simp add: create_files_loop.simps[of cfg ev x])

lemma run_raises:
  assumes "create_backup cfg ev all_files (initial_state ev w) = (Inl e, w')"
  shows "run cfg ev all_files w = (Inl e, apply_blob_rollback w')"
  using assms by (simp add: run_def)

text \<open>
  C10. When an attempt raises \<^verbatim>\<open>_BlobFileChanged\<close> and the source is gone at the
  re-stat, \<^verbatim>\<open>__get_or_create_blob\<close> raises a plain \<^verbatim>\<open>FileNotFoundError\<close>, which
  \<^verbatim>\<open>__create_file\<close> passes on; the coordinator loop, whatever the skip-missing
  configuration says, ends with that exception in the iteration where it
  arrives (an iteration that does not raise hands over to the next one);
  \<^verbatim>\<open>__create_backup\<close> raises it, and \<^verbatim>\<open>run\<close> applies the blob rollback, after
  which no path of the rollback list is on disk, and raises it again.
\<close>

theorem restat_not_found_propagates:
  "(i < 3 \<and> run_attempt cfg ev p i st susp w = (Raise BlobFileChanged, f, w1)
      \<and> fs_at ev (clock w1) p = None \<longrightarrow>
      get_or_create_blob cfg ev p i st susp w = (Raised (FileNotFoundError p), tick w1)
      \<and> forward_blob cfg p (get_or_create_blob cfg ev p i st susp w)
          = (Raised (FileNotFoundError p), tick w1))
   \<and> (schedule_queue s = (g, v) # q
        \<and> create_file_send cfg ev g v wa = (Raised (FileNotFoundError x), wb) \<longrightarrow>
      create_files_loop cfg ev (s, wa) = (Some (FileNotFoundError x), s\<lparr>schedule_queue := q\<rparr>, wb))
   \<and> (schedule_queue (fst xa) \<noteq> [] \<and> loop_body cfg ev xa = (None, xb) \<longrightarrow>
      create_files_loop cfg ev xa = create_files_loop cfg ev xb)
   \<and> (prepare cfg ev all_files w0 = (None, wc)
        \<and> create_files_loop cfg ev
             (s0\<lparr>schedule_queue := schedule_queue s0 @ map (\<lambda>(p, st). (CF_start p, None)) all_files\<rparr>, wc)
            = (Some e, sd, wd) \<longrightarrow>
      create_backup cfg ev all_files (s0, w0) = (Inl e, wd))
   \<and> (create_backup cfg ev all_files (initial_state ev w5) = (Inl e, w6) \<longrightarrow>
      run cfg ev all_files w5 = (Inl e, apply_blob_rollback w6)
      \<and> (\<forall>dp \<in> set (rollback w6). disk (apply_blob_rollback w6) dp = None))"
proof (intro conjI impI)
  assume a: "i < 3 \<and> run_attempt cfg ev p i st susp w = (Raise BlobFileChanged, f, w1)
      \<and> fs_at ev (clock w1) p = None"
  then have "lstat ev p w1 = (None, tick w1)" by (simp add: lstat_def)
  with a gocb_changed[of i cfg ev p st susp w f w1]
  show g: "get_or_create_blob cfg ev p i st susp w = (Raised (FileNotFoundError p), tick w1)"
    by simp
  show "forward_blob cfg p (get_or_create_blob cfg ev p i st susp w)
          = (Raised (FileNotFoundError p), tick w1)"
    by (simp add: g forward_blob_def)
next
  assume a: "schedule_queue s = (g, v) # q
        \<and> create_file_send cfg ev g v wa = (Raised (FileNotFoundError x), wb)"
  then have "loop_body cfg ev (s, wa) = (Some (FileNotFoundError x), s\<lparr>schedule_queue := q\<rparr>, wb)"
    by (simp add: loop_body_not_found)
  moreover from a have "schedule_queue (fst (s, wa)) \<noteq> []" by simp
  ultimately show "create_files_loop cfg ev (s, wa)
      = (Some (FileNotFoundError x), s\<lparr>schedule_queue := q\<rparr>, wb)"
    by (rule create_files_loop_raise[rotated])
next
  assume "schedule_queue (fst xa) \<noteq> [] \<and> loop_body cfg ev xa = (None, xb)"
  then show "create_files_loop cfg ev xa = create_files_loop cfg ev xb"
    by (simp add: create_files_loop_continue)
next
  assume "prepare cfg ev all_files w0 = (None, wc)
        \<and> create_files_loop cfg ev
             (s0\<lparr>schedule_queue := schedule_queue s0 @ map (\<lambda>(p, st). (CF_start p, None)) all_files\<rparr>, wc)
            = (Some e, sd, wd)"
  then show "create_backup cfg ev all_files (s0, w0) = (Inl e, wd)"
    by (simp add: create_backup_def)
next
  assume a: "create_backup cfg ev all_files (initial_state ev w5) = (Inl e, w6)"
  then show "run cfg ev all_files w5 = (Inl e, apply_blob_rollback w6)"
    by (rule run_raises)
  show "\<forall>dp \<in> set (rollback w6). disk (apply_blob_rollback w6) dp = None"
    by (simp add: apply_blob_rollback_disk)
qed

text \<open>
  The file \<open>a.txt\<close> changes while it is ingested and is deleted before the
  re-stat, with a configuration that skips every missing file. The backup
  fails with \<^verbatim>\<open>FileNotFoundError\<close>, and the blob file written by the failed
  attempt is removed.
\<close>

lemma create_backup_vanished_example:
  "fst (create_backup example_config (vanishing_env 7 [''a.txt'' \<mapsto> regular_file 9000 ''hi''])
          [(''a.txt'', st_regular 9000 5000)]
          (initial_state (vanishing_env 7 [''a.txt'' \<mapsto> regular_file 9000 ''hi'']) empty_world))
     = Inl (FileNotFoundError ''a.txt'')
   \<and> rollback (snd (create_backup example_config
          (vanishing_env 7 [''a.txt'' \<mapsto> regular_file 9000 ''hi''])
          [(''a.txt'', st_regular 9000 5000)]
          (initial_state (vanishing_env 7 [''a.txt'' \<mapsto> regular_file 9000 ''hi'']) empty_world)))
     = [BlobPath ''hi'']
   \<and> disk (snd (create_backup example_config
          (vanishing_env 7 [''a.txt'' \<mapsto> regular_file 9000 ''hi''])
          [(''a.txt'', st_regular 9000 5000)]
          (initial_state (vanishing_env 7 [''a.txt'' \<mapsto> regular_file 9000 ''hi'']) empty_world)))
       (BlobPath ''hi'')
     = Some ''hi''"
  by (simp add: run_defs example_defs Let_def)

theorem restat_not_found_propagates_witness:
  "should_skip_missing_source_file example_config ''a.txt''
   \<and> fst (run example_config (vanishing_env 7 [''a.txt'' \<mapsto> regular_file 9000 ''hi''])
            [(''a.txt'', st_regular 9000 5000)] empty_world)
       = Inl (FileNotFoundError ''a.txt'')
   \<and> disk (snd (run example_config (vanishing_env 7 [''a.txt'' \<mapsto> regular_file 9000 ''hi''])
            [(''a.txt'', st_regular 9000 5000)] empty_world)) (BlobPath ''hi'')
       = None"
proof -
  let ?ev = "vanishing_env 7 [''a.txt'' \<mapsto> regular_file 9000 ''hi'']"
  let ?cb = "create_backup example_config ?ev [(''a.txt'', st_regular 9000 5000)]
               (initial_state ?ev empty_world)"
  have cb: "?cb = (Inl (FileNotFoundError ''a.txt''), snd ?cb)"
    using create_backup_vanished_example by (metis prod.collapse)
  have rb: "BlobPath ''hi'' \<in> set (rollback (snd ?cb))"
    using create_backup_vanished_example by simp
  note t = restat_not_found_propagates[where cfg = example_config and ev = ?ev
      and all_files = "[(''a.txt'', st_regular 9000 5000)]" and ?w5.0 = empty_world
      and e = "FileNotFoundError ''a.txt''" and ?w6.0 = "snd ?cb",
      THEN conjunct2, THEN conjunct2, THEN conjunct2, THEN conjunct2, THEN mp, OF cb]
  from t rb have "run example_config ?ev [(''a.txt'', st_regular 9000 5000)] empty_world
          = (Inl (FileNotFoundError ''a.txt''), apply_blob_rollback (snd ?cb))"
    and "disk (apply_blob_rollback (snd ?cb)) (BlobPath ''hi'') = None"
    by blast+
  moreover have "should_skip_missing_source_file example_config ''a.txt''"
    by (simp add: should_skip_missing_source_file_def example_config_def)
  ultimately show ?thesis by simp
qed

section \<open>When a fetcher queries the catalog (C7)\<close>

lemma size_batch_run_effect:
  assumes "size_batch_run (s, w) = (s', w')"
  shows "trace w' = EvSizeQuery (keys (fetcher_size s)) # trace w
       \<and> tasks (fetcher_size s') = [] \<and> keys (fetcher_size s') = {}"
  using assms by (auto simp: size_batch_run_def Let_def fold_callback log_event_def)

lemma hash_batch_run_effect:
  assumes "hash_batch_run (s, w) = (s', w')"
  shows "trace w' = EvHashQuery (keys (fetcher_hash s)) # trace w
       \<and> tasks (fetcher_hash s') = [] \<and> keys (fetcher_hash s') = {}"
  using assms by (auto simp: hash_batch_run_def Let_def fold_callback log_event_def)

lemma flush_if_needed_cases:
  "flush_if_needed ev fetcher batch_run (s, w) =
     (if flush_needed (fetcher s) (time_at ev (clock w))
      then batch_run (s, if int (length (tasks (fetcher s))) \<ge> max_batch_size (fetcher s) then w else tick w)
      else (s, if tasks (fetcher s) = [] then w else tick w))"
  by (auto simp: flush_if_needed_def flush_needed_def time_now_def)

lemma size_flush_if_needed_effect:
  assumes "flush_if_needed ev fetcher_size size_batch_run (s, w) = (s', w')"
  shows "if flush_needed (fetcher_size s) (time_at ev (clock w))
         then trace w' = EvSizeQuery (keys (fetcher_size s)) # trace w
                \<and> tasks (fetcher_size s') = [] \<and> keys (fetcher_size s') = {}
         else trace w' = trace w \<and> s' = s"
proof (cases "flush_needed (fetcher_size s) (time_at ev (clock w))")
  case True
  with assms obtain w0 where "size_batch_run (s, w0) = (s', w')" and "trace w0 = trace w"
    by (auto simp: flush_if_needed_cases tick_def split: if_splits)
  with size_batch_run_effect[of s w0 s' w'] True show ?thesis by simp
next
  case False
  with assms show ?thesis by (auto simp: flush_if_needed_cases tick_def split: if_splits)
qed

lemma hash_flush_if_needed_effect:
  assumes "flush_if_needed ev fetcher_hash hash_batch_run (s, w) = (s', w')"
  shows "if flush_needed (fetcher_hash s) (time_at ev (clock w))
         then trace w' = EvHashQuery (keys (fetcher_hash s)) # trace w
                \<and> tasks (fetcher_hash s') = [] \<and> keys (fetcher_hash s') = {}
         else trace w' = trace w \<and> s' = s"
proof (cases "flush_needed (fetcher_hash s) (time_at ev (clock w))")
  case True
  with assms obtain w0 where "hash_batch_run (s, w0) = (s', w')" and "trace w0 = trace w"
    by (auto simp: flush_if_needed_cases tick_def split: if_splits)
  with hash_batch_run_effect[of s w0 s' w'] True show ?thesis by simp
next
  case False
  with assms show ?thesis by (auto simp: flush_if_needed_cases tick_def split: if_splits)
qed

lemma size_flush_effect:
  assumes "flush fetcher_size size_batch_run (s, w) = (s', w')"
  shows "if tasks (fetcher_size s) \<noteq> []
         then trace w' = EvSizeQuery (keys (fetcher_size s)) # trace w
                \<and> tasks (fetcher_size s') = [] \<and> keys (fetcher_size s') = {}
         else s' = s \<and> w' = w"
  using assms size_batch_run_effect[of s w s' w'] by (auto simp: flush_def split: if_splits)

lemma hash_flush_effect:
  assumes "flush fetcher_hash hash_batch_run (s, w) = (s', w')"
  shows "if tasks (fetcher_hash s) \<noteq> []
         then trace w' = EvHashQuery (keys (fetcher_hash s)) # trace w
                \<and> tasks (fetcher_hash s') = [] \<and> keys (fetcher_hash s') = {}
         else s' = s \<and> w' = w"
  using assms hash_batch_run_effect[of s w s' w'] by (auto simp: flush_def split: if_splits)

lemma size_batch_run_other:
  "size_batch_run (s, w) = (s', w') \<Longrightarrow> fetcher_hash s' = fetcher_hash s"
  by (auto simp: size_batch_run_def Let_def fold_callback)

lemma hash_batch_run_other:
  "hash_batch_run (s, w) = (s', w') \<Longrightarrow> fetcher_size s' = fetcher_size s"
  by (auto simp: hash_batch_run_def Let_def fold_callback)

lemma size_flush_other:
  "flush fetcher_size size_batch_run (s, w) = (s', w') \<Longrightarrow> fetcher_hash s' = fetcher_hash s"
  by (auto simp: flush_def split: if_splits dest: size_batch_run_other)

lemma hash_flush_other:
  "flush fetcher_hash hash_batch_run (s, w) = (s', w') \<Longrightarrow> fetcher_size s' = fetcher_size s"
  by (auto simp: flush_def split: if_splits dest: hash_batch_run_other)

lemma size_flush_if_needed_other:
  "flush_if_needed ev fetcher_size size_batch_run (s, w) = (s', w') \<Longrightarrow> fetcher_hash s' = fetcher_hash s"
  by (auto simp: flush_if_needed_def time_now_def split: if_splits dest: size_batch_run_other)

lemma hash_flush_if_needed_other:
  "flush_if_needed ev fetcher_hash hash_batch_run (s, w) = (s', w') \<Longrightarrow> fetcher_size s' = fetcher_size s"
  by (auto simp: flush_if_needed_def time_now_def split: if_splits dest: hash_batch_run_other)

lemma bqm_flush_effect:
  assumes "bqm_flush (s, w) = (s', w')"
  shows "trace w' = (if tasks (fetcher_hash s) \<noteq> [] then [EvHashQuery (keys (fetcher_hash s))] else [])
                   @ (if tasks (fetcher_size s) \<noteq> [] then [EvSizeQuery (keys (fetcher_size s))] else [])
                   @ trace w
       \<and> tasks (fetcher_size s') = [] \<and> tasks (fetcher_hash s') = []
       \<and> (tasks (fetcher_size s) \<noteq> [] \<longrightarrow> keys (fetcher_size s') = {})
       \<and> (tasks (fetcher_hash s) \<noteq> [] \<longrightarrow> keys (fetcher_hash s') = {})"
proof -
  obtain s1 w1 where a: "flush fetcher_size size_batch_run (s, w) = (s1, w1)"
    by (cases "flush fetcher_size size_batch_run (s, w)") auto
  with assms have b: "flush fetcher_hash hash_batch_run (s1, w1) = (s', w')"
    by (simp add: bqm_flush_def)
  note ea = size_flush_effect[OF a] and oa = size_flush_other[OF a]
  note eb = hash_flush_effect[OF b] and ob = hash_flush_other[OF b]
  have t1: "trace w1 = (if tasks (fetcher_size s) \<noteq> [] then [EvSizeQuery (keys (fetcher_size s))] else [])
                   @ trace w" and k1: "tasks (fetcher_size s1) = []"
    and c1: "tasks (fetcher_size s) \<noteq> [] \<longrightarrow> keys (fetcher_size s1) = {}"
    using ea by (auto split: if_splits)
  have t2: "trace w' = (if tasks (fetcher_hash s1) \<noteq> [] then [EvHashQuery (keys (fetcher_hash s1))] else [])
                   @ trace w1" and k2: "tasks (fetcher_hash s') = []"
    and c2: "tasks (fetcher_hash s1) \<noteq> [] \<longrightarrow> keys (fetcher_hash s') = {}"
    using eb by (auto split: if_splits)
  from t1 t2 k1 k2 c1 c2 oa ob show ?thesis by simp
qed

lemma bqm_flush_if_needed_effect:
  assumes "bqm_flush_if_needed ev (s, w) = (s', w')"
  shows "trace w' =
           (if flush_needed (fetcher_hash s)
                 (time_at ev (clock (snd (flush_if_needed ev fetcher_size size_batch_run (s, w)))))
            then [EvHashQuery (keys (fetcher_hash s))] else [])
           @ (if flush_needed (fetcher_size s) (time_at ev (clock w))
              then [EvSizeQuery (keys (fetcher_size s))] else [])
           @ trace w
       \<and> (if flush_needed (fetcher_size s) (time_at ev (clock w))
          then tasks (fetcher_size s') = [] \<and> keys (fetcher_size s') = {}
          else fetcher_size s' = fetcher_size s)
       \<and> (if flush_needed (fetcher_hash s)
                 (time_at ev (clock (snd (flush_if_needed ev fetcher_size size_batch_run (s, w)))))
          then tasks (fetcher_hash s') = [] \<and> keys (fetcher_hash s') = {}
          else fetcher_hash s' = fetcher_hash s)"
proof -
  obtain s1 w1 where a: "flush_if_needed ev fetcher_size size_batch_run (s, w) = (s1, w1)"
    by (cases "flush_if_needed ev fetcher_size size_batch_run (s, w)") auto
  with assms have b: "flush_if_needed ev fetcher_hash hash_batch_run (s1, w1) = (s', w')"
    by (simp add: bqm_flush_if_needed_def)
  note ea = size_flush_if_needed_effect[OF a] and oa = size_flush_if_needed_other[OF a]
  note eb = hash_flush_if_needed_effect[OF b] and ob = hash_flush_if_needed_other[OF b]
  have t1: "trace w1 = (if flush_needed (fetcher_size s) (time_at ev (clock w))
              then [EvSizeQuery (keys (fetcher_size s))] else []) @ trace w"
    and k1: "if flush_needed (fetcher_size s) (time_at ev (clock w))
          then tasks (fetcher_size s1) = [] \<and> keys (fetcher_size s1) = {}
          else fetcher_size s1 = fetcher_size s"
    using ea by (auto split: if_splits)
  have t2: "trace w' = (if flush_needed (fetcher_hash s1) (time_at ev (clock w1))
              then [EvHashQuery (keys (fetcher_hash s1))] else []) @ trace w1"
    and k2: "if flush_needed (fetcher_hash s1) (time_at ev (clock w1))
          then tasks (fetcher_hash s') = [] \<and> keys (fetcher_hash s') = {}
          else fetcher_hash s' = fetcher_hash s1"
    using eb by (auto split: if_splits)
  from t1 t2 k1 k2 oa ob show ?thesis by (simp add: a)
qed

lemma size_query_pending:
  assumes "size_query ev sz g (s, w) = (s', w')" and "tasks (fetcher_size s') \<noteq> []"
  shows "tasks (fetcher_size s') = tasks (fetcher_size s) @ [(sz, g)]
       \<and> first_task_scheduled_time (fetcher_size s')
           = (if tasks (fetcher_size s) = [] then time_at ev (clock w)
              else first_task_scheduled_time (fetcher_size s))"
proof -
  let ?fs1 = "(fetcher_size s)\<lparr>tasks := tasks (fetcher_size s) @ [(sz, g)],
                 keys := insert sz (keys (fetcher_size s))\<rparr>"
  let ?fs2 = "if length (tasks ?fs1) = 1 then ?fs1\<lparr>first_task_scheduled_time := time_at ev (clock w)\<rparr>
              else ?fs1"
  from assms(1) have e: "flush_if_needed ev fetcher_size size_batch_run (s\<lparr>fetcher_size := ?fs2\<rparr>, tick w) = (s', w')"
    by (simp add: size_query_def Let_def time_now_def)
  from size_flush_if_needed_effect[OF e] assms(2)
  have "s' = s\<lparr>fetcher_size := ?fs2\<rparr>" by (auto split: if_splits)
  then show ?thesis by (cases "tasks (fetcher_size s)") auto
qed

lemma hash_query_pending:
  assumes "hash_query ev h g (s, w) = (s', w')" and "tasks (fetcher_hash s') \<noteq> []"
  shows "tasks (fetcher_hash s') = tasks (fetcher_hash s) @ [(h, g)]
       \<and> first_task_scheduled_time (fetcher_hash s')
           = (if tasks (fetcher_hash s) = [] then time_at ev (clock w)
              else first_task_scheduled_time (fetcher_hash s))"
proof -
  let ?fh1 = "(fetcher_hash s)\<lparr>tasks := tasks (fetcher_hash s) @ [(h, g)],
                 keys := insert h (keys (fetcher_hash s))\<rparr>"
  let ?fh2 = "if length (tasks ?fh1) = 1 then ?fh1\<lparr>first_task_scheduled_time := time_at ev (clock w)\<rparr>
              else ?fh1"
  from assms(1) have e: "flush_if_needed ev fetcher_hash hash_batch_run (s\<lparr>fetcher_hash := ?fh2\<rparr>, tick w) = (s', w')"
    by (simp add: hash_query_def Let_def time_now_def)
  from hash_flush_if_needed_effect[OF e] assms(2)
  have "s' = s\<lparr>fetcher_hash := ?fh2\<rparr>" by (auto split: if_splits)
  then show ?thesis by (cases "tasks (fetcher_hash s)") auto
qed

text \<open>
  C7. \<^verbatim>\<open>flush_if_needed\<close> of a fetcher issues the batched query (one query event
  with the key set) exactly when the fetcher has a pending task and its pending
  count is at least \<open>max_batch_size\<close> or the clock is at least 0.1 s past
  \<open>first_task_scheduled_time\<close>; \<^verbatim>\<open>flush\<close> issues it exactly when there is a
  pending task. The manager's \<^verbatim>\<open>flush_if_needed\<close> and \<^verbatim>\<open>flush\<close> reach both
  fetchers, the size fetcher first: the events they add are the query of the
  size fetcher and then that of the hash fetcher, each exactly under the
  condition of its fetcher, and after the manager's \<^verbatim>\<open>flush\<close> no task is pending
  in either. The coordinator calls the manager's \<^verbatim>\<open>flush\<close> at the end of an
  iteration exactly when its queue is empty, and then no task stays pending.
  After a query the task list and the key set of the fetcher are empty;
  otherwise nothing is queried and the fetcher is unchanged.
  \<open>first_task_scheduled_time\<close> is the time at which the first task of the pending
  batch was queued, and a run makes both fetchers with \<open>max_batch_size = 100\<close>.
\<close>

theorem batch_query_issued_exactly_when:
  "(flush_if_needed ev fetcher_size size_batch_run (s, w) = (s', w') \<longrightarrow>
      (if flush_needed (fetcher_size s) (time_at ev (clock w))
       then trace w' = EvSizeQuery (keys (fetcher_size s)) # trace w
              \<and> tasks (fetcher_size s') = [] \<and> keys (fetcher_size s') = {}
       else trace w' = trace w \<and> s' = s))
   \<and> (flush_if_needed ev fetcher_hash hash_batch_run (s, w) = (s', w') \<longrightarrow>
      (if flush_needed (fetcher_hash s) (time_at ev (clock w))
       then trace w' = EvHashQuery (keys (fetcher_hash s)) # trace w
              \<and> tasks (fetcher_hash s') = [] \<and> keys (fetcher_hash s') = {}
       else trace w' = trace w \<and> s' = s))
   \<and> (flush fetcher_size size_batch_run (s, w) = (s', w') \<longrightarrow>
      (if tasks (fetcher_size s) \<noteq> []
       then trace w' = EvSizeQuery (keys (fetcher_size s)) # trace w
              \<and> tasks (fetcher_size s') = [] \<and> keys (fetcher_size s') = {}
       else s' = s \<and> w' = w))
   \<and> (flush fetcher_hash hash_batch_run (s, w) = (s', w') \<longrightarrow>
      (if tasks (fetcher_hash s) \<noteq> []
       then trace w' = EvHashQuery (keys (fetcher_hash s)) # trace w
              \<and> tasks (fetcher_hash s') = [] \<and> keys (fetcher_hash s') = {}
       else s' = s \<and> w' = w))
   \<and> (flush_needed fx now \<longleftrightarrow>
        tasks fx \<noteq> [] \<and> (int (length (tasks fx)) \<ge> max_batch_size fx
                           \<or> now - first_task_scheduled_time fx \<ge> 1 / 10))
   \<and> end_of_iteration ev x
       = (if schedule_queue (fst (bqm_flush_if_needed ev x)) = []
          then bqm_flush (bqm_flush_if_needed ev x) else bqm_flush_if_needed ev x)
   \<and> (bqm_flush (s, w) = (s', w') \<longrightarrow>
        trace w' = (if tasks (fetcher_hash s) \<noteq> [] then [EvHashQuery (keys (fetcher_hash s))] else [])
                   @ (if tasks (fetcher_size s) \<noteq> [] then [EvSizeQuery (keys (fetcher_size s))] else [])
                   @ trace w
        \<and> tasks (fetcher_size s') = [] \<and> tasks (fetcher_hash s') = []
        \<and> (tasks (fetcher_size s) \<noteq> [] \<longrightarrow> keys (fetcher_size s') = {})
        \<and> (tasks (fetcher_hash s) \<noteq> [] \<longrightarrow> keys (fetcher_hash s') = {}))
   \<and> (bqm_flush_if_needed ev (s, w) = (s', w') \<longrightarrow>
        trace w' =
           (if flush_needed (fetcher_hash s)
                 (time_at ev (clock (snd (flush_if_needed ev fetcher_size size_batch_run (s, w)))))
            then [EvHashQuery (keys (fetcher_hash s))] else [])
           @ (if flush_needed (fetcher_size s) (time_at ev (clock w))
              then [EvSizeQuery (keys (fetcher_size s))] else [])
           @ trace w
        \<and> (if flush_needed (fetcher_size s) (time_at ev (clock w))
           then tasks (fetcher_size s') = [] \<and> keys (fetcher_size s') = {}
           else fetcher_size s' = fetcher_size s)
        \<and> (if flush_needed (fetcher_hash s)
                 (time_at ev (clock (snd (flush_if_needed ev fetcher_size size_batch_run (s, w)))))
           then tasks (fetcher_hash s') = [] \<and> keys (fetcher_hash s') = {}
           else fetcher_hash s' = fetcher_hash s))
   \<and> (end_of_iteration ev x = (s', w') \<and> schedule_queue (fst (bqm_flush_if_needed ev x)) = [] \<longrightarrow>
        tasks (fetcher_size s') = [] \<and> tasks (fetcher_hash s') = [])
   \<and> (size_query ev sz g (s, w) = (s', w') \<and> tasks (fetcher_size s') \<noteq> [] \<longrightarrow>
        tasks (fetcher_size s') = tasks (fetcher_size s) @ [(sz, g)]
        \<and> first_task_scheduled_time (fetcher_size s')
            = (if tasks (fetcher_size s) = [] then time_at ev (clock w)
               else first_task_scheduled_time (fetcher_size s)))
   \<and> (hash_query ev h g (s, w) = (s', w') \<and> tasks (fetcher_hash s') \<noteq> [] \<longrightarrow>
        tasks (fetcher_hash s') = tasks (fetcher_hash s) @ [(h, g)]
        \<and> first_task_scheduled_time (fetcher_hash s')
            = (if tasks (fetcher_hash s) = [] then time_at ev (clock w)
               else first_task_scheduled_time (fetcher_hash s)))
   \<and> max_batch_size (fetcher_size (fst (initial_state ev w))) = 100
   \<and> max_batch_size (fetcher_hash (fst (initial_state ev w))) = 100"
proof (intro conjI impI)
  assume "flush_if_needed ev fetcher_size size_batch_run (s, w) = (s', w')"
  then show "if flush_needed (fetcher_size s) (time_at ev (clock w))
       then trace w' = EvSizeQuery (keys (fetcher_size s)) # trace w
              \<and> tasks (fetcher_size s') = [] \<and> keys (fetcher_size s') = {}
       else trace w' = trace w \<and> s' = s"
    by (rule size_flush_if_needed_effect)
next
  assume "flush_if_needed ev fetcher_hash hash_batch_run (s, w) = (s', w')"
  then show "if flush_needed (fetcher_hash s) (time_at ev (clock w))
       then trace w' = EvHashQuery (keys (fetcher_hash s)) # trace w
              \<and> tasks (fetcher_hash s') = [] \<and> keys (fetcher_hash s') = {}
       else trace w' = trace w \<and> s' = s"
    by (rule hash_flush_if_needed_effect)
next
  assume "flush fetcher_size size_batch_run (s, w) = (s', w')"
  then show "if tasks (fetcher_size s) \<noteq> []
       then trace w' = EvSizeQuery (keys (fetcher_size s)) # trace w
              \<and> tasks (fetcher_size s') = [] \<and> keys (fetcher_size s') = {}
       else s' = s \<and> w' = w"
    by (rule size_flush_effect)
next
  assume "flush fetcher_hash hash_batch_run (s, w) = (s', w')"
  then show "if tasks (fetcher_hash s) \<noteq> []
       then trace w' = EvHashQuery (keys (fetcher_hash s)) # trace w
              \<and> tasks (fetcher_hash s') = [] \<and> keys (fetcher_hash s') = {}
       else s' = s \<and> w' = w"
    by (rule hash_flush_effect)
next
  show "flush_needed fx now \<longleftrightarrow>
        tasks fx \<noteq> [] \<and> (int (length (tasks fx)) \<ge> max_batch_size fx
                           \<or> now - first_task_scheduled_time fx \<ge> 1 / 10)"
    by (simp add: flush_needed_def)
next
  show "end_of_iteration ev x
       = (if schedule_queue (fst (bqm_flush_if_needed ev x)) = []
          then bqm_flush (bqm_flush_if_needed ev x) else bqm_flush_if_needed ev x)"
    by (simp add: end_of_iteration_def split: prod.splits)
next
  assume a: "bqm_flush (s, w) = (s', w')"
  from bqm_flush_effect[OF a]
  show "trace w' = (if tasks (fetcher_hash s) \<noteq> [] then [EvHashQuery (keys (fetcher_hash s))] else [])
                   @ (if tasks (fetcher_size s) \<noteq> [] then [EvSizeQuery (keys (fetcher_size s))] else [])
                   @ trace w"
    and "tasks (fetcher_size s') = []" and "tasks (fetcher_hash s') = []"
    by simp_all
  assume "tasks (fetcher_size s) \<noteq> []"
  with bqm_flush_effect[OF a] show "keys (fetcher_size s') = {}" by simp
next
  assume a: "bqm_flush (s, w) = (s', w')" and "tasks (fetcher_hash s) \<noteq> []"
  with bqm_flush_effect[OF a] show "keys (fetcher_hash s') = {}" by simp
next
  assume a: "bqm_flush_if_needed ev (s, w) = (s', w')"
  from bqm_flush_if_needed_effect[OF a]
  show "trace w' =
           (if flush_needed (fetcher_hash s)
                 (time_at ev (clock (snd (flush_if_needed ev fetcher_size size_batch_run (s, w)))))
            then [EvHashQuery (keys (fetcher_hash s))] else [])
           @ (if flush_needed (fetcher_size s) (time_at ev (clock w))
              then [EvSizeQuery (keys (fetcher_size s))] else [])
           @ trace w"
    and "if flush_needed (fetcher_size s) (time_at ev (clock w))
           then tasks (fetcher_size s') = [] \<and> keys (fetcher_size s') = {}
           else fetcher_size s' = fetcher_size s"
    and "if flush_needed (fetcher_hash s)
                 (time_at ev (clock (snd (flush_if_needed ev fetcher_size size_batch_run (s, w)))))
           then tasks (fetcher_hash s') = [] \<and> keys (fetcher_hash s') = {}
           else fetcher_hash s' = fetcher_hash s"
    by simp_all
next
  assume a: "end_of_iteration ev x = (s', w') \<and> schedule_queue (fst (bqm_flush_if_needed ev x)) = []"
  obtain s1 w1 where b: "bqm_flush_if_needed ev x = (s1, w1)"
    by (cases "bqm_flush_if_needed ev x") auto
  with a have "bqm_flush (s1, w1) = (s', w')" by (auto simp: end_of_iteration_def)
  from bqm_flush_effect[OF this]
  show "tasks (fetcher_size s') = []" and "tasks (fetcher_hash s') = []" by simp_all
next
  assume a: "size_query ev sz g (s, w) = (s', w') \<and> tasks (fetcher_size s') \<noteq> []"
  from a have a1: "size_query ev sz g (s, w) = (s', w')" and a2: "tasks (fetcher_size s') \<noteq> []"
    by simp_all
  from size_query_pending[OF a1 a2]
  show "tasks (fetcher_size s') = tasks (fetcher_size s) @ [(sz, g)]"
    and "first_task_scheduled_time (fetcher_size s')
            = (if tasks (fetcher_size s) = [] then time_at ev (clock w)
               else first_task_scheduled_time (fetcher_size s))"
    by simp_all
next
  assume a: "hash_query ev h g (s, w) = (s', w') \<and> tasks (fetcher_hash s') \<noteq> []"
  from a have a1: "hash_query ev h g (s, w) = (s', w')" and a2: "tasks (fetcher_hash s') \<noteq> []"
    by simp_all
  from hash_query_pending[OF a1 a2]
  show "tasks (fetcher_hash s') = tasks (fetcher_hash s) @ [(h, g)]"
    and "first_task_scheduled_time (fetcher_hash s')
            = (if tasks (fetcher_hash s) = [] then time_at ev (clock w)
               else first_task_scheduled_time (fetcher_hash s))"
    by simp_all
next
  show "max_batch_size (fetcher_size (fst (initial_state ev w))) = 100"
    by (simp add: initial_state_def time_now_def fetcher_init_def MAX_BATCH_SIZE_def Let_def)
next
  show "max_batch_size (fetcher_hash (fst (initial_state ev w))) = 100"
    by (simp add: initial_state_def time_now_def fetcher_init_def MAX_BATCH_SIZE_def Let_def)
qed

text \<open>One task is pending since time 0 and the clock reads 0.2: the query is
  issued and the fetcher is cleared.\<close>

definition sched_one_pending :: sched where
  "sched_one_pending =
     \<lparr>schedule_queue = [],
      fetcher_size = \<lparr>max_batch_size = 100, first_task_scheduled_time = 0,
                       tasks = [(5, CF_start ''a.txt'')], keys = {5}\<rparr>,
      fetcher_hash = fetcher_init 100 0,
      files = []\<rparr>"

definition late_env :: env where
  "late_env = \<lparr>fs_at = (\<lambda>t. Map.empty), time_at = (\<lambda>t. 2 / 10), last_backup_files = None\<rparr>"

theorem batch_query_issued_exactly_when_witness:
  "flush_needed (fetcher_size sched_one_pending) (time_at late_env (clock empty_world))
   \<and> trace (snd (flush_if_needed late_env fetcher_size size_batch_run (sched_one_pending, empty_world)))
       = [EvSizeQuery {5}]
   \<and> tasks (fetcher_size (fst (flush_if_needed late_env fetcher_size size_batch_run
                                  (sched_one_pending, empty_world)))) = []
   \<and> tasks (fetcher_size sched_one_pending) \<noteq> []
   \<and> trace (snd (bqm_flush (sched_one_pending, empty_world))) = [EvSizeQuery {5}]
   \<and> tasks (fetcher_size (fst (bqm_flush (sched_one_pending, empty_world)))) = []"
proof -
  have n: "flush_needed (fetcher_size sched_one_pending) (time_at late_env (clock empty_world))"
    by (simp add: flush_needed_def sched_one_pending_def late_env_def)
  have c: "flush_if_needed late_env fetcher_size size_batch_run (sched_one_pending, empty_world)
         = (fst (flush_if_needed late_env fetcher_size size_batch_run (sched_one_pending, empty_world)),
            snd (flush_if_needed late_env fetcher_size size_batch_run (sched_one_pending, empty_world)))"
    by simp
  note t = batch_query_issued_exactly_when[where ev = late_env and s = sched_one_pending
      and w = empty_world, THEN conjunct1, THEN mp, OF c]
  from t n have a: "trace (snd (flush_if_needed late_env fetcher_size size_batch_run (sched_one_pending, empty_world)))
       = EvSizeQuery (keys (fetcher_size sched_one_pending)) # trace empty_world
     \<and> tasks (fetcher_size (fst (flush_if_needed late_env fetcher_size size_batch_run
                                  (sched_one_pending, empty_world)))) = []"
    by simp
  have p: "tasks (fetcher_size sched_one_pending) \<noteq> []" "tasks (fetcher_hash sched_one_pending) = []"
    by (simp_all add: sched_one_pending_def fetcher_init_def)
  have d: "bqm_flush (sched_one_pending, empty_world)
         = (fst (bqm_flush (sched_one_pending, empty_world)), snd (bqm_flush (sched_one_pending, empty_world)))"
    by simp
  note u = batch_query_issued_exactly_when[where s = sched_one_pending and w = empty_world,
      THEN conjunct2, THEN conjunct2, THEN conjunct2, THEN conjunct2, THEN conjunct2, THEN conjunct2,
      THEN conjunct1, THEN mp, OF d]
  from u p have b: "trace (snd (bqm_flush (sched_one_pending, empty_world)))
       = [EvSizeQuery (keys (fetcher_size sched_one_pending))] @ trace empty_world
     \<and> tasks (fetcher_size (fst (bqm_flush (sched_one_pending, empty_world)))) = []"
    by simp
  from a b n p show ?thesis by (simp add: sched_one_pending_def empty_world_def)
qed

section \<open>Rollback of the blob files (C3)\<close>

text \<open>Every write at a blob path comes after the path was added to the rollback
  list: in the events, newest first, a write has its rollback entry behind it.\<close>

fun writes_guarded :: "event list \<Rightarrow> bool" where
  "writes_guarded [] = True"
| "writes_guarded (EvWrite (BlobPath h) # t) = (EvRollbackAdd (BlobPath h) \<in> set t \<and> writes_guarded t)"
| "writes_guarded (e # t) = writes_guarded t"

text \<open>The invariant of a run that started with the disk \<open>d0\<close>: writes are
  guarded, every path of a rollback event is in the rollback list, and a blob
  path whose file differs from the one at the start was written by the run.\<close>

definition rb_inv :: "(disk_path \<Rightarrow> bytes option) \<Rightarrow> world \<Rightarrow> bool" where
  "rb_inv d0 w \<longleftrightarrow>
     writes_guarded (trace w)
     \<and> (\<forall>dp. EvRollbackAdd dp \<in> set (trace w) \<longrightarrow> dp \<in> set (rollback w))
     \<and> (\<forall>h. disk w (BlobPath h) \<noteq> d0 (BlobPath h) \<longrightarrow> EvWrite (BlobPath h) \<in> set (trace w))"

lemma writes_guarded_mem:
  "writes_guarded t \<Longrightarrow> EvWrite (BlobPath h) \<in> set t \<Longrightarrow> EvRollbackAdd (BlobPath h) \<in> set t"
  by (induction t rule: writes_guarded.induct) auto

lemma rb_inv_fields:
  "rb_inv d0 (w\<lparr>clock := a\<rparr>) = rb_inv d0 w"
  "rb_inv d0 (w\<lparr>blob_by_size_cache := b\<rparr>) = rb_inv d0 w"
  "rb_inv d0 (w\<lparr>blob_by_hash_cache := c\<rparr>) = rb_inv d0 w"
  "rb_inv d0 (w\<lparr>pre_calc_stats := d\<rparr>) = rb_inv d0 w"
  "rb_inv d0 (w\<lparr>pre_calc_hashes := e\<rparr>) = rb_inv d0 w"
  "rb_inv d0 (w\<lparr>pre_calc_reused_files := g\<rparr>) = rb_inv d0 w"
  "rb_inv d0 (w\<lparr>db_blobs := k\<rparr>) = rb_inv d0 w"
  by (simp_all add: rb_inv_def)

lemma rb_inv_prims:
  "rb_inv d0 (tick w) = rb_inv d0 w"
  "rb_inv d0 (remove_file (TempPath p) w) = rb_inv d0 w"
  "rb_inv d0 (log_event (EvAttempt p i lc) w) = rb_inv d0 w"
  "rb_inv d0 (log_event (EvSizeQuery szs) w) = rb_inv d0 w"
  "rb_inv d0 (log_event (EvHashQuery hs) w) = rb_inv d0 w"
  by (simp_all add: rb_inv_def tick_def remove_file_def log_event_def)

lemma trace_prims:
  "trace (tick w) = trace w"
  "trace (remove_file dp w) = trace w"
  "trace (write_file dp c w) = EvWrite dp # trace w"
  "trace (add_remove_file_rollbacker dp w) = EvRollbackAdd dp # trace w"
  by (simp_all add: tick_def remove_file_def write_file_def add_remove_file_rollbacker_def log_event_def)

lemma rb_inv_write_temp: "rb_inv d0 w \<Longrightarrow> rb_inv d0 (write_file (TempPath p) c w)"
  by (simp add: rb_inv_def write_file_def log_event_def)

lemma rb_inv_write_blob:
  "rb_inv d0 w \<Longrightarrow> EvRollbackAdd (BlobPath h) \<in> set (trace w) \<Longrightarrow>
     rb_inv d0 (write_file (BlobPath h) c w)"
  by (simp add: rb_inv_def write_file_def log_event_def)

lemma rb_inv_rba: "rb_inv d0 w \<Longrightarrow> rb_inv d0 (add_remove_file_rollbacker dp w)"
  by (cases dp) (auto simp: rb_inv_def add_remove_file_rollbacker_def log_event_def)

lemmas rb_inv_rules =
  rb_inv_fields rb_inv_prims trace_prims rb_inv_write_temp rb_inv_write_blob rb_inv_rba

lemma commit_blob_rb:
  "commit_blob f h r s w = (c, f', w') \<Longrightarrow> rb_inv d0 w \<Longrightarrow> rb_inv d0 w'"
  by (auto simp: commit_blob_def create_blob_def Let_def rb_inv_fields)

lemma write_copy_hash_rb:
  "write_copy_hash cfg ev p f w = (c, f', w') \<Longrightarrow> rb_inv d0 w \<Longrightarrow> rb_inv d0 w'"
  by (auto simp: write_copy_hash_def read_source_def Let_def rb_inv_rules
        split: if_splits option.splits prod.splits)

lemma write_copy_hash_resume_rb:
  "write_copy_hash_resume cfg p f w = (c, f', w') \<Longrightarrow> rb_inv d0 w \<Longrightarrow> rb_inv d0 w'"
  by (auto simp: write_copy_hash_resume_def bp_rba_def Let_def rb_inv_rules
        split: if_splits option.splits prod.splits dest!: commit_blob_rb[where ?d0.0 = d0])

lemma write_hash_once_rb:
  "write_hash_once cfg ev p st f w = (c, f', w') \<Longrightarrow> rb_inv d0 w \<Longrightarrow> rb_inv d0 w'"
  by (auto simp: write_hash_once_def bp_rba_def read_source_def Let_def rb_inv_rules
        split: if_splits option.splits prod.splits dest!: commit_blob_rb[where ?d0.0 = d0])

lemma write_known_hash_rb:
  "write_known_hash cfg ev p st f w = (c, f', w') \<Longrightarrow> rb_inv d0 w \<Longrightarrow> rb_inv d0 w'"
  by (auto simp: write_known_hash_def bp_rba_def read_source_def Let_def rb_inv_rules
        split: if_splits option.splits prod.splits dest!: commit_blob_rb[where ?d0.0 = d0])

lemma write_blob_rb:
  "write_blob cfg ev p st f w = (c, f', w') \<Longrightarrow> rb_inv d0 w \<Longrightarrow> rb_inv d0 w'"
  by (auto simp: write_blob_def split: if_splits
        dest: write_copy_hash_rb write_hash_once_rb write_known_hash_rb)

lemma attempt_from_dedup_rb:
  assumes "attempt_from_dedup cfg ev p st f w = (c, f', w')" and "rb_inv d0 w"
  shows "rb_inv d0 w'"
proof (rule and_then_cases[OF assms(1)[unfolded attempt_from_dedup_def]])
  assume "dedup_lookup f w = (c, f', w')"
  then have "w' = w" by (auto simp: dedup_lookup_def split: option.splits if_splits)
  with assms(2) show ?thesis by simp
next
  fix f0 w0
  assume "dedup_lookup f w = (Next, f0, w0)" and b: "write_blob cfg ev p st f0 w0 = (c, f', w')"
  then have "w0 = w" by (auto simp: dedup_lookup_def split: option.splits if_splits)
  with write_blob_rb[OF b] assms(2) show ?thesis by simp
qed

lemma policy_phase_rb:
  assumes "policy_phase cfg ev p st lc w = (c, f, w')"
  shows "rb_inv d0 w' = rb_inv d0 w"
  using policy_phase_unchanged[OF assms] by (simp add: rb_inv_def)

lemma policy_phase_resume_rb:
  assumes "policy_phase_resume cfg ev p st f w = (c, f', w')"
  shows "rb_inv d0 w' = rb_inv d0 w"
  using policy_phase_resume_unchanged[OF assms] by (simp add: rb_inv_def)

lemma attempt_once_rb:
  assumes "attempt_once cfg ev p st lc w = (c, f', w')" and "rb_inv d0 w"
  shows "rb_inv d0 w'"
proof (rule and_then_cases[OF assms(1)[unfolded attempt_once_phases]])
  assume "policy_phase cfg ev p st lc w = (c, f', w')"
  from policy_phase_rb[OF this] assms(2) show ?thesis by simp
next
  fix f0 w0
  assume r: "policy_phase cfg ev p st lc w = (Next, f0, w0)"
    and d: "attempt_from_dedup cfg ev p st f0 w0 = (c, f', w')"
  from policy_phase_rb[OF r] assms(2) have "rb_inv d0 w0" by simp
  with attempt_from_dedup_rb[OF d] show ?thesis by simp
qed

lemma attempt_resume_rb:
  assumes "attempt_resume cfg ev p st l f w = (c, f', w')" and "rb_inv d0 w"
  shows "rb_inv d0 w'"
proof (cases l)
  case At_size_req
  show ?thesis
  proof (rule and_then_cases[OF assms(1)[unfolded At_size_req attempt_resume_phases]])
    assume "policy_phase_resume cfg ev p st f w = (c, f', w')"
    from policy_phase_resume_rb[OF this] assms(2) show ?thesis by simp
  next
    fix f0 w0
    assume r: "policy_phase_resume cfg ev p st f w = (Next, f0, w0)"
      and d: "attempt_from_dedup cfg ev p st f0 w0 = (c, f', w')"
    from policy_phase_resume_rb[OF r] assms(2) have "rb_inv d0 w0" by simp
    with attempt_from_dedup_rb[OF d] show ?thesis by simp
  qed
next
  case At_hash_req
  from assms(1) have a: "and_then (dedup_resume f w) (write_blob cfg ev p st) = (c, f', w')"
    by (simp add: attempt_resume_def At_hash_req)
  show ?thesis
  proof (rule and_then_cases[OF a])
    assume "dedup_resume f w = (c, f', w')"
    then have "w' = w" by (auto simp: dedup_resume_def split: option.splits)
    with assms(2) show ?thesis by simp
  next
    fix f0 w0
    assume "dedup_resume f w = (Next, f0, w0)" and b: "write_blob cfg ev p st f0 w0 = (c, f', w')"
    then have "w0 = w" by (auto simp: dedup_resume_def split: option.splits)
    with write_blob_rb[OF b] assms(2) show ?thesis by simp
  qed
next
  case At_copy_hash_req
  with assms show ?thesis
    by (auto simp: attempt_resume_def dest: write_copy_hash_resume_rb)
qed

lemma run_attempt_rb:
  assumes "run_attempt cfg ev p i st susp w = (c, f, w1)" and "rb_inv d0 w"
  shows "rb_inv d0 w1"
proof (cases susp)
  case None
  with assms(1) have "attempt_once cfg ev p st (i + 1 = BLOB_FILE_CHANGED_RETRY_COUNT)
      (log_event (EvAttempt p i (i + 1 = BLOB_FILE_CHANGED_RETRY_COUNT)) w) = (c, f, w1)"
    by (simp add: run_attempt_def Let_def)
  from attempt_once_rb[OF this] assms(2) show ?thesis by (simp add: rb_inv_prims)
next
  case (Some lf)
  obtain l f0 where "lf = (l, f0)" by (cases lf) auto
  with Some assms(1) have "attempt_resume cfg ev p st l f0 w = (c, f, w1)"
    by (simp add: run_attempt_def Let_def)
  from attempt_resume_rb[OF this assms(2)] show ?thesis .
qed

lemma gocb_rb:
  "get_or_create_blob cfg ev p i st susp w = (r, w') \<Longrightarrow> rb_inv d0 w \<Longrightarrow> rb_inv d0 w'"
proof (induction cfg ev p i st susp w rule: get_or_create_blob.induct)
  case (1 cfg ev src_path i st susp w)
  show ?case
  proof (cases "i \<ge> BLOB_FILE_CHANGED_RETRY_COUNT")
    case True
    with "1.prems" show ?thesis by (simp add: get_or_create_blob.simps)
  next
    case False
    hence i3: "i < 3" by (simp add: BLOB_FILE_CHANGED_RETRY_COUNT_def)
    obtain c f1 w1 where ra: "run_attempt cfg ev src_path i st susp w = (c, f1, w1)"
      by (cases "run_attempt cfg ev src_path i st susp w") auto
    note inv1 = run_attempt_rb[OF ra "1.prems"(2)]
    note unf = get_or_create_blob.simps[of cfg ev src_path i st susp w]
    show ?thesis
    proof (cases c)
      case Next
      with "1.prems"(1) False ra inv1 show ?thesis by (auto simp: unf)
    next
      case (Yield q0 l0)
      with "1.prems"(1) False ra inv1 show ?thesis by (auto simp: unf)
    next
      case (Return b)
      with "1.prems"(1) False ra inv1 show ?thesis by (auto simp: unf rb_inv_fields)
    next
      case (Raise e)
      show ?thesis
      proof (cases "e = BlobFileChanged")
        case nb: False
        with Raise "1.prems"(1) False ra inv1 show ?thesis by (auto simp: unf)
      next
        case True
        obtain so w2 where ls: "lstat ev src_path w1 = (so, w2)" by (cases "lstat ev src_path w1") auto
        then have inv2: "rb_inv d0 w2" using inv1 by (auto simp: lstat_def rb_inv_prims)
        show ?thesis
        proof (cases so)
          case None
          with True Raise "1.prems"(1) False ra ls inv2 show ?thesis by (auto simp: unf)
        next
          case (Some st2)
          with True Raise "1.prems"(1) False ra ls
          have rec: "get_or_create_blob cfg ev src_path (i + 1) st2 None w2 = (r, w')"
            by (simp add: unf)
          show ?thesis
            using "1.IH"[OF False ra[symmetric] _ _ True ls[symmetric] _ rec inv2] Raise Some
            by simp
        qed
      qed
    qed
  qed
qed

lemma forward_blob_rb:
  "forward_blob cfg p (r, w1) = (r', w') \<Longrightarrow> w' = w1"
  by (auto simp: forward_blob_def create_file_row_def split: sent.splits option.splits prod.splits)

lemma create_file_send_rb:
  assumes "create_file_send cfg ev g v w = (r, w')" and "rb_inv d0 w"
  shows "rb_inv d0 w'"
proof (cases g)
  case (CF_start p)
  show ?thesis
  proof (cases "pre_calc_reused_files w p")
    case (Some fl)
    with assms CF_start show ?thesis by (simp add: create_file_send_def)
  next
    case None
    obtain so w1 where st: "(case pre_calc_stats w p of
                        Some st \<Rightarrow> (Some st, w\<lparr>pre_calc_stats := (pre_calc_stats w)(p := None)\<rparr>)
                      | None \<Rightarrow> lstat ev p w) = (so, w1)"
      by (cases "(case pre_calc_stats w p of
                        Some st \<Rightarrow> (Some st, w\<lparr>pre_calc_stats := (pre_calc_stats w)(p := None)\<rparr>)
                      | None \<Rightarrow> lstat ev p w)") auto
    then have inv1: "rb_inv d0 w1" using assms(2)
      by (auto simp: lstat_def rb_inv_prims rb_inv_fields split: option.splits)
    show ?thesis
    proof (cases so)
      case n: None
      with assms(1) CF_start None st inv1 show ?thesis by (simp add: create_file_send_def)
    next
      case (Some st0)
      show ?thesis
      proof (cases "S_ISREG (st_mode st0)")
        case True
        obtain r1 w2 where g: "get_or_create_blob cfg ev p 0 st0 None w1 = (r1, w2)"
          by (cases "get_or_create_blob cfg ev p 0 st0 None w1") auto
        with assms(1) CF_start None st Some True have "forward_blob cfg p (r1, w2) = (r, w')"
          by (simp add: create_file_send_def)
        from forward_blob_rb[OF this] gocb_rb[OF g inv1] show ?thesis by simp
      next
        case False
        with assms(1) CF_start None st Some inv1 show ?thesis
          by (auto simp: create_file_send_def create_file_row_def readlink_def rb_inv_prims
                split: if_splits option.splits prod.splits)
      qed
    qed
  qed
next
  case (CF_blob p gg)
  obtain i st l f where gg: "gg = GocbGen i st l f" by (cases gg) auto
  obtain r1 w2 where g: "get_or_create_blob cfg ev p i st (Some (l, f)) w = (r1, w2)"
    by (cases "get_or_create_blob cfg ev p i st (Some (l, f)) w") auto
  with assms(1) CF_blob gg have "forward_blob cfg p (r1, w2) = (r, w')"
    by (simp add: create_file_send_def)
  from forward_blob_rb[OF this] gocb_rb[OF g assms(2)] show ?thesis by simp
qed

lemma size_batch_run_rb: "rb_inv d0 (snd (size_batch_run (s, w))) = rb_inv d0 w"
  by (simp add: size_batch_run_def Let_def rb_inv_prims rb_inv_fields)

lemma hash_batch_run_rb: "rb_inv d0 (snd (hash_batch_run (s, w))) = rb_inv d0 w"
  by (simp add: hash_batch_run_def Let_def rb_inv_prims rb_inv_fields)

lemma flush_if_needed_rb:
  assumes "\<And>s w. rb_inv d0 (snd (batch_run (s, w))) = rb_inv d0 w"
  shows "rb_inv d0 (snd (flush_if_needed ev fetcher batch_run x)) = rb_inv d0 (snd x)"
  using assms by (cases x) (auto simp: flush_if_needed_def time_now_def rb_inv_prims split: prod.splits)

lemma flush_rb:
  assumes "\<And>s w. rb_inv d0 (snd (batch_run (s, w))) = rb_inv d0 w"
  shows "rb_inv d0 (snd (flush fetcher batch_run x)) = rb_inv d0 (snd x)"
  using assms by (cases x) (auto simp: flush_def)

lemma bqm_flush_if_needed_rb: "rb_inv d0 (snd (bqm_flush_if_needed ev x)) = rb_inv d0 (snd x)"
  by (simp add: bqm_flush_if_needed_def flush_if_needed_rb size_batch_run_rb hash_batch_run_rb)

lemma bqm_flush_rb: "rb_inv d0 (snd (bqm_flush x)) = rb_inv d0 (snd x)"
  by (simp add: bqm_flush_def flush_rb size_batch_run_rb hash_batch_run_rb)

lemma end_of_iteration_rb: "rb_inv d0 (snd (end_of_iteration ev x)) = rb_inv d0 (snd x)"
  using bqm_flush_if_needed_rb[of d0 ev x] bqm_flush_rb[of d0]
  by (auto simp: end_of_iteration_def split: prod.splits)

lemma bqm_query_rb: "rb_inv d0 (snd (bqm_query ev req g x)) = rb_inv d0 (snd x)"
proof (cases x)
  case (Pair s w)
  show ?thesis
  proof (cases req)
    case (SizeReq sz)
    with Pair show ?thesis
      by (simp add: bqm_query_def size_query_def Let_def time_now_def flush_if_needed_rb
            size_batch_run_rb rb_inv_prims)
  next
    case (HashReq h)
    with Pair show ?thesis
      by (simp add: bqm_query_def hash_query_def Let_def time_now_def flush_if_needed_rb
            hash_batch_run_rb rb_inv_prims)
  qed
qed

lemma loop_body_rb:
  assumes "loop_body cfg ev x = (r, x')" and "rb_inv d0 (snd x)"
  shows "rb_inv d0 (snd x')"
proof -
  obtain s w where x: "x = (s, w)" by (cases x) auto
  show ?thesis
  proof (cases "schedule_queue s")
    case Nil
    with assms x show ?thesis by (auto simp: loop_body_def)
  next
    case (Cons gv q)
    obtain g v where gv: "gv = (g, v)" by (cases gv) auto
    obtain r1 w1 where cf: "create_file_send cfg ev g v w = (r1, w1)"
      by (cases "create_file_send cfg ev g v w") auto
    from create_file_send_rb[OF cf] assms(2) x have inv1: "rb_inv d0 w1" by simp
    show ?thesis
    proof (cases r1)
      case (Yielded req g')
      with assms(1) x Cons gv cf inv1 show ?thesis
        by (auto simp: loop_body_def Let_def end_of_iteration_rb bqm_query_rb)
    next
      case (Returned fl)
      with assms(1) x Cons gv cf inv1 show ?thesis
        by (auto simp: loop_body_def Let_def end_of_iteration_rb)
    next
      case (Raised e)
      with assms(1) x Cons gv cf inv1 show ?thesis
        by (auto simp: loop_body_def Let_def end_of_iteration_rb split: exn.splits if_splits)
    qed
  qed
qed

lemma create_files_loop_rb:
  "create_files_loop cfg ev x = (r, x') \<Longrightarrow> rb_inv d0 (snd x) \<Longrightarrow> rb_inv d0 (snd x')"
proof (induction cfg ev x rule: create_files_loop.induct)
  case (1 cfg ev x)
  show ?case
  proof (cases "length (schedule_queue (fst x)) > 0")
    case False
    with "1.prems" show ?thesis by (simp add: create_files_loop.simps[of cfg ev x])
  next
    case True
    obtain r1 x1 where lb: "loop_body cfg ev x = (r1, x1)" by (cases "loop_body cfg ev x") auto
    note inv1 = loop_body_rb[OF lb "1.prems"(2)]
    show ?thesis
    proof (cases r1)
      case (Some e)
      with "1.prems"(1) True lb inv1 show ?thesis
        by (auto simp: create_files_loop.simps[of cfg ev x])
    next
      case None
      with "1.prems"(1) True lb have rec: "create_files_loop cfg ev x1 = (r, x')"
        by (simp add: create_files_loop.simps[of cfg ev x])
      from "1.IH"[OF True lb[symmetric] None rec inv1] show ?thesis .
    qed
  qed
qed

lemma reuse_entries_rb:
  "reuse_entries cfg m es w = (r, w') \<Longrightarrow> rb_inv d0 w' = rb_inv d0 w"
  by (induction cfg m es w rule: reuse_entries.induct)
     (auto simp: rb_inv_fields split: if_splits option.splits)

lemma hash_entries_rb:
  "hash_entries cfg ev ex es w = (r, w') \<Longrightarrow> rb_inv d0 w' = rb_inv d0 w"
  by (induction cfg ev ex es w rule: hash_entries.induct)
     (auto simp: rb_inv_fields rb_inv_prims read_source_def split: if_splits option.splits prod.splits)

lemma prepare_rb:
  assumes "prepare cfg ev all_files w = (r, w')"
  shows "rb_inv d0 w' = rb_inv d0 w"
proof -
  let ?w0 = "pre_calculate_stats all_files w"
  have i0: "rb_inv d0 ?w0 = rb_inv d0 w" by (simp add: pre_calculate_stats_def rb_inv_fields)
  obtain r1 w1 where a: "(if reuse_stat_unchanged_file cfg
            then reuse_unchanged_files cfg ev all_files ?w0 else (None, ?w0)) = (r1, w1)"
    by (cases "(if reuse_stat_unchanged_file cfg
            then reuse_unchanged_files cfg ev all_files ?w0 else (None, ?w0))") auto
  then have i1: "rb_inv d0 w1 = rb_inv d0 w" using i0
    by (auto simp: reuse_unchanged_files_def split: if_splits option.splits dest: reuse_entries_rb[where ?d0.0 = d0])
  show ?thesis
  proof (cases r1)
    case (Some e)
    with assms a i1 show ?thesis by (simp add: prepare_def)
  next
    case None
    show ?thesis
    proof (cases "effective_concurrency cfg > 1")
      case False
      with None assms a i1 show ?thesis by (simp add: prepare_def)
    next
      case True
      with None assms a have "pre_calculate_hash cfg ev all_files w1 = (r, w')"
        by (simp add: prepare_def)
      then have "rb_inv d0 w' = rb_inv d0 w1"
        by (auto simp: pre_calculate_hash_def Let_def rb_inv_fields dest!: hash_entries_rb[where ?d0.0 = d0])
      with i1 show ?thesis by simp
    qed
  qed
qed

lemma create_backup_rb:
  assumes "create_backup cfg ev all_files (s, w) = (r, w')" and "rb_inv d0 w"
  shows "rb_inv d0 w'"
proof -
  obtain r1 w1 where p: "prepare cfg ev all_files w = (r1, w1)"
    by (cases "prepare cfg ev all_files w") auto
  from prepare_rb[OF p] assms(2) have i1: "rb_inv d0 w1" by simp
  show ?thesis
  proof (cases r1)
    case (Some e)
    with assms(1) p i1 show ?thesis by (simp add: create_backup_def)
  next
    case None
    let ?x = "(s\<lparr>schedule_queue := schedule_queue s @ map (\<lambda>(p, st). (CF_start p, None)) all_files\<rparr>, w1)"
    obtain r2 s2 w2 where l: "create_files_loop cfg ev ?x = (r2, s2, w2)"
      by (cases "create_files_loop cfg ev ?x") auto
    from create_files_loop_rb[OF l] i1 have "rb_inv d0 w2" by simp
    with assms(1) p None l show ?thesis by (auto simp: create_backup_def split: option.splits)
  qed
qed

lemma initial_state_rb: "rb_inv d0 (snd (initial_state ev w)) = rb_inv d0 w"
  by (simp add: initial_state_def Let_def time_now_def rb_inv_prims rb_inv_fields)

lemma rb_inv_start: "trace w = [] \<Longrightarrow> rb_inv (disk w) w"
  by (simp add: rb_inv_def)

lemma run_cases:
  assumes "run cfg ev all_files w = (r, w')"
  obtains e w3 where "create_backup cfg ev all_files (initial_state ev w) = (Inl e, w3)"
      "r = Inl e" "w' = apply_blob_rollback w3"
  | fl where "create_backup cfg ev all_files (initial_state ev w) = (Inr fl, w')" "r = Inr fl"
  using assms by (auto simp: run_def split: prod.splits sum.splits)

lemma apply_blob_rollback_trace: "trace (apply_blob_rollback w) = trace w"
proof -
  have "trace (fold remove_file dps w) = trace w" for dps
    by (induction dps arbitrary: w) (auto simp: remove_file_def)
  then show ?thesis by (simp add: apply_blob_rollback_def)
qed

text \<open>
  C3. In a run that starts with no event recorded, whatever its outcome, every
  write at a blob path comes after that path was added to the rollback list,
  and every path so added is in the rollback list. When the run ends with an
  exception, the exception is the one that left \<^verbatim>\<open>__create_backup\<close>, and in the
  world handed to the caller no path of the rollback list is on disk; hence
  every blob path either has no file, or holds the file it held before the run
  and was never written by the run.
\<close>

theorem aborted_run_leaves_no_blob_file:
  assumes "trace w = []" and "run cfg ev all_files w = (r, w')"
  shows "writes_guarded (trace w')
       \<and> (\<forall>dp. EvRollbackAdd dp \<in> set (trace w') \<longrightarrow> dp \<in> set (rollback w'))
       \<and> (\<forall>e. r = Inl e \<longrightarrow>
            (\<exists>w3. create_backup cfg ev all_files (initial_state ev w) = (Inl e, w3)
                   \<and> w' = apply_blob_rollback w3)
            \<and> (\<forall>dp \<in> set (rollback w'). disk w' dp = None)
            \<and> (\<forall>h. disk w' (BlobPath h) = None
                     \<or> (disk w' (BlobPath h) = disk w (BlobPath h)
                          \<and> EvWrite (BlobPath h) \<notin> set (trace w'))))"
proof (rule run_cases[OF assms(2)])
  fix e w3
  assume cb: "create_backup cfg ev all_files (initial_state ev w) = (Inl e, w3)"
    and r: "r = Inl e" and w': "w' = apply_blob_rollback w3"
  obtain s0 w0 where is0: "initial_state ev w = (s0, w0)" by (cases "initial_state ev w") auto
  from initial_state_rb[of "disk w" ev w] is0 rb_inv_start[OF assms(1)]
  have "rb_inv (disk w) w0" by simp
  from create_backup_rb[OF cb[unfolded is0] this] have inv: "rb_inv (disk w) w3" .
  have t: "trace w' = trace w3" and rbl: "rollback w' = rollback w3"
    by (simp_all add: w' apply_blob_rollback_trace apply_blob_rollback_rollback)
  have d: "disk w' dp = (if dp \<in> set (rollback w3) then None else disk w3 dp)" for dp
    by (simp add: w' apply_blob_rollback_disk)
  have g: "writes_guarded (trace w')" using inv t by (simp add: rb_inv_def)
  have a: "\<forall>dp. EvRollbackAdd dp \<in> set (trace w') \<longrightarrow> dp \<in> set (rollback w')"
    using inv t rbl by (simp add: rb_inv_def)
  have n: "\<forall>dp \<in> set (rollback w'). disk w' dp = None" using d rbl by simp
  have k: "disk w' (BlobPath h) = None
             \<or> (disk w' (BlobPath h) = disk w (BlobPath h) \<and> EvWrite (BlobPath h) \<notin> set (trace w'))" for h
  proof (cases "EvWrite (BlobPath h) \<in> set (trace w3)")
    case True
    with inv have "EvRollbackAdd (BlobPath h) \<in> set (trace w3)"
      by (simp add: rb_inv_def writes_guarded_mem)
    with inv have "BlobPath h \<in> set (rollback w3)" by (simp add: rb_inv_def)
    with d show ?thesis by simp
  next
    case False
    with inv have "disk w3 (BlobPath h) = disk w (BlobPath h)" by (auto simp: rb_inv_def)
    with False d[of "BlobPath h"] t show ?thesis by (cases "BlobPath h \<in> set (rollback w3)") simp_all
  qed
  from g a n k cb r w' show ?thesis by blast
next
  fix fl
  assume cb: "create_backup cfg ev all_files (initial_state ev w) = (Inr fl, w')" and r: "r = Inr fl"
  obtain s0 w0 where is0: "initial_state ev w = (s0, w0)" by (cases "initial_state ev w") auto
  from initial_state_rb[of "disk w" ev w] is0 rb_inv_start[OF assms(1)]
  have "rb_inv (disk w) w0" by simp
  from create_backup_rb[OF cb[unfolded is0] this] have inv: "rb_inv (disk w) w'" .
  with r show ?thesis by (simp add: rb_inv_def)
qed

text \<open>
  The file \<open>b.bin\<close> is longer than its stat says and is deleted before the
  re-stat. The first attempt has written the blob file \<open>data\<close> when it sees
  the change; the run fails, and the blob file is not on disk afterwards.
\<close>

lemma run_vanished_example:
  "fst (run example_config (vanishing_env 7 [''b.bin'' \<mapsto> regular_file 9000 ''data''])
          [(''b.bin'', st_regular 9000 5000)] empty_world)
     = Inl (FileNotFoundError ''b.bin'')
   \<and> trace (snd (run example_config (vanishing_env 7 [''b.bin'' \<mapsto> regular_file 9000 ''data''])
          [(''b.bin'', st_regular 9000 5000)] empty_world))
     = [EvWrite (BlobPath ''data''), EvRollbackAdd (BlobPath ''data''),
        EvHashQuery {''data''}, EvAttempt ''b.bin'' 0 False]"
  by (simp add: run_defs example_defs Let_def)

theorem aborted_run_leaves_no_blob_file_witness:
  "trace empty_world = []
   \<and> fst (run example_config (vanishing_env 7 [''b.bin'' \<mapsto> regular_file 9000 ''data''])
          [(''b.bin'', st_regular 9000 5000)] empty_world)
     = Inl (FileNotFoundError ''b.bin'')
   \<and> EvWrite (BlobPath ''data'')
       \<in> set (trace (snd (run example_config (vanishing_env 7 [''b.bin'' \<mapsto> regular_file 9000 ''data''])
          [(''b.bin'', st_regular 9000 5000)] empty_world)))
   \<and> disk (snd (run example_config (vanishing_env 7 [''b.bin'' \<mapsto> regular_file 9000 ''data''])
          [(''b.bin'', st_regular 9000 5000)] empty_world)) (BlobPath ''data'')
     = None"
proof -
  let ?r = "run example_config (vanishing_env 7 [''b.bin'' \<mapsto> regular_file 9000 ''data''])
          [(''b.bin'', st_regular 9000 5000)] empty_world"
  have t0: "trace empty_world = []" by (simp add: empty_world_def)
  have rr: "?r = (fst ?r, snd ?r)" by simp
  have e: "fst ?r = Inl (FileNotFoundError ''b.bin'')" using run_vanished_example by simp
  have wr: "EvWrite (BlobPath ''data'') \<in> set (trace (snd ?r))"
    using run_vanished_example by simp
  from aborted_run_leaves_no_blob_file[OF t0 rr] e
  have "disk (snd ?r) (BlobPath ''data'') = None
          \<or> (disk (snd ?r) (BlobPath ''data'') = disk empty_world (BlobPath ''data'')
               \<and> EvWrite (BlobPath ''data'') \<notin> set (trace (snd ?r)))"
    by blast
  with wr have "disk (snd ?r) (BlobPath ''data'') = None" by blast
  with t0 e wr show ?thesis by simp
qed

section \<open>The stored mtime of every row of a run (C6)\<close>

text \<open>The tables \<^verbatim>\<open>stats\<close> and \<^verbatim>\<open>reused_files\<close> of the pre-calculation result.\<close>

definition pre_calc_tables :: "world \<Rightarrow> (path \<Rightarrow> stat_result option) \<times> (path \<Rightarrow> File option)" where
  "pre_calc_tables w = (pre_calc_stats w, pre_calc_reused_files w)"

lemma pre_calc_tables_prims:
  "pre_calc_tables (tick w) = pre_calc_tables w"
  "pre_calc_tables (remove_file dp w) = pre_calc_tables w"
  "pre_calc_tables (write_file dp c w) = pre_calc_tables w"
  "pre_calc_tables (add_remove_file_rollbacker dp w) = pre_calc_tables w"
  "pre_calc_tables (log_event e w) = pre_calc_tables w"
  "pre_calc_tables (w\<lparr>clock := a\<rparr>) = pre_calc_tables w"
  "pre_calc_tables (w\<lparr>blob_by_size_cache := b\<rparr>) = pre_calc_tables w"
  "pre_calc_tables (w\<lparr>blob_by_hash_cache := bh\<rparr>) = pre_calc_tables w"
  "pre_calc_tables (w\<lparr>pre_calc_hashes := ph\<rparr>) = pre_calc_tables w"
  "pre_calc_tables (w\<lparr>db_blobs := k\<rparr>) = pre_calc_tables w"
  by (simp_all add: pre_calc_tables_def tick_def remove_file_def write_file_def
        add_remove_file_rollbacker_def log_event_def)

lemma commit_blob_tables:
  "commit_blob f h r s w = (c, f', w') \<Longrightarrow> pre_calc_tables w' = pre_calc_tables w"
  by (auto simp: commit_blob_def create_blob_def Let_def pre_calc_tables_prims)

lemma write_copy_hash_tables:
  "write_copy_hash cfg ev p f w = (c, f', w') \<Longrightarrow> pre_calc_tables w' = pre_calc_tables w"
  by (auto simp: write_copy_hash_def read_source_def Let_def pre_calc_tables_prims
        split: if_splits option.splits prod.splits)

lemma write_copy_hash_resume_tables:
  "write_copy_hash_resume cfg p f w = (c, f', w') \<Longrightarrow> pre_calc_tables w' = pre_calc_tables w"
  by (auto simp: write_copy_hash_resume_def bp_rba_def Let_def pre_calc_tables_prims
        split: if_splits option.splits prod.splits dest!: commit_blob_tables)

lemma write_hash_once_tables:
  "write_hash_once cfg ev p st f w = (c, f', w') \<Longrightarrow> pre_calc_tables w' = pre_calc_tables w"
  by (auto simp: write_hash_once_def bp_rba_def read_source_def Let_def pre_calc_tables_prims
        split: if_splits option.splits prod.splits dest!: commit_blob_tables)

lemma write_known_hash_tables:
  "write_known_hash cfg ev p st f w = (c, f', w') \<Longrightarrow> pre_calc_tables w' = pre_calc_tables w"
  by (auto simp: write_known_hash_def bp_rba_def read_source_def Let_def pre_calc_tables_prims
        split: if_splits option.splits prod.splits dest!: commit_blob_tables)

lemma write_blob_tables:
  "write_blob cfg ev p st f w = (c, f', w') \<Longrightarrow> pre_calc_tables w' = pre_calc_tables w"
  by (auto simp: write_blob_def split: if_splits
        dest: write_copy_hash_tables write_hash_once_tables write_known_hash_tables)

lemma policy_phase_tables:
  "policy_phase cfg ev p st lc w = (c, f, w') \<Longrightarrow> pre_calc_tables w' = pre_calc_tables w"
  unfolding policy_phase_defs Let_def pre_calc_tables_def
  by (auto split: if_splits option.splits prod.splits)

lemma policy_phase_resume_tables:
  "policy_phase_resume cfg ev p st f w = (c, f', w') \<Longrightarrow> pre_calc_tables w' = pre_calc_tables w"
  unfolding policy_phase_defs Let_def pre_calc_tables_def
  by (auto split: if_splits option.splits prod.splits)

lemma attempt_from_dedup_tables:
  assumes "attempt_from_dedup cfg ev p st f w = (c, f', w')"
  shows "pre_calc_tables w' = pre_calc_tables w"
proof (rule and_then_cases[OF assms[unfolded attempt_from_dedup_def]])
  assume "dedup_lookup f w = (c, f', w')"
  then have "w' = w" by (auto simp: dedup_lookup_def split: option.splits if_splits)
  then show ?thesis by simp
next
  fix f0 w0
  assume "dedup_lookup f w = (Next, f0, w0)" and b: "write_blob cfg ev p st f0 w0 = (c, f', w')"
  then have "w0 = w" by (auto simp: dedup_lookup_def split: option.splits if_splits)
  with write_blob_tables[OF b] show ?thesis by simp
qed

lemma attempt_once_tables:
  assumes "attempt_once cfg ev p st lc w = (c, f', w')"
  shows "pre_calc_tables w' = pre_calc_tables w"
proof (rule and_then_cases[OF assms[unfolded attempt_once_phases]])
  assume "policy_phase cfg ev p st lc w = (c, f', w')"
  then show ?thesis by (rule policy_phase_tables)
next
  fix f0 w0
  assume r: "policy_phase cfg ev p st lc w = (Next, f0, w0)"
    and d: "attempt_from_dedup cfg ev p st f0 w0 = (c, f', w')"
  from policy_phase_tables[OF r] attempt_from_dedup_tables[OF d] show ?thesis by simp
qed

lemma attempt_resume_tables:
  assumes "attempt_resume cfg ev p st l f w = (c, f', w')"
  shows "pre_calc_tables w' = pre_calc_tables w"
proof (cases l)
  case At_size_req
  show ?thesis
  proof (rule and_then_cases[OF assms[unfolded At_size_req attempt_resume_phases]])
    assume "policy_phase_resume cfg ev p st f w = (c, f', w')"
    then show ?thesis by (rule policy_phase_resume_tables)
  next
    fix f0 w0
    assume r: "policy_phase_resume cfg ev p st f w = (Next, f0, w0)"
      and d: "attempt_from_dedup cfg ev p st f0 w0 = (c, f', w')"
    from policy_phase_resume_tables[OF r] attempt_from_dedup_tables[OF d] show ?thesis by simp
  qed
next
  case At_hash_req
  from assms have a: "and_then (dedup_resume f w) (write_blob cfg ev p st) = (c, f', w')"
    by (simp add: attempt_resume_def At_hash_req)
  show ?thesis
  proof (rule and_then_cases[OF a])
    assume "dedup_resume f w = (c, f', w')"
    then have "w' = w" by (auto simp: dedup_resume_def split: option.splits)
    then show ?thesis by simp
  next
    fix f0 w0
    assume "dedup_resume f w = (Next, f0, w0)" and b: "write_blob cfg ev p st f0 w0 = (c, f', w')"
    then have "w0 = w" by (auto simp: dedup_resume_def split: option.splits)
    with write_blob_tables[OF b] show ?thesis by simp
  qed
next
  case At_copy_hash_req
  with assms show ?thesis
    by (auto simp: attempt_resume_def dest: write_copy_hash_resume_tables)
qed

lemma run_attempt_tables:
  assumes "run_attempt cfg ev p i st susp w = (c, f, w1)"
  shows "pre_calc_tables w1 = pre_calc_tables w"
proof (cases susp)
  case None
  with assms have "attempt_once cfg ev p st (i + 1 = BLOB_FILE_CHANGED_RETRY_COUNT)
      (log_event (EvAttempt p i (i + 1 = BLOB_FILE_CHANGED_RETRY_COUNT)) w) = (c, f, w1)"
    by (simp add: run_attempt_def Let_def)
  from attempt_once_tables[OF this] show ?thesis by (simp add: pre_calc_tables_prims)
next
  case (Some lf)
  obtain l f0 where "lf = (l, f0)" by (cases lf) auto
  with Some assms have "attempt_resume cfg ev p st l f0 w = (c, f, w1)"
    by (simp add: run_attempt_def Let_def)
  from attempt_resume_tables[OF this] show ?thesis .
qed

text \<open>A stat that \<^verbatim>\<open>lstat\<close> can return for the path: the stat of the path at
  some observation of the source tree.\<close>

definition lstat_observed :: "env \<Rightarrow> path \<Rightarrow> stat_result \<Rightarrow> bool" where
  "lstat_observed ev p st \<longleftrightarrow> (\<exists>t nd. fs_at ev t p = Some nd \<and> n_stat nd = st)"

lemma lstat_observed_lstat: "lstat ev p w = (Some st, w') \<Longrightarrow> lstat_observed ev p st"
  by (auto simp: lstat_def lstat_observed_def)

lemma gocb_tables:
  "get_or_create_blob cfg ev p i st susp w = (r, w') \<Longrightarrow>
     pre_calc_tables w' = pre_calc_tables w
     \<and> (\<forall>blob st'. r = Returned (blob, st') \<longrightarrow> st' = st \<or> lstat_observed ev p st')
     \<and> (\<forall>q i' st' l' f'. r = Yielded q (GocbGen i' st' l' f') \<longrightarrow> st' = st \<or> lstat_observed ev p st')"
proof (induction cfg ev p i st susp w rule: get_or_create_blob.induct)
  case (1 cfg ev src_path i st susp w)
  show ?case
  proof (cases "i \<ge> BLOB_FILE_CHANGED_RETRY_COUNT")
    case True
    with "1.prems" show ?thesis by (auto simp: get_or_create_blob.simps)
  next
    case False
    hence i3: "i < 3" by (simp add: BLOB_FILE_CHANGED_RETRY_COUNT_def)
    obtain c f1 w1 where ra: "run_attempt cfg ev src_path i st susp w = (c, f1, w1)"
      by (cases "run_attempt cfg ev src_path i st susp w") auto
    note t1 = run_attempt_tables[OF ra]
    note unf = get_or_create_blob.simps[of cfg ev src_path i st susp w]
    show ?thesis
    proof (cases c)
      case Next
      with "1.prems" False ra t1 show ?thesis by (auto simp: unf)
    next
      case (Yield q0 l0)
      with "1.prems" False ra t1 show ?thesis by (auto simp: unf)
    next
      case (Return b)
      with "1.prems" False ra t1 show ?thesis by (auto simp: unf pre_calc_tables_prims)
    next
      case (Raise e)
      show ?thesis
      proof (cases "e = BlobFileChanged")
        case nb: False
        with Raise "1.prems" False ra t1 show ?thesis by (auto simp: unf)
      next
        case True
        obtain so w2 where ls: "lstat ev src_path w1 = (so, w2)" by (cases "lstat ev src_path w1") auto
        then have t2: "pre_calc_tables w2 = pre_calc_tables w" using t1
          by (auto simp: lstat_def pre_calc_tables_prims)
        show ?thesis
        proof (cases so)
          case None
          with True Raise "1.prems" False ra ls t2 show ?thesis by (auto simp: unf)
        next
          case (Some st2)
          with True Raise "1.prems" False ra ls
          have rec: "get_or_create_blob cfg ev src_path (i + 1) st2 None w2 = (r, w')"
            by (simp add: unf)
          from ls Some have ob: "lstat_observed ev src_path st2" by (auto dest: lstat_observed_lstat)
          from "1.IH"[OF False ra[symmetric] _ _ True ls[symmetric] _ rec] Raise Some
          have "pre_calc_tables w' = pre_calc_tables w2
             \<and> (\<forall>blob st'. r = Returned (blob, st') \<longrightarrow> st' = st2 \<or> lstat_observed ev src_path st')
             \<and> (\<forall>q i' st' l' f'. r = Yielded q (GocbGen i' st' l' f') \<longrightarrow>
                   st' = st2 \<or> lstat_observed ev src_path st')"
            by simp
          with t2 ob show ?thesis by auto
        qed
      qed
    qed
  qed
qed

text \<open>What the claim says of a row: its path is the database path of a source
  path \<open>p\<close>, and its mtime is \<open>st_mtime_ns // 1000\<close> of a stat of \<open>p\<close>, the one
  of the scan result or one that a re-stat of \<open>p\<close> returned.\<close>

definition stat_of_path :: "env \<Rightarrow> ScanResultEntry list \<Rightarrow> path \<Rightarrow> stat_result \<Rightarrow> bool" where
  "stat_of_path ev all_files p st \<longleftrightarrow> (p, st) \<in> set all_files \<or> lstat_observed ev p st"

definition row_mtime_ok :: "config \<Rightarrow> env \<Rightarrow> ScanResultEntry list \<Rightarrow> File \<Rightarrow> bool" where
  "row_mtime_ok cfg ev all_files fl \<longleftrightarrow>
     (\<exists>p st. relative_to_source cfg p = Some (f_path fl) \<and> stat_of_path ev all_files p st
             \<and> f_mtime fl = st_mtime_ns st div 1000)"

fun gen_stat_ok :: "env \<Rightarrow> ScanResultEntry list \<Rightarrow> create_file_gen \<Rightarrow> bool" where
  "gen_stat_ok ev all_files (CF_start p) = True"
| "gen_stat_ok ev all_files (CF_blob p (GocbGen i st l f)) = stat_of_path ev all_files p st"

definition tables_ok :: "config \<Rightarrow> ScanResultEntry list \<Rightarrow> world \<Rightarrow> bool" where
  "tables_ok cfg all_files w \<longleftrightarrow>
     (\<forall>p st. pre_calc_stats w p = Some st \<longrightarrow> (p, st) \<in> set all_files)
     \<and> (\<forall>p fl. pre_calc_reused_files w p = Some fl \<longrightarrow>
           (\<exists>st. (p, st) \<in> set all_files \<and> relative_to_source cfg p = Some (f_path fl)
                  \<and> f_mtime fl = st_mtime_ns st div 1000))"

lemma tables_ok_same:
  "pre_calc_tables w' = pre_calc_tables w \<Longrightarrow> tables_ok cfg af w \<Longrightarrow> tables_ok cfg af w'"
  by (simp add: tables_ok_def pre_calc_tables_def)

lemma create_file_row_row:
  "create_file_row cfg p st blob content w = (r, w') \<Longrightarrow>
     w' = w \<and> (\<forall>q g. r \<noteq> Yielded q g)
     \<and> (\<forall>fl. r = Returned fl \<longrightarrow>
           relative_to_source cfg p = Some (f_path fl) \<and> f_mtime fl = st_mtime_ns st div 1000)"
  by (auto simp: create_file_row_def session_create_file_def split: option.splits)

lemma forward_blob_row:
  "forward_blob cfg p (r1, w1) = (r, w') \<Longrightarrow>
     w' = w1
     \<and> (\<forall>fl. r = Returned fl \<longrightarrow>
           (\<exists>blob st'. r1 = Returned (blob, st') \<and> relative_to_source cfg p = Some (f_path fl)
                        \<and> f_mtime fl = st_mtime_ns st' div 1000))
     \<and> (\<forall>q g'. r = Yielded q g' \<longrightarrow> (\<exists>gg. r1 = Yielded q gg \<and> g' = CF_blob p gg))"
  by (cases r1) (auto simp: forward_blob_def dest!: create_file_row_row)

lemma forward_gocb_row:
  assumes g: "get_or_create_blob cfg ev p i st susp w = (r1, w1)"
    and f: "forward_blob cfg p (r1, w1) = (r, w')"
    and s: "stat_of_path ev af p st"
  shows "pre_calc_tables w' = pre_calc_tables w
       \<and> (\<forall>fl. r = Returned fl \<longrightarrow> row_mtime_ok cfg ev af fl)
       \<and> (\<forall>q g'. r = Yielded q g' \<longrightarrow> gen_stat_ok ev af g')"
proof -
  note a = gocb_tables[OF g] and b = forward_blob_row[OF f]
  have t: "pre_calc_tables w' = pre_calc_tables w" using a b by simp
  have r: "\<forall>fl. r = Returned fl \<longrightarrow> row_mtime_ok cfg ev af fl"
  proof (intro allI impI)
    fix fl assume "r = Returned fl"
    with b obtain blob st' where r1: "r1 = Returned (blob, st')"
      and rel: "relative_to_source cfg p = Some (f_path fl)"
      and mt: "f_mtime fl = st_mtime_ns st' div 1000" by blast
    from a r1 have "st' = st \<or> lstat_observed ev p st'" by blast
    with s have "stat_of_path ev af p st'" by (auto simp: stat_of_path_def)
    with rel mt show "row_mtime_ok cfg ev af fl" unfolding row_mtime_ok_def by blast
  qed
  have y: "\<forall>q g'. r = Yielded q g' \<longrightarrow> gen_stat_ok ev af g'"
  proof (intro allI impI)
    fix q g' assume "r = Yielded q g'"
    with b obtain gg where r1: "r1 = Yielded q gg" and g': "g' = CF_blob p gg" by blast
    obtain i' st' l' f' where gg: "gg = GocbGen i' st' l' f'" by (cases gg) auto
    from a r1 gg have "st' = st \<or> lstat_observed ev p st'" by blast
    with s have "stat_of_path ev af p st'" by (auto simp: stat_of_path_def)
    with g' gg show "gen_stat_ok ev af g'" by simp
  qed
  from t r y show ?thesis by blast
qed

lemma create_file_send_row:
  assumes cf: "create_file_send cfg ev g v w = (r, w')"
    and T: "tables_ok cfg af w" and G: "gen_stat_ok ev af g"
  shows "tables_ok cfg af w'
       \<and> (\<forall>fl. r = Returned fl \<longrightarrow> row_mtime_ok cfg ev af fl)
       \<and> (\<forall>q g'. r = Yielded q g' \<longrightarrow> gen_stat_ok ev af g')"
proof (cases g)
  case (CF_start p)
  show ?thesis
  proof (cases "pre_calc_reused_files w p")
    case (Some fl)
    with cf CF_start have "r = Returned fl" "w' = w" by (simp_all add: create_file_send_def)
    moreover have "row_mtime_ok cfg ev af fl"
    proof -
      from T Some obtain st where "(p, st) \<in> set af"
        "relative_to_source cfg p = Some (f_path fl)" "f_mtime fl = st_mtime_ns st div 1000"
        unfolding tables_ok_def by blast
      then show ?thesis unfolding row_mtime_ok_def stat_of_path_def by blast
    qed
    ultimately show ?thesis using T by simp
  next
    case None
    obtain so w1 where st: "(case pre_calc_stats w p of
                        Some st \<Rightarrow> (Some st, w\<lparr>pre_calc_stats := (pre_calc_stats w)(p := None)\<rparr>)
                      | None \<Rightarrow> lstat ev p w) = (so, w1)"
      by (cases "(case pre_calc_stats w p of
                        Some st \<Rightarrow> (Some st, w\<lparr>pre_calc_stats := (pre_calc_stats w)(p := None)\<rparr>)
                      | None \<Rightarrow> lstat ev p w)") auto
    have T1: "tables_ok cfg af w1" using st T
      by (auto simp: tables_ok_def lstat_def tick_def split: option.splits if_splits)
    have S1: "\<forall>st0. so = Some st0 \<longrightarrow> stat_of_path ev af p st0" using st T
      by (auto simp: tables_ok_def stat_of_path_def split: option.splits dest: lstat_observed_lstat)
    show ?thesis
    proof (cases so)
      case n: None
      with cf CF_start None st T1 show ?thesis by (auto simp: create_file_send_def)
    next
      case (Some st0)
      with S1 have s0: "stat_of_path ev af p st0" by simp
      show ?thesis
      proof (cases "S_ISREG (st_mode st0)")
        case True
        obtain r1 w2 where g: "get_or_create_blob cfg ev p 0 st0 None w1 = (r1, w2)"
          by (cases "get_or_create_blob cfg ev p 0 st0 None w1") auto
        with cf CF_start None st Some True have f: "forward_blob cfg p (r1, w2) = (r, w')"
          by (simp add: create_file_send_def)
        from forward_gocb_row[OF g f s0] tables_ok_same[OF _ T1] show ?thesis by blast
      next
        case False
        from cf CF_start None st Some False
        have "(\<exists>content w2. pre_calc_tables w2 = pre_calc_tables w1
                 \<and> create_file_row cfg p st0 None content w2 = (r, w'))
              \<or> (\<exists>e. r = Raised e \<and> pre_calc_tables w' = pre_calc_tables w1)"
          by (auto simp: create_file_send_def readlink_def pre_calc_tables_prims
                split: if_splits option.splits prod.splits)
        then show ?thesis
        proof
          assume "\<exists>content w2. pre_calc_tables w2 = pre_calc_tables w1
                 \<and> create_file_row cfg p st0 None content w2 = (r, w')"
          then obtain content w2 where e: "pre_calc_tables w2 = pre_calc_tables w1"
            and c: "create_file_row cfg p st0 None content w2 = (r, w')" by blast
          note cr = create_file_row_row[OF c]
          from cr e have "tables_ok cfg af w'" using tables_ok_same[OF _ T1] by simp
          moreover from cr s0 have "\<forall>fl. r = Returned fl \<longrightarrow> row_mtime_ok cfg ev af fl"
            unfolding row_mtime_ok_def by blast
          moreover from cr have "\<forall>q g'. r = Yielded q g' \<longrightarrow> gen_stat_ok ev af g'" by blast
          ultimately show ?thesis by blast
        next
          assume "\<exists>e. r = Raised e \<and> pre_calc_tables w' = pre_calc_tables w1"
          then show ?thesis using tables_ok_same[OF _ T1] by auto
        qed
      qed
    qed
  qed
next
  case (CF_blob p gg)
  obtain i st l f where gg: "gg = GocbGen i st l f" by (cases gg) auto
  from G CF_blob gg have s0: "stat_of_path ev af p st" by simp
  obtain r1 w2 where g: "get_or_create_blob cfg ev p i st (Some (l, f)) w = (r1, w2)"
    by (cases "get_or_create_blob cfg ev p i st (Some (l, f)) w") auto
  with cf CF_blob gg have f: "forward_blob cfg p (r1, w2) = (r, w')"
    by (simp add: create_file_send_def)
  from forward_gocb_row[OF g f s0] tables_ok_same[OF _ T] show ?thesis by blast
qed

text \<open>The scheduler holds rows and generators; the batch query manager moves
  generators between the fetchers and the queue and changes neither a row nor a
  generator. So a property \<open>R\<close> of all rows and \<open>G\<close> of all generators is kept.\<close>

definition sched_inv :: "(File \<Rightarrow> bool) \<Rightarrow> (create_file_gen \<Rightarrow> bool) \<Rightarrow> sched \<Rightarrow> bool" where
  "sched_inv R G s \<longleftrightarrow>
     (\<forall>fl \<in> set (files s). R fl)
     \<and> (\<forall>gv \<in> set (schedule_queue s). G (fst gv))
     \<and> (\<forall>t \<in> set (tasks (fetcher_size s)). G (snd t))
     \<and> (\<forall>t \<in> set (tasks (fetcher_hash s)). G (snd t))"

lemma size_batch_run_inv:
  "sched_inv R G s \<Longrightarrow> sched_inv R G (fst (size_batch_run (s, w)))"
  by (auto simp: size_batch_run_def Let_def fold_callback sched_inv_def)

lemma hash_batch_run_inv:
  "sched_inv R G s \<Longrightarrow> sched_inv R G (fst (hash_batch_run (s, w)))"
  by (auto simp: hash_batch_run_def Let_def fold_callback sched_inv_def)

lemma size_batch_run_tables:
  "pre_calc_tables (snd (size_batch_run (s, w))) = pre_calc_tables w"
  by (simp add: size_batch_run_def Let_def pre_calc_tables_prims)

lemma hash_batch_run_tables:
  "pre_calc_tables (snd (hash_batch_run (s, w))) = pre_calc_tables w"
  by (simp add: hash_batch_run_def Let_def pre_calc_tables_prims)

lemma flush_if_needed_inv:
  assumes "\<And>s w. sched_inv R G s \<Longrightarrow> sched_inv R G (fst (batch_run (s, w)))"
    and "sched_inv R G s"
  shows "sched_inv R G (fst (flush_if_needed ev fetcher batch_run (s, w)))"
  using assms by (auto simp: flush_if_needed_def time_now_def)

lemma flush_if_needed_tables:
  assumes "\<And>s w. pre_calc_tables (snd (batch_run (s, w))) = pre_calc_tables w"
  shows "pre_calc_tables (snd (flush_if_needed ev fetcher batch_run (s, w))) = pre_calc_tables w"
  using assms by (auto simp: flush_if_needed_def time_now_def pre_calc_tables_prims)

lemma flush_inv:
  assumes "\<And>s w. sched_inv R G s \<Longrightarrow> sched_inv R G (fst (batch_run (s, w)))"
    and "sched_inv R G s"
  shows "sched_inv R G (fst (flush fetcher batch_run (s, w)))"
  using assms by (auto simp: flush_def)

lemma flush_tables:
  assumes "\<And>s w. pre_calc_tables (snd (batch_run (s, w))) = pre_calc_tables w"
  shows "pre_calc_tables (snd (flush fetcher batch_run (s, w))) = pre_calc_tables w"
  using assms by (auto simp: flush_def)

text \<open>The invariant of the coordinator loop for the claim: every row appended
  so far and every generator waiting has a stat of its path, and the tables
  hold scanned stats and prior rows found under the key of a scanned stat.\<close>

definition mt_inv :: "config \<Rightarrow> env \<Rightarrow> ScanResultEntry list \<Rightarrow> state \<Rightarrow> bool" where
  "mt_inv cfg ev af x \<longleftrightarrow>
     sched_inv (row_mtime_ok cfg ev af) (gen_stat_ok ev af) (fst x) \<and> tables_ok cfg af (snd x)"

lemma mt_inv_pair:
  "mt_inv cfg ev af (s, w) \<longleftrightarrow>
     sched_inv (row_mtime_ok cfg ev af) (gen_stat_ok ev af) s \<and> tables_ok cfg af w"
  by (simp add: mt_inv_def)

lemma size_flush_if_needed_mt:
  assumes "mt_inv cfg ev af (s, w)"
  shows "mt_inv cfg ev af (flush_if_needed ev fetcher_size size_batch_run (s, w))"
proof -
  from assms have S: "sched_inv (row_mtime_ok cfg ev af) (gen_stat_ok ev af) s"
    and T: "tables_ok cfg af w" by (simp_all add: mt_inv_pair)
  have "sched_inv (row_mtime_ok cfg ev af) (gen_stat_ok ev af)
          (fst (flush_if_needed ev fetcher_size size_batch_run (s, w)))"
    using S by (intro flush_if_needed_inv size_batch_run_inv)
  moreover have "tables_ok cfg af (snd (flush_if_needed ev fetcher_size size_batch_run (s, w)))"
    using T flush_if_needed_tables[of size_batch_run ev fetcher_size s w, OF size_batch_run_tables]
    by (auto intro: tables_ok_same)
  ultimately show ?thesis by (simp add: mt_inv_def)
qed

lemma hash_flush_if_needed_mt:
  assumes "mt_inv cfg ev af (s, w)"
  shows "mt_inv cfg ev af (flush_if_needed ev fetcher_hash hash_batch_run (s, w))"
proof -
  from assms have S: "sched_inv (row_mtime_ok cfg ev af) (gen_stat_ok ev af) s"
    and T: "tables_ok cfg af w" by (simp_all add: mt_inv_pair)
  have "sched_inv (row_mtime_ok cfg ev af) (gen_stat_ok ev af)
          (fst (flush_if_needed ev fetcher_hash hash_batch_run (s, w)))"
    using S by (intro flush_if_needed_inv hash_batch_run_inv)
  moreover have "tables_ok cfg af (snd (flush_if_needed ev fetcher_hash hash_batch_run (s, w)))"
    using T flush_if_needed_tables[of hash_batch_run ev fetcher_hash s w, OF hash_batch_run_tables]
    by (auto intro: tables_ok_same)
  ultimately show ?thesis by (simp add: mt_inv_def)
qed

lemma size_flush_mt:
  assumes "mt_inv cfg ev af (s, w)"
  shows "mt_inv cfg ev af (flush fetcher_size size_batch_run (s, w))"
proof -
  from assms have S: "sched_inv (row_mtime_ok cfg ev af) (gen_stat_ok ev af) s"
    and T: "tables_ok cfg af w" by (simp_all add: mt_inv_pair)
  have "sched_inv (row_mtime_ok cfg ev af) (gen_stat_ok ev af)
          (fst (flush fetcher_size size_batch_run (s, w)))"
    using S by (intro flush_inv size_batch_run_inv)
  moreover have "tables_ok cfg af (snd (flush fetcher_size size_batch_run (s, w)))"
    using T flush_tables[of size_batch_run fetcher_size s w, OF size_batch_run_tables]
    by (auto intro: tables_ok_same)
  ultimately show ?thesis by (simp add: mt_inv_def)
qed

lemma hash_flush_mt:
  assumes "mt_inv cfg ev af (s, w)"
  shows "mt_inv cfg ev af (flush fetcher_hash hash_batch_run (s, w))"
proof -
  from assms have S: "sched_inv (row_mtime_ok cfg ev af) (gen_stat_ok ev af) s"
    and T: "tables_ok cfg af w" by (simp_all add: mt_inv_pair)
  have "sched_inv (row_mtime_ok cfg ev af) (gen_stat_ok ev af)
          (fst (flush fetcher_hash hash_batch_run (s, w)))"
    using S by (intro flush_inv hash_batch_run_inv)
  moreover have "tables_ok cfg af (snd (flush fetcher_hash hash_batch_run (s, w)))"
    using T flush_tables[of hash_batch_run fetcher_hash s w, OF hash_batch_run_tables]
    by (auto intro: tables_ok_same)
  ultimately show ?thesis by (simp add: mt_inv_def)
qed

lemma bqm_flush_if_needed_mt: "mt_inv cfg ev af x \<Longrightarrow> mt_inv cfg ev af (bqm_flush_if_needed ev x)"
proof -
  assume a: "mt_inv cfg ev af x"
  obtain s w where x: "x = (s, w)" by (cases x) auto
  obtain s1 w1 where b: "flush_if_needed ev fetcher_size size_batch_run (s, w) = (s1, w1)"
    by (cases "flush_if_needed ev fetcher_size size_batch_run (s, w)") auto
  from size_flush_if_needed_mt[of cfg ev af s w] a x b have "mt_inv cfg ev af (s1, w1)" by simp
  from hash_flush_if_needed_mt[OF this] x b show ?thesis by (simp add: bqm_flush_if_needed_def)
qed

lemma bqm_flush_mt: "mt_inv cfg ev af x \<Longrightarrow> mt_inv cfg ev af (bqm_flush x)"
proof -
  assume a: "mt_inv cfg ev af x"
  obtain s w where x: "x = (s, w)" by (cases x) auto
  obtain s1 w1 where b: "flush fetcher_size size_batch_run (s, w) = (s1, w1)"
    by (cases "flush fetcher_size size_batch_run (s, w)") auto
  from size_flush_mt[of cfg ev af s w] a x b have "mt_inv cfg ev af (s1, w1)" by simp
  from hash_flush_mt[OF this] x b show ?thesis by (simp add: bqm_flush_def)
qed

lemma end_of_iteration_mt: "mt_inv cfg ev af x \<Longrightarrow> mt_inv cfg ev af (end_of_iteration ev x)"
  using bqm_flush_if_needed_mt[of cfg ev af x] bqm_flush_mt[of cfg ev af "bqm_flush_if_needed ev x"]
  by (auto simp: end_of_iteration_def split: prod.splits)

lemma bqm_query_mt:
  assumes "gen_stat_ok ev af g" and "mt_inv cfg ev af (s, w)"
  shows "mt_inv cfg ev af (bqm_query ev req g (s, w))"
proof -
  from assms(2) have S: "sched_inv (row_mtime_ok cfg ev af) (gen_stat_ok ev af) s"
    and T: "tables_ok cfg af w" by (simp_all add: mt_inv_pair)
  from T have T1: "tables_ok cfg af (tick w)"
    by (auto intro: tables_ok_same simp: pre_calc_tables_prims)
  show ?thesis
  proof (cases req)
    case (SizeReq sz)
    let ?fs1 = "(fetcher_size s)\<lparr>tasks := tasks (fetcher_size s) @ [(sz, g)],
                   keys := insert sz (keys (fetcher_size s))\<rparr>"
    let ?fs2 = "if length (tasks ?fs1) = 1 then ?fs1\<lparr>first_task_scheduled_time := time_at ev (clock w)\<rparr>
                else ?fs1"
    have e: "bqm_query ev req g (s, w)
               = flush_if_needed ev fetcher_size size_batch_run (s\<lparr>fetcher_size := ?fs2\<rparr>, tick w)"
      by (simp add: bqm_query_def SizeReq size_query_def Let_def time_now_def)
    have "sched_inv (row_mtime_ok cfg ev af) (gen_stat_ok ev af) (s\<lparr>fetcher_size := ?fs2\<rparr>)"
      using S assms(1) by (auto simp: sched_inv_def)
    with T1 have "mt_inv cfg ev af (s\<lparr>fetcher_size := ?fs2\<rparr>, tick w)" by (simp add: mt_inv_pair)
    from size_flush_if_needed_mt[OF this] e show ?thesis by simp
  next
    case (HashReq h)
    let ?fh1 = "(fetcher_hash s)\<lparr>tasks := tasks (fetcher_hash s) @ [(h, g)],
                   keys := insert h (keys (fetcher_hash s))\<rparr>"
    let ?fh2 = "if length (tasks ?fh1) = 1 then ?fh1\<lparr>first_task_scheduled_time := time_at ev (clock w)\<rparr>
                else ?fh1"
    have e: "bqm_query ev req g (s, w)
               = flush_if_needed ev fetcher_hash hash_batch_run (s\<lparr>fetcher_hash := ?fh2\<rparr>, tick w)"
      by (simp add: bqm_query_def HashReq hash_query_def Let_def time_now_def)
    have "sched_inv (row_mtime_ok cfg ev af) (gen_stat_ok ev af) (s\<lparr>fetcher_hash := ?fh2\<rparr>)"
      using S assms(1) by (auto simp: sched_inv_def)
    with T1 have "mt_inv cfg ev af (s\<lparr>fetcher_hash := ?fh2\<rparr>, tick w)" by (simp add: mt_inv_pair)
    from hash_flush_if_needed_mt[OF this] e show ?thesis by simp
  qed
qed

lemma loop_body_mt:
  assumes "loop_body cfg ev x = (r, x')" and "mt_inv cfg ev af x"
  shows "mt_inv cfg ev af x'"
proof -
  obtain s w where x: "x = (s, w)" by (cases x) auto
  from assms(2) x have S: "sched_inv (row_mtime_ok cfg ev af) (gen_stat_ok ev af) s"
    and T: "tables_ok cfg af w" by (simp_all add: mt_inv_pair)
  show ?thesis
  proof (cases "schedule_queue s")
    case Nil
    with assms x show ?thesis by (auto simp: loop_body_def)
  next
    case (Cons gv q)
    obtain g v where gv: "gv = (g, v)" by (cases gv) auto
    let ?s0 = "s\<lparr>schedule_queue := q\<rparr>"
    from S Cons gv have G: "gen_stat_ok ev af g"
      and S0: "sched_inv (row_mtime_ok cfg ev af) (gen_stat_ok ev af) ?s0"
      by (auto simp: sched_inv_def)
    obtain r1 w1 where cf: "create_file_send cfg ev g v w = (r1, w1)"
      by (cases "create_file_send cfg ev g v w") auto
    note row = create_file_send_row[OF cf T G]
    from row S0 have I0: "mt_inv cfg ev af (?s0, w1)" by (simp add: mt_inv_pair)
    show ?thesis
    proof (cases r1)
      case (Yielded req g')
      with row have "gen_stat_ok ev af g'" by simp
      from bqm_query_mt[OF this I0]
      have "mt_inv cfg ev af (end_of_iteration ev (bqm_query ev req g' (?s0, w1)))"
        by (rule end_of_iteration_mt)
      with assms(1) x Cons gv cf Yielded show ?thesis by (simp add: loop_body_def)
    next
      case (Returned fl)
      with row have "row_mtime_ok cfg ev af fl" by simp
      with S0 have "sched_inv (row_mtime_ok cfg ev af) (gen_stat_ok ev af) (?s0\<lparr>files := files ?s0 @ [fl]\<rparr>)"
        by (auto simp: sched_inv_def)
      with row have "mt_inv cfg ev af (?s0\<lparr>files := files ?s0 @ [fl]\<rparr>, w1)" by (simp add: mt_inv_pair)
      then have "mt_inv cfg ev af (end_of_iteration ev (?s0\<lparr>files := files ?s0 @ [fl]\<rparr>, w1))"
        by (rule end_of_iteration_mt)
      with assms(1) x Cons gv cf Returned show ?thesis by (simp add: loop_body_def)
    next
      case (Raised e)
      from I0 have "mt_inv cfg ev af (end_of_iteration ev (?s0, w1))" by (rule end_of_iteration_mt)
      with assms(1) x Cons gv cf Raised I0 show ?thesis
        by (auto simp: loop_body_def Let_def split: exn.splits if_splits)
    qed
  qed
qed

lemma create_files_loop_mt:
  "create_files_loop cfg ev x = (r, x') \<Longrightarrow> mt_inv cfg ev af x \<Longrightarrow> mt_inv cfg ev af x'"
proof (induction cfg ev x rule: create_files_loop.induct)
  case (1 cfg ev x)
  show ?case
  proof (cases "length (schedule_queue (fst x)) > 0")
    case False
    with "1.prems" show ?thesis by (simp add: create_files_loop.simps[of cfg ev x])
  next
    case True
    obtain r1 x1 where lb: "loop_body cfg ev x = (r1, x1)" by (cases "loop_body cfg ev x") auto
    note inv1 = loop_body_mt[OF lb "1.prems"(2)]
    show ?thesis
    proof (cases r1)
      case (Some e)
      with "1.prems"(1) True lb inv1 show ?thesis
        by (auto simp: create_files_loop.simps[of cfg ev x])
    next
      case None
      with "1.prems"(1) True lb have rec: "create_files_loop cfg ev x1 = (r, x')"
        by (simp add: create_files_loop.simps[of cfg ev x])
      from "1.IH"[OF True lb[symmetric] None rec inv1] show ?thesis .
    qed
  qed
qed

subsection \<open>The tables after the stages before the loop\<close>

lemma fold_stats:
  "fold (\<lambda>(p, st) m. m(p \<mapsto> st)) es m0 p = Some st \<Longrightarrow> (p, st) \<in> set es \<or> m0 p = Some st"
proof (induction es arbitrary: m0)
  case Nil
  then show ?case by simp
next
  case (Cons e es)
  obtain a b where e: "e = (a, b)" by (cases e) auto
  from Cons.prems have "fold (\<lambda>(p, st) m. m(p \<mapsto> st)) es (m0(a \<mapsto> b)) p = Some st"
    by (simp only: e fold_Cons o_apply split_conv)
  from Cons.IH[OF this] show ?case by (auto simp: e split: if_splits)
qed

lemma fold_update_mem:
  "fold (\<lambda>x m. if P x then m(kf x \<mapsto> x) else m) xs m0 k = Some y
     \<Longrightarrow> (y \<in> set xs \<and> P y) \<or> m0 k = Some y"
proof (induction xs arbitrary: m0)
  case Nil
  then show ?case by simp
next
  case (Cons x xs)
  from Cons.prems
  have "fold (\<lambda>x m. if P x then m(kf x \<mapsto> x) else m) xs (if P x then m0(kf x \<mapsto> x) else m0) k = Some y"
    by simp
  from Cons.IH[OF this] show ?case by (auto split: if_splits)
qed

lemma fold_update_dom:
  "(m0 k \<noteq> None \<or> (\<exists>x \<in> set xs. P x \<and> kf x = k))
     \<Longrightarrow> fold (\<lambda>x m. if P x then m(kf x \<mapsto> x) else m) xs m0 k \<noteq> None"
  by (induction xs arbitrary: m0) auto

lemma stat_to_files_mem:
  "stat_to_files bf k = Some fl \<Longrightarrow> fl \<in> set bf \<and> S_ISREG (f_mode fl)"
  unfolding stat_to_files_def by (drule fold_update_mem) simp

lemma stat_to_files_complete:
  "fl \<in> set bf \<Longrightarrow> S_ISREG (f_mode fl) \<Longrightarrow> stat_to_files bf (key_of_file fl) \<noteq> None"
  unfolding stat_to_files_def by (rule fold_update_dom) auto

lemma reuse_entries_tables:
  "reuse_entries cfg m es w = (r, w') \<Longrightarrow>
     pre_calc_stats w' = pre_calc_stats w
     \<and> (\<forall>p fl. pre_calc_reused_files w' p = Some fl \<longrightarrow>
           pre_calc_reused_files w p = Some fl
           \<or> (\<exists>st rel. (p, st) \<in> set es \<and> S_ISREG (st_mode st)
                 \<and> relative_to_source cfg p = Some rel \<and> m (key_of_entry rel st) = Some fl))"
proof (induction es arbitrary: w)
  case Nil
  then show ?case by simp
next
  case (Cons e es)
  obtain p st where e: "e = (p, st)" by (cases e) auto
  have step: "pre_calc_stats w' = pre_calc_stats w
     \<and> (\<forall>q fl. pre_calc_reused_files w' q = Some fl \<longrightarrow>
           pre_calc_reused_files w q = Some fl
           \<or> (\<exists>st' rel'. (q, st') \<in> set ((p, st) # es) \<and> S_ISREG (st_mode st')
                 \<and> relative_to_source cfg q = Some rel' \<and> m (key_of_entry rel' st') = Some fl))"
    if rec: "reuse_entries cfg m es w0 = (r, w')"
      and s0: "pre_calc_stats w0 = pre_calc_stats w"
      and r0: "\<And>q fl. pre_calc_reused_files w0 q = Some fl \<Longrightarrow>
                 pre_calc_reused_files w q = Some fl
                 \<or> (q = p \<and> S_ISREG (st_mode st)
                      \<and> (\<exists>rel. relative_to_source cfg p = Some rel \<and> m (key_of_entry rel st) = Some fl))"
    for w0
  proof -
    from Cons.IH[OF rec]
    have a: "pre_calc_stats w' = pre_calc_stats w0"
      and b: "\<forall>q fl. pre_calc_reused_files w' q = Some fl \<longrightarrow>
           pre_calc_reused_files w0 q = Some fl
           \<or> (\<exists>st rel. (q, st) \<in> set es \<and> S_ISREG (st_mode st)
                 \<and> relative_to_source cfg q = Some rel \<and> m (key_of_entry rel st) = Some fl)"
      by simp_all
    have "\<forall>q fl. pre_calc_reused_files w' q = Some fl \<longrightarrow>
           pre_calc_reused_files w q = Some fl
           \<or> (\<exists>st' rel'. (q, st') \<in> set ((p, st) # es) \<and> S_ISREG (st_mode st')
                 \<and> relative_to_source cfg q = Some rel' \<and> m (key_of_entry rel' st') = Some fl)"
    proof (intro allI impI)
      fix q fl assume "pre_calc_reused_files w' q = Some fl"
      with b have "pre_calc_reused_files w0 q = Some fl
           \<or> (\<exists>st rel. (q, st) \<in> set es \<and> S_ISREG (st_mode st)
                 \<and> relative_to_source cfg q = Some rel \<and> m (key_of_entry rel st) = Some fl)"
        by blast
      then show "pre_calc_reused_files w q = Some fl
           \<or> (\<exists>st' rel'. (q, st') \<in> set ((p, st) # es) \<and> S_ISREG (st_mode st')
                 \<and> relative_to_source cfg q = Some rel' \<and> m (key_of_entry rel' st') = Some fl)"
      proof
        assume "pre_calc_reused_files w0 q = Some fl"
        from r0[OF this] show ?thesis by auto
      next
        assume "\<exists>st rel. (q, st) \<in> set es \<and> S_ISREG (st_mode st)
                 \<and> relative_to_source cfg q = Some rel \<and> m (key_of_entry rel st) = Some fl"
        then show ?thesis by auto
      qed
    qed
    with a s0 show ?thesis by simp
  qed
  show ?case
  proof (cases "S_ISREG (st_mode st)")
    case False
    with Cons.prems e have "reuse_entries cfg m es w = (r, w')" by simp
    from step[OF this] show ?thesis unfolding e by simp
  next
    case True
    show ?thesis
    proof (cases "relative_to_source cfg p")
      case None
      with True Cons.prems e show ?thesis by simp
    next
      case (Some rel)
      show ?thesis
      proof (cases "m (key_of_entry rel st)")
        case n: None
        with True Some Cons.prems e have "reuse_entries cfg m es w = (r, w')" by simp
        from step[OF this] show ?thesis unfolding e by simp
      next
        case (Some fl0)
        let ?w1 = "w\<lparr>pre_calc_reused_files := (pre_calc_reused_files w)(p \<mapsto> fl0)\<rparr>"
        from True \<open>relative_to_source cfg p = Some rel\<close> Some Cons.prems e
        have rec: "reuse_entries cfg m es ?w1 = (r, w')" by simp
        have "pre_calc_reused_files w q = Some fl
                 \<or> (q = p \<and> S_ISREG (st_mode st)
                      \<and> (\<exists>rel. relative_to_source cfg p = Some rel \<and> m (key_of_entry rel st) = Some fl))"
          if "pre_calc_reused_files ?w1 q = Some fl" for q fl
          using that True \<open>relative_to_source cfg p = Some rel\<close> Some by (cases "q = p") auto
        from step[OF rec _ this] show ?thesis unfolding e by simp
      qed
    qed
  qed
qed

lemma reuse_entries_complete:
  "reuse_entries cfg m es w = (r, w') \<Longrightarrow>
     (\<forall>q. pre_calc_reused_files w q \<noteq> None \<longrightarrow> pre_calc_reused_files w' q \<noteq> None)
     \<and> (r = None \<longrightarrow>
          (\<forall>q st rel. (q, st) \<in> set es \<and> S_ISREG (st_mode st) \<and> relative_to_source cfg q = Some rel
               \<and> m (key_of_entry rel st) \<noteq> None \<longrightarrow> pre_calc_reused_files w' q \<noteq> None))"
proof (induction es arbitrary: w)
  case Nil
  then show ?case by simp
next
  case (Cons e es)
  obtain p st where e: "e = (p, st)" by (cases e) auto
  have step: "(\<forall>q. pre_calc_reused_files w q \<noteq> None \<longrightarrow> pre_calc_reused_files w' q \<noteq> None)
     \<and> (r = None \<longrightarrow>
          (\<forall>q st' rel'. (q, st') \<in> set ((p, st) # es) \<and> S_ISREG (st_mode st')
               \<and> relative_to_source cfg q = Some rel'
               \<and> m (key_of_entry rel' st') \<noteq> None \<longrightarrow> pre_calc_reused_files w' q \<noteq> None))"
    if rec: "reuse_entries cfg m es w0 = (r, w')"
      and m0: "\<And>q. pre_calc_reused_files w q \<noteq> None \<Longrightarrow> pre_calc_reused_files w0 q \<noteq> None"
      and h0: "\<And>rel. S_ISREG (st_mode st) \<Longrightarrow> relative_to_source cfg p = Some rel \<Longrightarrow>
                 m (key_of_entry rel st) \<noteq> None \<Longrightarrow> pre_calc_reused_files w0 p \<noteq> None"
    for w0
  proof -
    from Cons.IH[OF rec]
    have a: "\<forall>q. pre_calc_reused_files w0 q \<noteq> None \<longrightarrow> pre_calc_reused_files w' q \<noteq> None"
      and b: "r = None \<longrightarrow>
          (\<forall>q st rel. (q, st) \<in> set es \<and> S_ISREG (st_mode st) \<and> relative_to_source cfg q = Some rel
               \<and> m (key_of_entry rel st) \<noteq> None \<longrightarrow> pre_calc_reused_files w' q \<noteq> None)"
      by simp_all
    have mono: "\<forall>q. pre_calc_reused_files w q \<noteq> None \<longrightarrow> pre_calc_reused_files w' q \<noteq> None"
      using a m0 by blast
    have "r = None \<longrightarrow>
          (\<forall>q st' rel'. (q, st') \<in> set ((p, st) # es) \<and> S_ISREG (st_mode st')
               \<and> relative_to_source cfg q = Some rel'
               \<and> m (key_of_entry rel' st') \<noteq> None \<longrightarrow> pre_calc_reused_files w' q \<noteq> None)"
    proof (intro impI allI)
      fix q st' rel'
      assume r: "r = None"
        and h: "(q, st') \<in> set ((p, st) # es) \<and> S_ISREG (st_mode st')
               \<and> relative_to_source cfg q = Some rel' \<and> m (key_of_entry rel' st') \<noteq> None"
      show "pre_calc_reused_files w' q \<noteq> None"
      proof (cases "(q, st') = (p, st)")
        case True
        with h h0[of rel'] have "pre_calc_reused_files w0 p \<noteq> None" by simp
        with a True show ?thesis by simp
      next
        case False
        with h have "(q, st') \<in> set es" by auto
        with b r h show ?thesis by blast
      qed
    qed
    with mono show ?thesis by simp
  qed
  show ?case
  proof (cases "S_ISREG (st_mode st)")
    case False
    with Cons.prems e have rec: "reuse_entries cfg m es w = (r, w')" by simp
    show ?thesis unfolding e by (rule step[OF rec]) (use False in auto)
  next
    case True
    show ?thesis
    proof (cases "relative_to_source cfg p")
      case None
      with True Cons.prems e have "r \<noteq> None" "w' = w" by auto
      then show ?thesis by auto
    next
      case (Some rel)
      show ?thesis
      proof (cases "m (key_of_entry rel st)")
        case n: None
        with True Some Cons.prems e have rec: "reuse_entries cfg m es w = (r, w')" by simp
        show ?thesis unfolding e by (rule step[OF rec]) (use Some n in auto)
      next
        case (Some fl0)
        let ?w1 = "w\<lparr>pre_calc_reused_files := (pre_calc_reused_files w)(p \<mapsto> fl0)\<rparr>"
        from True \<open>relative_to_source cfg p = Some rel\<close> Some Cons.prems e
        have rec: "reuse_entries cfg m es ?w1 = (r, w')" by simp
        show ?thesis unfolding e by (rule step[OF rec]) auto
      qed
    qed
  qed
qed

lemma hash_entries_tables:
  "hash_entries cfg ev ex es w = (r, w') \<Longrightarrow> pre_calc_tables w' = pre_calc_tables w"
proof (induction es arbitrary: w)
  case Nil
  then show ?case by simp
next
  case (Cons e es)
  obtain p st where e: "e = (p, st)" by (cases e) auto
  show ?case
  proof (cases "ex (st_size st)")
    case None
    with Cons.prems e show ?thesis by simp
  next
    case (Some b)
    show ?thesis
    proof (cases b)
      case False
      with Some Cons.prems e have "hash_entries cfg ev ex es w = (r, w')" by simp
      from Cons.IH[OF this] show ?thesis .
    next
      case True
      obtain co w1 where rs: "read_source ev p w = (co, w1)" by (cases "read_source ev p w") auto
      then have t1: "pre_calc_tables w1 = pre_calc_tables w"
        by (auto simp: read_source_def pre_calc_tables_prims)
      show ?thesis
      proof (cases co)
        case None
        with Some True rs Cons.prems e t1 show ?thesis by auto
      next
        case (Some c)
        let ?w2 = "w1\<lparr>pre_calc_hashes := (pre_calc_hashes w1)(p \<mapsto> calc_bytes_hash cfg c)\<rparr>"
        from \<open>ex (st_size st) = Some b\<close> True rs Some Cons.prems e
        have "hash_entries cfg ev ex es ?w2 = (r, w')" by simp
        from Cons.IH[OF this] t1 show ?thesis by (simp add: pre_calc_tables_prims)
      qed
    qed
  qed
qed

lemma pre_calculate_hash_tables:
  "pre_calculate_hash cfg ev af w = (r, w') \<Longrightarrow> pre_calc_tables w' = pre_calc_tables w"
  by (auto simp: pre_calculate_hash_def Let_def pre_calc_tables_prims dest!: hash_entries_tables)

text \<open>The state before \<^verbatim>\<open>__pre_calculate_hash\<close> (lines 704--708).\<close>

lemma prepare_cases:
  assumes "prepare cfg ev af w = (r, w1)"
  obtains r0 w0 where
    "(if reuse_stat_unchanged_file cfg
      then reuse_unchanged_files cfg ev af (pre_calculate_stats af w)
      else (None, pre_calculate_stats af w)) = (r0, w0)"
    "pre_calc_tables w1 = pre_calc_tables w0" "r = None \<longrightarrow> r0 = None"
proof -
  obtain r0 w0 where a: "(if reuse_stat_unchanged_file cfg
      then reuse_unchanged_files cfg ev af (pre_calculate_stats af w)
      else (None, pre_calculate_stats af w)) = (r0, w0)"
    by (cases "(if reuse_stat_unchanged_file cfg
      then reuse_unchanged_files cfg ev af (pre_calculate_stats af w)
      else (None, pre_calculate_stats af w))") auto
  have "pre_calc_tables w1 = pre_calc_tables w0 \<and> (r = None \<longrightarrow> r0 = None)"
  proof (cases r0)
    case (Some e)
    with assms a show ?thesis by (simp add: prepare_def)
  next
    case None
    show ?thesis
    proof (cases "effective_concurrency cfg > 1")
      case False
      with None assms a show ?thesis by (simp add: prepare_def)
    next
      case True
      with None assms a have "pre_calculate_hash cfg ev af w0 = (r, w1)" by (simp add: prepare_def)
      from pre_calculate_hash_tables[OF this] None show ?thesis by simp
    qed
  qed
  with a that show ?thesis by blast
qed

lemma prepare_reused:
  assumes "prepare cfg ev af w = (r, w1)" and "pre_calc_reused_files w = Map.empty"
  shows "(\<forall>p st. pre_calc_stats w1 p = Some st \<longrightarrow> (p, st) \<in> set af)
       \<and> (\<forall>p fl. pre_calc_reused_files w1 p = Some fl \<longrightarrow>
             (\<exists>st rel bf. (p, st) \<in> set af \<and> S_ISREG (st_mode st) \<and> reuse_stat_unchanged_file cfg
                 \<and> last_backup_files ev = Some bf \<and> fl \<in> set bf
                 \<and> relative_to_source cfg p = Some rel \<and> key_of_file fl = key_of_entry rel st))"
proof (rule prepare_cases[OF assms(1)])
  fix r0 w0
  assume a: "(if reuse_stat_unchanged_file cfg
      then reuse_unchanged_files cfg ev af (pre_calculate_stats af w)
      else (None, pre_calculate_stats af w)) = (r0, w0)"
    and t: "pre_calc_tables w1 = pre_calc_tables w0"
  let ?w = "pre_calculate_stats af w"
  have s0: "\<forall>p st. pre_calc_stats ?w p = Some st \<longrightarrow> (p, st) \<in> set af"
    by (auto simp: pre_calculate_stats_def dest: fold_stats)
  have e0: "pre_calc_reused_files ?w = Map.empty" using assms(2) by (simp add: pre_calculate_stats_def)
  have "(\<forall>p st. pre_calc_stats w0 p = Some st \<longrightarrow> (p, st) \<in> set af)
       \<and> (\<forall>p fl. pre_calc_reused_files w0 p = Some fl \<longrightarrow>
             (\<exists>st rel bf. (p, st) \<in> set af \<and> S_ISREG (st_mode st) \<and> reuse_stat_unchanged_file cfg
                 \<and> last_backup_files ev = Some bf \<and> fl \<in> set bf
                 \<and> relative_to_source cfg p = Some rel \<and> key_of_file fl = key_of_entry rel st))"
  proof (cases "reuse_stat_unchanged_file cfg")
    case False
    with a s0 e0 show ?thesis by auto
  next
    case True
    show ?thesis
    proof (cases "last_backup_files ev")
      case None
      with True a s0 e0 show ?thesis by (auto simp: reuse_unchanged_files_def)
    next
      case (Some bf)
      with True a have re: "reuse_entries cfg (stat_to_files bf) af ?w = (r0, w0)"
        by (simp add: reuse_unchanged_files_def)
      note rt = reuse_entries_tables[OF re]
      have "\<forall>p fl. pre_calc_reused_files w0 p = Some fl \<longrightarrow>
             (\<exists>st rel bf. (p, st) \<in> set af \<and> S_ISREG (st_mode st) \<and> reuse_stat_unchanged_file cfg
                 \<and> last_backup_files ev = Some bf \<and> fl \<in> set bf
                 \<and> relative_to_source cfg p = Some rel \<and> key_of_file fl = key_of_entry rel st)"
      proof (intro allI impI)
        fix p fl assume "pre_calc_reused_files w0 p = Some fl"
        with rt e0 obtain st rel where m: "(p, st) \<in> set af" "S_ISREG (st_mode st)"
          "relative_to_source cfg p = Some rel" "stat_to_files bf (key_of_entry rel st) = Some fl"
          by fastforce
        from stat_to_files_key[OF m(4)] stat_to_files_mem[OF m(4)] m True Some
        show "\<exists>st rel bf. (p, st) \<in> set af \<and> S_ISREG (st_mode st) \<and> reuse_stat_unchanged_file cfg
                 \<and> last_backup_files ev = Some bf \<and> fl \<in> set bf
                 \<and> relative_to_source cfg p = Some rel \<and> key_of_file fl = key_of_entry rel st"
          by blast
      qed
      with rt s0 show ?thesis by simp
    qed
  qed
  with t show ?thesis by (simp add: pre_calc_tables_def)
qed

lemma prepare_tables_ok:
  assumes "prepare cfg ev af w = (r, w1)" and "pre_calc_reused_files w = Map.empty"
  shows "tables_ok cfg af w1"
proof -
  note pr = prepare_reused[OF assms]
  have "\<forall>p fl. pre_calc_reused_files w1 p = Some fl \<longrightarrow>
           (\<exists>st. (p, st) \<in> set af \<and> relative_to_source cfg p = Some (f_path fl)
                  \<and> f_mtime fl = st_mtime_ns st div 1000)"
  proof (intro allI impI)
    fix p fl assume "pre_calc_reused_files w1 p = Some fl"
    with pr obtain st rel where "(p, st) \<in> set af" "relative_to_source cfg p = Some rel"
      "key_of_file fl = key_of_entry rel st" by blast
    then show "\<exists>st. (p, st) \<in> set af \<and> relative_to_source cfg p = Some (f_path fl)
                  \<and> f_mtime fl = st_mtime_ns st div 1000"
      by (auto simp: key_of_file_def key_of_entry_def)
  qed
  with pr show ?thesis by (simp add: tables_ok_def)
qed

lemma prepare_complete:
  assumes "prepare cfg ev af w = (None, w1)" and "reuse_stat_unchanged_file cfg"
    and "last_backup_files ev = Some bf" and "prior \<in> set bf"
    and "(p, st) \<in> set af" and "S_ISREG (st_mode st)" and "relative_to_source cfg p = Some rel"
    and "key_of_file prior = key_of_entry rel st"
  shows "pre_calc_reused_files w1 p \<noteq> None"
proof (rule prepare_cases[OF assms(1)])
  fix r0 w0
  assume a: "(if reuse_stat_unchanged_file cfg
      then reuse_unchanged_files cfg ev af (pre_calculate_stats af w)
      else (None, pre_calculate_stats af w)) = (r0, w0)"
    and t: "pre_calc_tables w1 = pre_calc_tables w0" and n: "None = None \<longrightarrow> r0 = None"
  from a n assms(2,3) have re: "reuse_entries cfg (stat_to_files bf) af (pre_calculate_stats af w) = (None, w0)"
    by (simp add: reuse_unchanged_files_def)
  from assms(8) have "f_mode prior = st_mode st" by (simp add: key_of_file_def key_of_entry_def)
  with assms(6) have "S_ISREG (f_mode prior)" by simp
  from stat_to_files_complete[OF assms(4) this] assms(8)
  have "stat_to_files bf (key_of_entry rel st) \<noteq> None" by simp
  with reuse_entries_complete[OF re] assms(5,6,7) have "pre_calc_reused_files w0 p \<noteq> None" by blast
  with t show ?thesis by (simp add: pre_calc_tables_def)
qed

lemma run_rows_mtime:
  assumes "run cfg ev af w = (Inr fls, w')" and "pre_calc_reused_files w = Map.empty"
    and "fl \<in> set fls"
  shows "row_mtime_ok cfg ev af fl"
proof -
  obtain s0 w0 where is0: "initial_state ev w = (s0, w0)" by (cases "initial_state ev w") auto
  then have s0: "schedule_queue s0 = []" "tasks (fetcher_size s0) = []" "tasks (fetcher_hash s0) = []"
    "files s0 = []" and w0: "pre_calc_reused_files w0 = Map.empty"
    using assms(2)
    by (auto simp: initial_state_def Let_def time_now_def fetcher_init_def tick_def)
  from assms(1) is0 have cb: "create_backup cfg ev af (s0, w0) = (Inr fls, w')"
    by (auto simp: run_def split: prod.splits sum.splits)
  obtain r1 w1 where p: "prepare cfg ev af w0 = (r1, w1)" by (cases "prepare cfg ev af w0") auto
  from cb p have r1: "r1 = None" by (auto simp: create_backup_def split: option.splits)
  let ?x = "(s0\<lparr>schedule_queue := schedule_queue s0 @ map (\<lambda>(p, st). (CF_start p, None)) af\<rparr>, w1)"
  obtain r2 s2 w2 where l: "create_files_loop cfg ev ?x = (r2, s2, w2)"
    by (cases "create_files_loop cfg ev ?x") auto
  with cb p r1 have fls: "fls = files s2"
    by (auto simp: create_backup_def split: option.splits)
  have "sched_inv (row_mtime_ok cfg ev af) (gen_stat_ok ev af)
          (s0\<lparr>schedule_queue := schedule_queue s0 @ map (\<lambda>(p, st). (CF_start p, None)) af\<rparr>)"
    using s0 by (auto simp: sched_inv_def)
  with prepare_tables_ok[OF p w0] have "mt_inv cfg ev af ?x" by (simp add: mt_inv_pair)
  from create_files_loop_mt[OF l this] have "sched_inv (row_mtime_ok cfg ev af) (gen_stat_ok ev af) s2"
    by (simp add: mt_inv_pair)
  with fls assms(3) show ?thesis by (simp add: sched_inv_def)
qed

lemma floor_is_trunc:
  "a div 1000 = trunc_div a 1000 \<longleftrightarrow> 0 \<le> a \<or> 1000 dvd a"
proof (cases "0 \<le> a")
  case True
  then show ?thesis by (auto simp: trunc_div_def sgn_if)
next
  case False
  then have "trunc_div a 1000 = - ((- a) div 1000)" by (simp add: trunc_div_def sgn_if)
  also have "\<dots> = (if a mod 1000 = 0 then a div 1000 else a div 1000 + 1)"
    by (simp add: zdiv_zminus1_eq_if)
  finally show ?thesis using False by (auto simp: dvd_eq_mod_eq_0)
qed

text \<open>
  C6, against the claim as stated: for a modification time before the epoch
  the row does not hold the quotient truncated toward zero. The scanned stat of
  \<open>a.txt\<close> has \<open>st_mtime_ns = -1500\<close>; the row of the run stores \<open>-2\<close>,
  truncation gives \<open>-1\<close>.
\<close>

theorem mtime_truncation_counterexample:
  "fst (run example_config (static_env [''a.txt'' \<mapsto> regular_file 2 ''hi''])
          [(''a.txt'', st_regular 2 (- 1500))] empty_world)
     = Inr [session_create_file ''a.txt'' (st_regular 2 (- 1500)) None (- 2)
              (Some \<lparr>hash = ''hi'', compress = ''plain'', raw_size = 2, stored_size = 2\<rparr>)]
   \<and> f_mtime (session_create_file ''a.txt'' (st_regular 2 (- 1500)) None (- 2)
              (Some \<lparr>hash = ''hi'', compress = ''plain'', raw_size = 2, stored_size = 2\<rparr>)) = - 2
   \<and> trunc_div (st_mtime_ns (st_regular 2 (- 1500))) 1000 = - 1"
  by (simp add: run_defs example_defs Let_def trunc_div_def)

text \<open>
  C6, amended. Every File row of a run that ends without an exception is the
  row of a source path \<open>p\<close> and its mtime is \<open>st_mtime_ns\<close> divided by 1000
  and rounded down (Python's \<^verbatim>\<open>//\<close>), for a stat of \<open>p\<close>: the stat of the scan
  result, or a stat that a re-stat of \<open>p\<close> returned. This holds for the rows
  made from a stat and for the rows reused from the last backup: a row is
  reused for a scanned path only when it is a row of the last backup whose
  path, blob size, mode, uid, gid and mtime are the key of the scanned stat,
  the mtime of the key being \<open>st_mtime_ns\<close> divided by 1000 and rounded down,
  and the reused row is returned as it is. Conversely a scanned regular file
  whose key is the key of a row of the last backup is reused. The rounded-down
  quotient is the truncated one exactly when \<open>st_mtime_ns\<close> is not negative or
  a multiple of 1000.
\<close>

theorem file_row_mtime_floor_division:
  "(run cfg ev all_files w = (Inr fls, w') \<and> pre_calc_reused_files w = Map.empty \<and> fl \<in> set fls
      \<longrightarrow> (\<exists>p st. relative_to_source cfg p = Some (f_path fl)
                   \<and> ((p, st) \<in> set all_files \<or> (\<exists>t nd. fs_at ev t p = Some nd \<and> n_stat nd = st))
                   \<and> f_mtime fl = st_mtime_ns st div 1000))
   \<and> (prepare cfg ev all_files w = (ro, w1) \<and> pre_calc_reused_files w = Map.empty
        \<and> pre_calc_reused_files w1 q = Some prior
      \<longrightarrow> (\<exists>st rel bf. (q, st) \<in> set all_files \<and> S_ISREG (st_mode st)
               \<and> last_backup_files ev = Some bf \<and> prior \<in> set bf
               \<and> relative_to_source cfg q = Some rel
               \<and> f_path prior = rel \<and> f_blob_raw_size prior = Some (st_size st)
               \<and> f_mode prior = st_mode st \<and> f_uid prior = st_uid st \<and> f_gid prior = st_gid st
               \<and> f_mtime prior = st_mtime_ns st div 1000))
   \<and> (prepare cfg ev all_files w = (None, w1) \<and> reuse_stat_unchanged_file cfg
        \<and> last_backup_files ev = Some bf \<and> prior \<in> set bf
        \<and> (q, sq) \<in> set all_files \<and> S_ISREG (st_mode sq) \<and> relative_to_source cfg q = Some rel
        \<and> f_path prior = rel \<and> f_blob_raw_size prior = Some (st_size sq)
        \<and> f_mode prior = st_mode sq \<and> f_uid prior = st_uid sq \<and> f_gid prior = st_gid sq
        \<and> f_mtime prior = st_mtime_ns sq div 1000
      \<longrightarrow> pre_calc_reused_files w1 q \<noteq> None)
   \<and> (pre_calc_reused_files w2 q = Some prior
      \<longrightarrow> create_file_send cfg ev (CF_start q) v w2 = (Returned prior, w2))
   \<and> (st_mtime_ns sq div 1000 = trunc_div (st_mtime_ns sq) 1000
        \<longleftrightarrow> 0 \<le> st_mtime_ns sq \<or> 1000 dvd st_mtime_ns sq)"
proof (intro conjI impI)
  assume a: "run cfg ev all_files w = (Inr fls, w') \<and> pre_calc_reused_files w = Map.empty \<and> fl \<in> set fls"
  then have "row_mtime_ok cfg ev all_files fl" using run_rows_mtime by blast
  then show "\<exists>p st. relative_to_source cfg p = Some (f_path fl)
                   \<and> ((p, st) \<in> set all_files \<or> (\<exists>t nd. fs_at ev t p = Some nd \<and> n_stat nd = st))
                   \<and> f_mtime fl = st_mtime_ns st div 1000"
    unfolding row_mtime_ok_def stat_of_path_def lstat_observed_def .
next
  assume a: "prepare cfg ev all_files w = (ro, w1) \<and> pre_calc_reused_files w = Map.empty
        \<and> pre_calc_reused_files w1 q = Some prior"
  then have p: "prepare cfg ev all_files w = (ro, w1)" and e: "pre_calc_reused_files w = Map.empty"
    and r: "pre_calc_reused_files w1 q = Some prior" by simp_all
  from prepare_reused[OF p e] r obtain st rel bf where m: "(q, st) \<in> set all_files"
    "S_ISREG (st_mode st)" "last_backup_files ev = Some bf" "prior \<in> set bf"
    "relative_to_source cfg q = Some rel" "key_of_file prior = key_of_entry rel st"
    by blast
  from m(6) have "f_path prior = rel \<and> f_blob_raw_size prior = Some (st_size st)
               \<and> f_mode prior = st_mode st \<and> f_uid prior = st_uid st \<and> f_gid prior = st_gid st
               \<and> f_mtime prior = st_mtime_ns st div 1000"
    by (simp add: key_of_file_def key_of_entry_def)
  with m show "\<exists>st rel bf. (q, st) \<in> set all_files \<and> S_ISREG (st_mode st)
               \<and> last_backup_files ev = Some bf \<and> prior \<in> set bf
               \<and> relative_to_source cfg q = Some rel
               \<and> f_path prior = rel \<and> f_blob_raw_size prior = Some (st_size st)
               \<and> f_mode prior = st_mode st \<and> f_uid prior = st_uid st \<and> f_gid prior = st_gid st
               \<and> f_mtime prior = st_mtime_ns st div 1000"
    by blast
next
  assume a: "prepare cfg ev all_files w = (None, w1) \<and> reuse_stat_unchanged_file cfg
        \<and> last_backup_files ev = Some bf \<and> prior \<in> set bf
        \<and> (q, sq) \<in> set all_files \<and> S_ISREG (st_mode sq) \<and> relative_to_source cfg q = Some rel
        \<and> f_path prior = rel \<and> f_blob_raw_size prior = Some (st_size sq)
        \<and> f_mode prior = st_mode sq \<and> f_uid prior = st_uid sq \<and> f_gid prior = st_gid sq
        \<and> f_mtime prior = st_mtime_ns sq div 1000"
  then have k: "key_of_file prior = key_of_entry rel sq"
    by (simp add: key_of_file_def key_of_entry_def)
  from a have "prepare cfg ev all_files w = (None, w1)" "reuse_stat_unchanged_file cfg"
    "last_backup_files ev = Some bf" "prior \<in> set bf" "(q, sq) \<in> set all_files"
    "S_ISREG (st_mode sq)" "relative_to_source cfg q = Some rel" by simp_all
  from prepare_complete[OF this k] show "pre_calc_reused_files w1 q \<noteq> None" .
next
  assume "pre_calc_reused_files w2 q = Some prior"
  then show "create_file_send cfg ev (CF_start q) v w2 = (Returned prior, w2)"
    by (simp add: create_file_send_def)
next
  show "st_mtime_ns sq div 1000 = trunc_div (st_mtime_ns sq) 1000
        \<longleftrightarrow> 0 \<le> st_mtime_ns sq \<or> 1000 dvd st_mtime_ns sq"
    by (rule floor_is_trunc)
qed

text \<open>The scanned stat of \<open>b.txt\<close> has \<open>st_mtime_ns = 5999\<close>; the row of the
  run stores 5.\<close>

lemma run_mtime_example:
  "fst (run example_config (static_env [''b.txt'' \<mapsto> regular_file 2 ''yo''])
          [(''b.txt'', st_regular 2 5999)] empty_world)
     = Inr [session_create_file ''b.txt'' (st_regular 2 5999) None 5
              (Some \<lparr>hash = ''yo'', compress = ''plain'', raw_size = 2, stored_size = 2\<rparr>)]"
  by (simp add: run_defs example_defs Let_def)

theorem file_row_mtime_floor_division_witness:
  "pre_calc_reused_files empty_world = Map.empty
   \<and> fst (run example_config (static_env [''b.txt'' \<mapsto> regular_file 2 ''yo''])
          [(''b.txt'', st_regular 2 5999)] empty_world)
       = Inr [session_create_file ''b.txt'' (st_regular 2 5999) None 5
              (Some \<lparr>hash = ''yo'', compress = ''plain'', raw_size = 2, stored_size = 2\<rparr>)]
   \<and> (\<exists>p st. relative_to_source example_config p
                = Some (f_path (session_create_file ''b.txt'' (st_regular 2 5999) None 5
                     (Some \<lparr>hash = ''yo'', compress = ''plain'', raw_size = 2, stored_size = 2\<rparr>)))
            \<and> ((p, st) \<in> set [(''b.txt'', st_regular 2 5999)]
                 \<or> (\<exists>t nd. fs_at (static_env [''b.txt'' \<mapsto> regular_file 2 ''yo'']) t p = Some nd
                        \<and> n_stat nd = st))
            \<and> f_mtime (session_create_file ''b.txt'' (st_regular 2 5999) None 5
                     (Some \<lparr>hash = ''yo'', compress = ''plain'', raw_size = 2, stored_size = 2\<rparr>))
                = st_mtime_ns st div 1000)"
proof -
  let ?ev = "static_env [''b.txt'' \<mapsto> regular_file 2 ''yo'']"
  let ?af = "[(''b.txt'', st_regular 2 5999)]"
  let ?row = "session_create_file ''b.txt'' (st_regular 2 5999) None 5
              (Some \<lparr>hash = ''yo'', compress = ''plain'', raw_size = 2, stored_size = 2\<rparr>)"
  let ?r = "run example_config ?ev ?af empty_world"
  have r: "?r = (Inr [?row], snd ?r)" using run_mtime_example by (metis prod.collapse)
  have e: "pre_calc_reused_files empty_world = Map.empty" by (simp add: empty_world_def)
  have m: "?row \<in> set [?row]" by simp
  note t = file_row_mtime_floor_division[where cfg = example_config and ev = ?ev
      and all_files = ?af and w = empty_world and fls = "[?row]" and w' = "snd ?r" and fl = ?row,
      THEN conjunct1, THEN mp, OF conjI[OF r conjI[OF e m]]]
  from e run_mtime_example t show ?thesis by (intro conjI)
qed

section \<open>The blob of the empty content (C8)\<close>

text \<open>The fingerprint of the empty content, and how many blobs of a list have a
  given fingerprint.\<close>

definition empty_hash :: "config \<Rightarrow> hash" where
  "empty_hash cfg = calc_bytes_hash cfg []"

definition count_hash :: "hash \<Rightarrow> Blob list \<Rightarrow> nat" where
  "count_hash h bs = length (filter (\<lambda>b. hash b = h) bs)"

text \<open>The blobs that were added to the catalog between the worlds \<open>w\<close> and \<open>w'\<close>.\<close>

definition committed_blobs :: "world \<Rightarrow> world \<Rightarrow> Blob list" where
  "committed_blobs w w' = drop (length (db_blobs w)) (db_blobs w')"

text \<open>The policy of the decision table for a file of size 0.\<close>

definition empty_file_policy :: "bool \<Rightarrow> bool \<Rightarrow> bool \<Rightarrow> BlobCreatePolicy" where
  "empty_file_policy final_retry has_pre_hash cow =
     (if final_retry then copy_hash
      else if has_pre_hash \<or> cow then default_policy
      else read_all)"

text \<open>The blob columns of a row name a blob of the catalog.\<close>

definition row_blob_in :: "Blob list \<Rightarrow> File \<Rightarrow> bool" where
  "row_blob_in db fl \<longleftrightarrow> (case f_blob_hash fl of None \<Rightarrow> True | Some h \<Rightarrow> h \<in> hash ` set db)"

text \<open>
  The catalog \<open>db'\<close> extends \<open>db\<close> by at most one blob with the fingerprint \<open>H\<close>,
  and by none when \<open>db\<close> has one.
\<close>

definition ext_db :: "hash \<Rightarrow> Blob list \<Rightarrow> Blob list \<Rightarrow> bool" where
  "ext_db H db db' \<longleftrightarrow>
     take (length db) db' = db
     \<and> (count_hash H (drop (length db) db') = 0
        \<or> (count_hash H (drop (length db) db') = 1 \<and> H \<notin> hash ` set db))"

text \<open>One step of the catalog: nothing, or one blob appended whose fingerprint,
  when it is \<open>H\<close>, was not in the catalog.\<close>

definition db_step :: "hash \<Rightarrow> Blob list \<Rightarrow> Blob list \<Rightarrow> bool" where
  "db_step H db db' \<longleftrightarrow>
     db' = db \<or> (\<exists>b. db' = db @ [b] \<and> (hash b = H \<longrightarrow> H \<notin> hash ` set db))"

lemma count_hash_simps [simp]:
  "count_hash H [] = 0"
  "count_hash H (b # bs) = (if hash b = H then Suc (count_hash H bs) else count_hash H bs)"
  "count_hash H (as @ bs) = count_hash H as + count_hash H bs"
  by (simp_all add: count_hash_def)

lemma count_hash_0: "count_hash H bs = 0 \<longleftrightarrow> H \<notin> hash ` set bs"
  by (induction bs) auto

lemma ext_db_append:
  "ext_db H db (db @ added) \<longleftrightarrow>
     count_hash H added = 0 \<or> (count_hash H added = 1 \<and> H \<notin> hash ` set db)"
  by (simp add: ext_db_def)

lemma ext_db_obtain:
  assumes "ext_db H db db'"
  obtains added where "db' = db @ added"
    "count_hash H added = 0 \<or> (count_hash H added = 1 \<and> H \<notin> hash ` set db)"
proof -
  from assms have "db' = db @ drop (length db) db'"
    by (metis append_take_drop_id ext_db_def)
  with assms that show ?thesis by (auto simp: ext_db_def)
qed

lemma ext_db_refl: "ext_db H db db"
  by (simp add: ext_db_def)

lemma ext_db_step:
  assumes "ext_db H db0 db" and "db_step H db db'"
  shows "ext_db H db0 db'"
proof -
  from assms(1) obtain added where a: "db = db0 @ added"
    "count_hash H added = 0 \<or> (count_hash H added = 1 \<and> H \<notin> hash ` set db0)"
    by (rule ext_db_obtain)
  from assms(2) show ?thesis unfolding db_step_def
  proof
    assume "db' = db"
    with assms(1) show ?thesis by simp
  next
    assume "\<exists>b. db' = db @ [b] \<and> (hash b = H \<longrightarrow> H \<notin> hash ` set db)"
    then obtain b where b: "db' = db @ [b]" "hash b = H \<longrightarrow> H \<notin> hash ` set db" by blast
    have "db' = db0 @ (added @ [b])" using a b by simp
    moreover have "count_hash H (added @ [b]) = 0
        \<or> (count_hash H (added @ [b]) = 1 \<and> H \<notin> hash ` set db0)"
    proof (cases "hash b = H")
      case False
      with a(2) show ?thesis by simp
    next
      case True
      with b(2) a(1) have "H \<notin> hash ` set db0" "H \<notin> hash ` set added" by auto
      with True show ?thesis by (simp add: count_hash_0)
    qed
    ultimately show ?thesis by (simp only: ext_db_append)
  qed
qed

lemma db_step_mono: "db_step H db db' \<Longrightarrow> set db \<subseteq> set db'"
  by (auto simp: db_step_def)

subsection \<open>What one attempt does to the catalog and the hash cache\<close>

text \<open>
  The hash cache agrees with the catalog: a fingerprint \<open>H\<close> that the cache
  knows as absent has no blob, and every blob of the cache is in the catalog.
\<close>

definition cache_ok :: "hash \<Rightarrow> world \<Rightarrow> bool" where
  "cache_ok H w \<longleftrightarrow>
     (blob_by_hash_cache w H = Some None \<longrightarrow> H \<notin> hash ` set (db_blobs w))
     \<and> (\<forall>h b. blob_by_hash_cache w h = Some (Some b) \<longrightarrow> b \<in> set (db_blobs w))"

text \<open>No content of more than 10 MiB has the fingerprint \<open>H\<close>.\<close>

definition small_only :: "config \<Rightarrow> hash \<Rightarrow> bool" where
  "small_only cfg H \<longleftrightarrow> (\<forall>c. calc_bytes_hash cfg c = H \<longrightarrow> int (length c) \<le> HASH_ONCE_SIZE_THRESHOLD)"

text \<open>
  The effect of a piece of \<^verbatim>\<open>attempt_once\<close>: the hash cache and the table of
  reused files are as before; the catalog is as before unless the piece
  returns a blob, which then is a blob of the catalog or was appended to it,
  and a blob appended with the fingerprint \<open>H\<close> is the first with it.
\<close>

definition attempt_effect :: "hash \<Rightarrow> world \<Rightarrow> ctl \<Rightarrow> world \<Rightarrow> bool" where
  "attempt_effect H w c w' \<longleftrightarrow>
     blob_by_hash_cache w' = blob_by_hash_cache w
     \<and> pre_calc_reused_files w' = pre_calc_reused_files w
     \<and> (case c of
          Return b \<Rightarrow>
            (db_blobs w' = db_blobs w \<and> b \<in> set (db_blobs w))
            \<or> (db_blobs w' = db_blobs w @ [b] \<and> (hash b = H \<longrightarrow> H \<notin> hash ` set (db_blobs w)))
        | _ \<Rightarrow> db_blobs w' = db_blobs w)"

text \<open>A request matches the \<^verbatim>\<open>yield\<close> it comes from: a size request is made
  for a stat size above 10 MiB only, a hash request asks for the hash the
  attempt holds.\<close>

definition yield_ok :: "stat_result \<Rightarrow> BqmReq \<Rightarrow> label \<Rightarrow> locals \<Rightarrow> bool" where
  "yield_ok st q l f \<longleftrightarrow>
     (case q of
        SizeReq sz \<Rightarrow> l = At_size_req \<and> st_size st > HASH_ONCE_SIZE_THRESHOLD
      | HashReq h \<Rightarrow> l \<noteq> At_size_req \<and> blob_hash f = Some h)"

lemma cache_get_Some: "cache_get w h = Some b \<longleftrightarrow> blob_by_hash_cache w h = Some (Some b)"
  by (auto simp: cache_get_def split: option.splits)

lemma cache_get_None:
  "cache_get w h = None \<longleftrightarrow> blob_by_hash_cache w h = None \<or> blob_by_hash_cache w h = Some None"
  by (auto simp: cache_get_def split: option.splits)

lemma kept_prims:
  "blob_by_hash_cache (tick w) = blob_by_hash_cache w"
  "blob_by_hash_cache (remove_file dp w) = blob_by_hash_cache w"
  "blob_by_hash_cache (write_file dp c w) = blob_by_hash_cache w"
  "blob_by_hash_cache (add_remove_file_rollbacker dp w) = blob_by_hash_cache w"
  "blob_by_hash_cache (log_event e w) = blob_by_hash_cache w"
  "db_blobs (tick w) = db_blobs w"
  "db_blobs (remove_file dp w) = db_blobs w"
  "db_blobs (write_file dp c w) = db_blobs w"
  "db_blobs (add_remove_file_rollbacker dp w) = db_blobs w"
  "db_blobs (log_event e w) = db_blobs w"
  "pre_calc_reused_files (tick w) = pre_calc_reused_files w"
  "pre_calc_reused_files (remove_file dp w) = pre_calc_reused_files w"
  "pre_calc_reused_files (write_file dp c w) = pre_calc_reused_files w"
  "pre_calc_reused_files (add_remove_file_rollbacker dp w) = pre_calc_reused_files w"
  "pre_calc_reused_files (log_event e w) = pre_calc_reused_files w"
  by (simp_all add: tick_def remove_file_def write_file_def add_remove_file_rollbacker_def log_event_def)

lemma cache_get_prims:
  "cache_get (tick w) = cache_get w"
  "cache_get (remove_file dp w) = cache_get w"
  "cache_get (write_file dp c w) = cache_get w"
  "cache_get (add_remove_file_rollbacker dp w) = cache_get w"
  "cache_get (log_event e w) = cache_get w"
  by (simp_all add: cache_get_def[abs_def] kept_prims)

lemma commit_blob_effect:
  assumes "commit_blob f h r s w = (c, f', w')"
  shows "\<exists>b. c = Return b \<and> hash b = h \<and> db_blobs w' = db_blobs w @ [b]
           \<and> blob_by_hash_cache w' = blob_by_hash_cache w
           \<and> pre_calc_reused_files w' = pre_calc_reused_files w"
  using assms by (auto simp: commit_blob_def create_blob_def Let_def)

lemma commit_blob_attempt_effect:
  assumes "commit_blob f h r s w1 = (c, f', w')"
    and "blob_by_hash_cache w1 = blob_by_hash_cache w"
    and "pre_calc_reused_files w1 = pre_calc_reused_files w"
    and "db_blobs w1 = db_blobs w"
    and "h = H \<longrightarrow> H \<notin> hash ` set (db_blobs w)"
  shows "attempt_effect H w c w'"
  using commit_blob_effect[OF assms(1)] assms(2-) by (auto simp: attempt_effect_def)

lemma write_copy_hash_effect:
  assumes "write_copy_hash cfg ev p f w = (c, f', w')" and "cache_ok H w"
  shows "attempt_effect H w c w' \<and> (\<forall>q l. c = Yield q l \<longrightarrow> yield_ok st q l f')"
  using assms
  by (auto simp: write_copy_hash_def read_source_def Let_def attempt_effect_def yield_ok_def
        kept_prims cache_get_prims cache_get_Some cache_ok_def
        split: if_splits option.splits prod.splits)

lemma write_copy_hash_resume_effect:
  assumes "write_copy_hash_resume cfg p f w = (c, f', w')" and "cache_ok H w"
    and "blob_hash f = Some H \<longrightarrow> blob_by_hash_cache w H \<noteq> None"
  shows "attempt_effect H w c w'"
proof (cases "blob_hash f")
  case None
  with assms(1) show ?thesis
    by (auto simp: write_copy_hash_resume_def attempt_effect_def kept_prims)
next
  case (Some h)
  show ?thesis
  proof (cases "cache_get w h")
    case (Some b)
    with \<open>blob_hash f = Some h\<close> assms(1,2) show ?thesis
      by (auto simp: write_copy_hash_resume_def attempt_effect_def kept_prims cache_get_Some cache_ok_def)
  next
    case None
    have fresh: "h = H \<longrightarrow> H \<notin> hash ` set (db_blobs w)"
      using None assms(2,3) \<open>blob_hash f = Some h\<close>
      by (auto simp: cache_get_None cache_ok_def)
    show ?thesis
    proof (cases "disk w (TempPath p)")
      case n: None
      with None \<open>blob_hash f = Some h\<close> assms(1) show ?thesis
        by (auto simp: write_copy_hash_resume_def bp_rba_def attempt_effect_def kept_prims
              add_remove_file_rollbacker_def log_event_def)
    next
      case (Some c0)
      let ?w1 = "add_remove_file_rollbacker (BlobPath h) w"
      let ?z = "compressed cfg (compress_method f) c0"
      let ?w2 = "remove_file (TempPath p) (write_file (BlobPath h) ?z ?w1)"
      have d: "disk ?w1 (TempPath p) = Some c0" using Some
        by (simp add: add_remove_file_rollbacker_def log_event_def)
      from None \<open>blob_hash f = Some h\<close> assms(1) d
      have "commit_blob f h (int (length c0)) (int (length ?z)) ?w2 = (c, f', w')"
        by (simp add: write_copy_hash_resume_def bp_rba_def Let_def)
      then show ?thesis
        by (rule commit_blob_attempt_effect) (simp_all add: kept_prims fresh)
    qed
  qed
qed

lemma write_hash_once_effect:
  assumes "write_hash_once cfg ev p st f w = (c, f', w')" and "small_only cfg H"
    and "blob_hash f = None \<longrightarrow> st_size st > HASH_ONCE_SIZE_THRESHOLD"
  shows "attempt_effect H w c w'"
proof (cases "blob_hash f")
  case (Some h)
  with assms(1) show ?thesis by (auto simp: write_hash_once_def attempt_effect_def)
next
  case None
  obtain co w1 where rs: "read_source ev p w = (co, w1)" by (cases "read_source ev p w") auto
  then have w1: "blob_by_hash_cache w1 = blob_by_hash_cache w" "db_blobs w1 = db_blobs w"
      "pre_calc_reused_files w1 = pre_calc_reused_files w"
    by (auto simp: read_source_def kept_prims)
  show ?thesis
  proof (cases co)
    case n: None
    with None rs assms(1) w1 show ?thesis
      by (auto simp: write_hash_once_def attempt_effect_def kept_prims)
  next
    case (Some c0)
    let ?z = "compressed cfg (compress_method f) c0"
    let ?w2 = "write_file (TempPath p) ?z w1"
    show ?thesis
    proof (cases "check_changes st f (int (length c0)) None")
      case True
      with None rs Some assms(1) w1 show ?thesis
        by (auto simp: write_hash_once_def attempt_effect_def kept_prims Let_def)
    next
      case False
      then have len: "int (length c0) = st_size st" by (simp add: check_changes_def)
      let ?h = "calc_bytes_hash cfg c0"
      have nh: "?h \<noteq> H" using assms(2,3) None len by (auto simp: small_only_def)
      let ?w3 = "add_remove_file_rollbacker (BlobPath ?h) ?w2"
      let ?w4 = "(if os_replace_ok cfg
                  then remove_file (TempPath p) (write_file (BlobPath ?h) ?z ?w3)
                  else write_file (BlobPath ?h) ?z ?w3)"
      from None rs Some False assms(1)
      have "commit_blob (f\<lparr>blob_hash := Some ?h\<rparr>) ?h (int (length c0)) (int (length ?z))
              (remove_file (TempPath p) ?w4) = (c, f', w')"
        by (simp add: write_hash_once_def bp_rba_def Let_def)
      then show ?thesis
        by (rule commit_blob_attempt_effect) (simp_all add: kept_prims w1 nh)
    qed
  qed
qed

lemma write_known_hash_effect:
  assumes "write_known_hash cfg ev p st f w = (c, f', w')"
    and "blob_hash f = Some H \<longrightarrow> H \<notin> hash ` set (db_blobs w)"
  shows "attempt_effect H w c w'"
proof (cases "blob_hash f")
  case None
  with assms(1) show ?thesis by (auto simp: write_known_hash_def attempt_effect_def)
next
  case (Some h)
  have fresh: "h = H \<longrightarrow> H \<notin> hash ` set (db_blobs w)" using assms(2) Some by simp
  let ?w1 = "add_remove_file_rollbacker (BlobPath h) w"
  show ?thesis
  proof (cases "policy f = Some read_all")
    case True
    show ?thesis
    proof (cases "blob_content f")
      case None
      with True Some assms(1) show ?thesis
        by (auto simp: write_known_hash_def bp_rba_def attempt_effect_def kept_prims)
    next
      case c0: (Some c0)
      let ?z = "compressed cfg (compress_method f) c0"
      from True Some c0 assms(1)
      have "commit_blob f h (int (length c0)) (int (length ?z)) (write_file (BlobPath h) ?z ?w1) = (c, f', w')"
        by (simp add: write_known_hash_def bp_rba_def Let_def)
      then show ?thesis
        by (rule commit_blob_attempt_effect) (simp_all add: kept_prims fresh)
    qed
  next
    case ra: False
    show ?thesis
    proof (cases "policy f = Some default_policy")
      case False
      with ra Some assms(1) show ?thesis
        by (auto simp: write_known_hash_def bp_rba_def attempt_effect_def kept_prims)
    next
      case True
      obtain co w2 where rs: "read_source ev p ?w1 = (co, w2)" by (cases "read_source ev p ?w1") auto
      then have w2: "blob_by_hash_cache w2 = blob_by_hash_cache w" "db_blobs w2 = db_blobs w"
          "pre_calc_reused_files w2 = pre_calc_reused_files w"
        by (auto simp: read_source_def kept_prims)
      show ?thesis
      proof (cases co)
        case None
        with ra True Some rs assms(1) w2 show ?thesis
          by (auto simp: write_known_hash_def bp_rba_def attempt_effect_def split: if_splits)
      next
        case c0: (Some c0)
        show ?thesis
        proof (cases "check_changes st f (int (length c0)) (Some (calc_bytes_hash cfg c0))")
          case True
          with ra \<open>policy f = Some default_policy\<close> Some rs c0 assms(1) w2 show ?thesis
            by (auto simp: write_known_hash_def bp_rba_def attempt_effect_def kept_prims Let_def
                  split: if_splits)
        next
          case False
          let ?z = "compressed cfg (compress_method f) c0"
          from ra \<open>policy f = Some default_policy\<close> Some rs c0 False assms(1)
          have "commit_blob f h (int (length c0)) (int (length c0)) (write_file (BlobPath h) c0 w2) = (c, f', w')
              \<or> commit_blob f h (int (length c0)) (int (length ?z)) (write_file (BlobPath h) ?z w2) = (c, f', w')"
            by (auto simp: write_known_hash_def bp_rba_def Let_def split: if_splits)
          then show ?thesis
          proof
            assume "commit_blob f h (int (length c0)) (int (length c0)) (write_file (BlobPath h) c0 w2) = (c, f', w')"
            then show ?thesis
              by (rule commit_blob_attempt_effect) (simp_all add: kept_prims w2 fresh)
          next
            assume "commit_blob f h (int (length c0)) (int (length ?z)) (write_file (BlobPath h) ?z w2) = (c, f', w')"
            then show ?thesis
              by (rule commit_blob_attempt_effect) (simp_all add: kept_prims w2 fresh)
          qed
        qed
      qed
    qed
  qed
qed

lemma write_blob_effect:
  assumes "write_blob cfg ev p st f w = (c, f', w')" and "small_only cfg H" and "cache_ok H w"
    and "policy f = Some hash_once \<and> blob_hash f = None \<longrightarrow> st_size st > HASH_ONCE_SIZE_THRESHOLD"
    and "policy f \<noteq> Some copy_hash \<and> blob_hash f = Some H \<longrightarrow> H \<notin> hash ` set (db_blobs w)"
  shows "attempt_effect H w c w' \<and> (\<forall>q l. c = Yield q l \<longrightarrow> yield_ok st q l f')"
proof (cases "policy f = Some copy_hash")
  case True
  with assms(1) have "write_copy_hash cfg ev p f w = (c, f', w')" by (simp add: write_blob_def)
  from write_copy_hash_effect[OF this assms(3)] show ?thesis .
next
  case nc: False
  show ?thesis
  proof (cases "policy f = Some hash_once")
    case True
    with nc assms(1) have a: "write_hash_once cfg ev p st f w = (c, f', w')" by (simp add: write_blob_def)
    from write_hash_once_effect[OF a assms(2)] assms(4) True write_hash_once_no_yield a
    show ?thesis by auto
  next
    case False
    with nc assms(1) have a: "write_known_hash cfg ev p st f w = (c, f', w')" by (simp add: write_blob_def)
    from write_known_hash_effect[OF a] assms(5) nc write_known_hash_no_yield a
    show ?thesis by auto
  qed
qed

lemma dedup_lookup_cases:
  assumes "dedup_lookup f w = (c, f', w')"
  shows "f' = f \<and> w' = w
       \<and> (c = Next \<longrightarrow> blob_hash f = None)
       \<and> (\<forall>b. c = Return b \<longrightarrow> (\<exists>h. blob_by_hash_cache w h = Some (Some b)))
       \<and> (\<forall>q l. c = Yield q l \<longrightarrow> l = At_hash_req \<and> (\<exists>h. q = HashReq h \<and> blob_hash f = Some h))"
  using assms by (auto simp: dedup_lookup_def cache_get_Some split: option.splits if_splits)

lemma dedup_resume_cases:
  assumes "dedup_resume f w = (c, f', w')"
  shows "f' = f \<and> w' = w
       \<and> (c = Next \<longrightarrow> (\<forall>h. blob_hash f = Some h \<longrightarrow> cache_get w h = None))
       \<and> (\<forall>b. c = Return b \<longrightarrow> (\<exists>h. blob_by_hash_cache w h = Some (Some b)))
       \<and> (\<forall>q l. c \<noteq> Yield q l)"
  using assms by (auto simp: dedup_resume_def cache_get_Some split: option.splits if_splits)

lemma attempt_effect_same:
  assumes "\<forall>b. c = Return b \<longrightarrow> (\<exists>h. blob_by_hash_cache w h = Some (Some b))" and "cache_ok H w"
  shows "attempt_effect H w c w"
  using assms by (cases c) (auto simp: attempt_effect_def cache_ok_def)

lemma attempt_from_dedup_effect:
  assumes "attempt_from_dedup cfg ev p st f w = (c, f', w')" and "small_only cfg H" and "cache_ok H w"
    and "policy f = Some hash_once \<longrightarrow> st_size st > HASH_ONCE_SIZE_THRESHOLD"
  shows "attempt_effect H w c w' \<and> (\<forall>q l. c = Yield q l \<longrightarrow> yield_ok st q l f')"
proof (rule and_then_cases[OF assms(1)[unfolded attempt_from_dedup_def]])
  assume a: "dedup_lookup f w = (c, f', w')"
  note d = dedup_lookup_cases[OF a]
  from d attempt_effect_same[OF _ assms(3), of c] show ?thesis by (auto simp: yield_ok_def)
next
  fix f0 w0
  assume a: "dedup_lookup f w = (Next, f0, w0)" and b: "write_blob cfg ev p st f0 w0 = (c, f', w')"
  from dedup_lookup_cases[OF a] have e: "f0 = f" "w0 = w" "blob_hash f = None" by auto
  from write_blob_effect[OF b[unfolded e] assms(2,3)] assms(4) e show ?thesis by simp
qed

lemma attempt_effect_from:
  assumes "attempt_effect H w0 c w'"
    and "blob_by_hash_cache w0 = blob_by_hash_cache w" and "db_blobs w0 = db_blobs w"
    and "pre_calc_reused_files w0 = pre_calc_reused_files w"
  shows "attempt_effect H w c w'"
  using assms by (cases c) (auto simp: attempt_effect_def)

lemma cache_ok_from:
  assumes "cache_ok H w"
    and "blob_by_hash_cache w0 = blob_by_hash_cache w" and "db_blobs w0 = db_blobs w"
  shows "cache_ok H w0"
  using assms by (simp add: cache_ok_def)

lemma policy_phase_effect:
  assumes "policy_phase cfg ev p st lc w = (c, f, w')"
  shows "blob_by_hash_cache w' = blob_by_hash_cache w \<and> db_blobs w' = db_blobs w
       \<and> pre_calc_reused_files w' = pre_calc_reused_files w
       \<and> (\<forall>b. c \<noteq> Return b)
       \<and> (\<forall>q l. c = Yield q l \<longrightarrow> yield_ok st q l f)
       \<and> (policy f = Some hash_once \<longrightarrow> st_size st > HASH_ONCE_SIZE_THRESHOLD)"
  using assms
  unfolding policy_phase_defs Let_def yield_ok_def
  by (auto split: if_splits option.splits prod.splits)

lemma policy_phase_resume_effect:
  assumes "policy_phase_resume cfg ev p st f w = (c, f', w')"
  shows "blob_by_hash_cache w' = blob_by_hash_cache w \<and> db_blobs w' = db_blobs w
       \<and> pre_calc_reused_files w' = pre_calc_reused_files w
       \<and> (\<forall>b. c \<noteq> Return b) \<and> (\<forall>q l. c \<noteq> Yield q l)"
  using assms
  unfolding policy_phase_defs Let_def
  by (auto split: if_splits option.splits prod.splits)

lemma attempt_effect_no_return:
  assumes "blob_by_hash_cache w' = blob_by_hash_cache w" and "db_blobs w' = db_blobs w"
    and "pre_calc_reused_files w' = pre_calc_reused_files w" and "\<forall>b. c \<noteq> Return b"
  shows "attempt_effect H w c w'"
  using assms by (cases c) (auto simp: attempt_effect_def)

lemma attempt_once_effect:
  assumes "attempt_once cfg ev p st lc w = (c, f', w')" and "small_only cfg H" and "cache_ok H w"
  shows "attempt_effect H w c w' \<and> (\<forall>q l. c = Yield q l \<longrightarrow> yield_ok st q l f')"
proof (rule and_then_cases[OF assms(1)[unfolded attempt_once_phases]])
  assume a: "policy_phase cfg ev p st lc w = (c, f', w')"
  note e = policy_phase_effect[OF a]
  have "attempt_effect H w c w'" by (rule attempt_effect_no_return) (use e in simp_all)
  with e show ?thesis by simp
next
  fix f0 w0
  assume r: "policy_phase cfg ev p st lc w = (Next, f0, w0)"
    and d: "attempt_from_dedup cfg ev p st f0 w0 = (c, f', w')"
  note e = policy_phase_effect[OF r]
  have c0: "cache_ok H w0" by (rule cache_ok_from[of H w]) (use e assms(3) in simp_all)
  from e have h: "policy f0 = Some hash_once \<longrightarrow> st_size st > HASH_ONCE_SIZE_THRESHOLD" by simp
  note a = attempt_from_dedup_effect[OF d assms(2) c0 h]
  have "attempt_effect H w c w'" by (rule attempt_effect_from[of H w0]) (use a e in simp_all)
  with a show ?thesis by simp
qed

text \<open>
  What a suspended attempt needs when it is resumed, given the set \<open>K\<close> of
  fingerprints the hash cache will know then: one that waits for a size was
  started on a stat size above 10 MiB; one that waits for a hash holds that
  hash, and the hash is in \<open>K\<close> if it is \<open>H\<close>.
\<close>

definition waits_ok :: "hash \<Rightarrow> hash set \<Rightarrow> stat_result \<Rightarrow> label \<Rightarrow> locals \<Rightarrow> bool" where
  "waits_ok H K st l f \<longleftrightarrow>
     (if l = At_size_req then st_size st > HASH_ONCE_SIZE_THRESHOLD
      else blob_hash f \<noteq> None \<and> (blob_hash f = Some H \<longrightarrow> H \<in> K))"

definition asked :: "BqmReq \<Rightarrow> hash set" where
  "asked q = (case q of SizeReq sz \<Rightarrow> {} | HashReq h \<Rightarrow> {h})"

lemma yield_ok_waits: "yield_ok st q l f \<Longrightarrow> waits_ok H (asked q) st l f"
  by (cases q) (auto simp: yield_ok_def waits_ok_def asked_def)

lemma waits_ok_mono: "waits_ok H K st l f \<Longrightarrow> K \<subseteq> K' \<Longrightarrow> waits_ok H K' st l f"
  by (auto simp: waits_ok_def split: if_splits)

lemma attempt_resume_effect:
  assumes "attempt_resume cfg ev p st l f w = (c, f', w')" and "small_only cfg H" and "cache_ok H w"
    and "waits_ok H (dom (blob_by_hash_cache w)) st l f"
  shows "attempt_effect H w c w' \<and> (\<forall>q l'. c = Yield q l' \<longrightarrow> yield_ok st q l' f')"
proof (cases l)
  case At_size_req
  with assms(4) have big: "st_size st > HASH_ONCE_SIZE_THRESHOLD" by (simp add: waits_ok_def)
  show ?thesis
  proof (rule and_then_cases[OF assms(1)[unfolded At_size_req attempt_resume_phases]])
    assume a: "policy_phase_resume cfg ev p st f w = (c, f', w')"
    note e = policy_phase_resume_effect[OF a]
    have "attempt_effect H w c w'" by (rule attempt_effect_no_return) (use e in simp_all)
    with e show ?thesis by simp
  next
    fix f0 w0
    assume r: "policy_phase_resume cfg ev p st f w = (Next, f0, w0)"
      and d: "attempt_from_dedup cfg ev p st f0 w0 = (c, f', w')"
    note e = policy_phase_resume_effect[OF r]
    have c0: "cache_ok H w0" by (rule cache_ok_from[of H w]) (use e assms(3) in simp_all)
    from big have h: "policy f0 = Some hash_once \<longrightarrow> st_size st > HASH_ONCE_SIZE_THRESHOLD" by simp
    note a = attempt_from_dedup_effect[OF d assms(2) c0 h]
    have "attempt_effect H w c w'" by (rule attempt_effect_from[of H w0]) (use a e in simp_all)
    with a show ?thesis by simp
  qed
next
  case At_hash_req
  with assms(4) have bh: "blob_hash f \<noteq> None"
    and kn: "blob_hash f = Some H \<longrightarrow> blob_by_hash_cache w H \<noteq> None"
    by (auto simp: waits_ok_def)
  from assms(1) have a: "and_then (dedup_resume f w) (write_blob cfg ev p st) = (c, f', w')"
    by (simp add: attempt_resume_def At_hash_req)
  show ?thesis
  proof (rule and_then_cases[OF a])
    assume b: "dedup_resume f w = (c, f', w')"
    note d = dedup_resume_cases[OF b]
    from d attempt_effect_same[OF _ assms(3), of c] show ?thesis by auto
  next
    fix f0 w0
    assume b: "dedup_resume f w = (Next, f0, w0)" and wb: "write_blob cfg ev p st f0 w0 = (c, f', w')"
    from dedup_resume_cases[OF b] have e: "f0 = f" "w0 = w"
      and n: "\<forall>h. blob_hash f = Some h \<longrightarrow> cache_get w h = None" by auto
    have fresh: "policy f \<noteq> Some copy_hash \<and> blob_hash f = Some H \<longrightarrow> H \<notin> hash ` set (db_blobs w)"
      using n kn assms(3) by (auto simp: cache_get_None cache_ok_def)
    from write_blob_effect[OF wb[unfolded e] assms(2,3) _ fresh] bh show ?thesis by simp
  qed
next
  case At_copy_hash_req
  with assms(4) have kn: "blob_hash f = Some H \<longrightarrow> blob_by_hash_cache w H \<noteq> None"
    by (auto simp: waits_ok_def)
  from assms(1) At_copy_hash_req have a: "write_copy_hash_resume cfg p f w = (c, f', w')"
    by (simp add: attempt_resume_def)
  from write_copy_hash_resume_effect[OF a assms(3) kn] write_copy_hash_resume_no_yield a
  show ?thesis by auto
qed

lemma run_attempt_effect:
  assumes "run_attempt cfg ev p i st susp w = (c, f', w')" and "small_only cfg H" and "cache_ok H w"
    and "\<forall>l f. susp = Some (l, f) \<longrightarrow> waits_ok H (dom (blob_by_hash_cache w)) st l f"
  shows "attempt_effect H w c w' \<and> (\<forall>q l'. c = Yield q l' \<longrightarrow> yield_ok st q l' f')"
proof (cases susp)
  case None
  let ?w0 = "log_event (EvAttempt p i (i + 1 = BLOB_FILE_CHANGED_RETRY_COUNT)) w"
  from None assms(1) have a: "attempt_once cfg ev p st (i + 1 = BLOB_FILE_CHANGED_RETRY_COUNT) ?w0 = (c, f', w')"
    by (simp add: run_attempt_def Let_def)
  have c0: "cache_ok H ?w0" by (rule cache_ok_from[of H w]) (use assms(3) in \<open>simp_all add: kept_prims\<close>)
  note e = attempt_once_effect[OF a assms(2) c0]
  have "attempt_effect H w c w'" by (rule attempt_effect_from[of H ?w0]) (use e in \<open>simp_all add: kept_prims\<close>)
  with e show ?thesis by simp
next
  case (Some lf)
  obtain l f0 where lf: "lf = (l, f0)" by (cases lf) auto
  with Some assms(1) have a: "attempt_resume cfg ev p st l f0 w = (c, f', w')"
    by (simp add: run_attempt_def Let_def)
  from assms(4) Some lf have "waits_ok H (dom (blob_by_hash_cache w)) st l f0" by simp
  from attempt_resume_effect[OF a assms(2,3) this] show ?thesis .
qed

subsection \<open>What one \<^verbatim>\<open>send\<close> does to the catalog and the hash cache\<close>

text \<open>
  From \<open>w\<close> to \<open>w'\<close> the hash cache still agrees with the catalog and has lost no
  key, the table of reused files is the same, and the catalog made at most one
  step.
\<close>

definition send_effect :: "hash \<Rightarrow> world \<Rightarrow> world \<Rightarrow> bool" where
  "send_effect H w w' \<longleftrightarrow>
     cache_ok H w'
     \<and> dom (blob_by_hash_cache w) \<subseteq> dom (blob_by_hash_cache w')
     \<and> pre_calc_reused_files w' = pre_calc_reused_files w
     \<and> db_step H (db_blobs w) (db_blobs w')"

lemma send_effect_from:
  assumes "send_effect H w0 w'"
    and "blob_by_hash_cache w0 = blob_by_hash_cache w" and "db_blobs w0 = db_blobs w"
    and "pre_calc_reused_files w0 = pre_calc_reused_files w"
  shows "send_effect H w w'"
  using assms by (simp add: send_effect_def)

lemma send_effect_kept:
  assumes "cache_ok H w"
    and "blob_by_hash_cache w' = blob_by_hash_cache w" and "db_blobs w' = db_blobs w"
    and "pre_calc_reused_files w' = pre_calc_reused_files w"
  shows "send_effect H w w'"
  using assms by (simp add: send_effect_def cache_ok_def db_step_def)

lemma attempt_effect_kept:
  assumes "attempt_effect H w c w1" and "\<forall>b. c \<noteq> Return b"
  shows "blob_by_hash_cache w1 = blob_by_hash_cache w \<and> db_blobs w1 = db_blobs w
       \<and> pre_calc_reused_files w1 = pre_calc_reused_files w"
  using assms by (cases c) (auto simp: attempt_effect_def)

lemma returned_send_effect:
  assumes "attempt_effect H w (Return b) w1" and "cache_ok H w"
  shows "send_effect H w
           (w1\<lparr>blob_by_size_cache := bs,
               blob_by_hash_cache := (blob_by_hash_cache w1)(hash b \<mapsto> Some b)\<rparr>)
         \<and> b \<in> set (db_blobs w1)"
proof -
  from assms(1) have c: "blob_by_hash_cache w1 = blob_by_hash_cache w"
    and r: "pre_calc_reused_files w1 = pre_calc_reused_files w"
    and d: "(db_blobs w1 = db_blobs w \<and> b \<in> set (db_blobs w))
            \<or> (db_blobs w1 = db_blobs w @ [b] \<and> (hash b = H \<longrightarrow> H \<notin> hash ` set (db_blobs w)))"
    by (simp_all add: attempt_effect_def)
  from d have b: "b \<in> set (db_blobs w1)" by auto
  from d have st: "db_step H (db_blobs w) (db_blobs w1)" by (auto simp: db_step_def)
  from d have sub: "set (db_blobs w) \<subseteq> set (db_blobs w1)" by auto
  have j: "H \<notin> hash ` set (db_blobs w1)"
    if "((blob_by_hash_cache w1)(hash b \<mapsto> Some b)) H = Some None"
  proof -
    from that have nb: "hash b \<noteq> H" and "blob_by_hash_cache w1 H = Some None"
      by (auto split: if_splits)
    with c assms(2) have "H \<notin> hash ` set (db_blobs w)" by (simp add: cache_ok_def)
    with d nb show ?thesis by auto
  qed
  have k: "b' \<in> set (db_blobs w1)"
    if "((blob_by_hash_cache w1)(hash b \<mapsto> Some b)) h = Some (Some b')" for h b'
  proof (cases "h = hash b")
    case True
    with that b show ?thesis by simp
  next
    case False
    with that c have "blob_by_hash_cache w h = Some (Some b')" by simp
    with assms(2) sub show ?thesis by (auto simp: cache_ok_def)
  qed
  have "cache_ok H (w1\<lparr>blob_by_size_cache := bs,
               blob_by_hash_cache := (blob_by_hash_cache w1)(hash b \<mapsto> Some b)\<rparr>)"
    unfolding cache_ok_def using j k by auto
  with c r st b show ?thesis by (auto simp: send_effect_def)
qed

lemma gocb_effect:
  "get_or_create_blob cfg ev p i st susp w = (r, w') \<Longrightarrow> small_only cfg H \<Longrightarrow> cache_ok H w \<Longrightarrow>
     (\<forall>l f. susp = Some (l, f) \<longrightarrow> waits_ok H (dom (blob_by_hash_cache w)) st l f) \<Longrightarrow>
     send_effect H w w'
     \<and> (\<forall>blob st'. r = Returned (blob, st') \<longrightarrow> blob \<in> set (db_blobs w'))
     \<and> (\<forall>q i' st' l' f'. r = Yielded q (GocbGen i' st' l' f') \<longrightarrow> yield_ok st' q l' f')"
proof (induction cfg ev p i st susp w rule: get_or_create_blob.induct)
  case (1 cfg ev src_path i st susp w)
  note so = "1.prems"(2) and co = "1.prems"(3)
  show ?case
  proof (cases "i \<ge> BLOB_FILE_CHANGED_RETRY_COUNT")
    case True
    with "1.prems"(1) have "w' = w" "r = Raised VolatileBlobFile" by (simp_all add: get_or_create_blob.simps)
    with co show ?thesis by (simp add: send_effect_kept)
  next
    case False
    obtain c f1 w1 where ra: "run_attempt cfg ev src_path i st susp w = (c, f1, w1)"
      by (cases "run_attempt cfg ev src_path i st susp w") auto
    note e = run_attempt_effect[OF ra so co "1.prems"(4)]
    then have ae: "attempt_effect H w c w1" by simp
    note unf = get_or_create_blob.simps[of cfg ev src_path i st susp w]
    show ?thesis
    proof (cases c)
      case Next
      with "1.prems"(1) False ra have "w' = w1" "r = Raised AssertionError" by (simp_all add: unf)
      with attempt_effect_kept[OF ae] Next co show ?thesis by (simp add: send_effect_kept)
    next
      case (Yield q0 l0)
      with "1.prems"(1) False ra have "w' = w1" "r = Yielded q0 (GocbGen i st l0 f1)" by (simp_all add: unf)
      with attempt_effect_kept[OF ae] Yield co e show ?thesis by (simp add: send_effect_kept)
    next
      case (Return b)
      with "1.prems"(1) False ra
      have "w' = w1\<lparr>blob_by_size_cache := (blob_by_size_cache w1)(raw_size b \<mapsto> True),
                     blob_by_hash_cache := (blob_by_hash_cache w1)(hash b \<mapsto> Some b)\<rparr>"
        "r = Returned (b, st)" by (simp_all add: unf)
      with returned_send_effect[OF ae[unfolded Return] co] show ?thesis by simp
    next
      case (Raise e0)
      note k = attempt_effect_kept[OF ae]
      show ?thesis
      proof (cases "e0 = BlobFileChanged")
        case nb: False
        with Raise "1.prems"(1) False ra have "w' = w1" "r = Raised e0" by (simp_all add: unf)
        with k Raise co show ?thesis by (simp add: send_effect_kept)
      next
        case True
        obtain so2 w2 where ls: "lstat ev src_path w1 = (so2, w2)" by (cases "lstat ev src_path w1") auto
        then have k2: "blob_by_hash_cache w2 = blob_by_hash_cache w" "db_blobs w2 = db_blobs w"
            "pre_calc_reused_files w2 = pre_calc_reused_files w"
          using k Raise by (auto simp: lstat_def kept_prims)
        show ?thesis
        proof (cases so2)
          case None
          with True Raise "1.prems"(1) False ra ls have "w' = w2" "r = Raised (FileNotFoundError src_path)"
            by (simp_all add: unf)
          with k2 co show ?thesis by (simp add: send_effect_kept)
        next
          case (Some st2)
          with True Raise "1.prems"(1) False ra ls
          have rec: "get_or_create_blob cfg ev src_path (i + 1) st2 None w2 = (r, w')"
            by (simp add: unf)
          have c2: "cache_ok H w2" by (rule cache_ok_from[of H w]) (use co k2 in simp_all)
          have "send_effect H w2 w'
             \<and> (\<forall>blob st'. r = Returned (blob, st') \<longrightarrow> blob \<in> set (db_blobs w'))
             \<and> (\<forall>q i' st' l' f'. r = Yielded q (GocbGen i' st' l' f') \<longrightarrow> yield_ok st' q l' f')"
            using "1.IH"[OF False ra[symmetric] _ _ True ls[symmetric] _ rec so c2] Raise Some
            by simp
          moreover from this k2 have "send_effect H w w'" by (auto elim: send_effect_from[of H w2])
          ultimately show ?thesis by simp
        qed
      qed
    qed
  qed
qed

text \<open>A generator is ready to be resumed once the hash cache knows the
  fingerprints of \<open>K\<close>.\<close>

fun gen_ready :: "hash \<Rightarrow> hash set \<Rightarrow> create_file_gen \<Rightarrow> bool" where
  "gen_ready H K (CF_start p) = True"
| "gen_ready H K (CF_blob p (GocbGen i st l f)) = waits_ok H K st l f"

lemma gen_ready_mono: "gen_ready H K g \<Longrightarrow> K \<subseteq> K' \<Longrightarrow> gen_ready H K' g"
  by (induction H K g rule: gen_ready.induct) (auto intro: waits_ok_mono)

lemma row_blob_in_mono: "row_blob_in db fl \<Longrightarrow> set db \<subseteq> set db' \<Longrightarrow> row_blob_in db' fl"
  by (auto simp: row_blob_in_def split: option.splits)

lemma row_blob_in_created:
  "b \<in> set db \<Longrightarrow> row_blob_in db (session_create_file rel st content mt (Some b))"
  "row_blob_in db (session_create_file rel st content mt None)"
  by (auto simp: row_blob_in_def session_create_file_def)

lemma forward_blob_effect:
  assumes "forward_blob cfg p (r1, w1) = (r, w')"
    and "\<forall>blob st'. r1 = Returned (blob, st') \<longrightarrow> blob \<in> set (db_blobs w1)"
    and "\<forall>q i' st' l' f'. r1 = Yielded q (GocbGen i' st' l' f') \<longrightarrow> yield_ok st' q l' f'"
  shows "w' = w1
       \<and> (\<forall>fl. r = Returned fl \<longrightarrow> row_blob_in (db_blobs w') fl)
       \<and> (\<forall>q g'. r = Yielded q g' \<longrightarrow> gen_ready H (asked q) g')"
proof (cases r1)
  case (Yielded q gg)
  obtain i' st' l' f' where gg: "gg = GocbGen i' st' l' f'" by (cases gg) auto
  from assms(3) Yielded gg have "yield_ok st' q l' f'" by simp
  from yield_ok_waits[OF this, of H] assms(1) Yielded gg show ?thesis
    by (auto simp: forward_blob_def)
next
  case (Returned bs)
  obtain blob st' where bs: "bs = (blob, st')" by (cases bs) auto
  from assms(2) Returned bs have "blob \<in> set (db_blobs w1)" by simp
  with assms(1) Returned bs show ?thesis
    by (auto simp: forward_blob_def create_file_row_def row_blob_in_created split: option.splits)
next
  case (Raised e)
  with assms(1) show ?thesis by (auto simp: forward_blob_def)
qed

lemma create_file_send_effect:
  assumes "create_file_send cfg ev g v w = (r, w')" and "small_only cfg H" and "cache_ok H w"
    and "gen_ready H (dom (blob_by_hash_cache w)) g"
  shows "send_effect H w w'
       \<and> (\<forall>fl. r = Returned fl \<longrightarrow>
            row_blob_in (db_blobs w') fl \<or> (\<exists>p. pre_calc_reused_files w p = Some fl))
       \<and> (\<forall>q g'. r = Yielded q g' \<longrightarrow> gen_ready H (asked q) g')"
proof (cases g)
  case (CF_start p)
  show ?thesis
  proof (cases "pre_calc_reused_files w p")
    case (Some fl)
    with assms(1) CF_start have "r = Returned fl" "w' = w" by (simp_all add: create_file_send_def)
    with Some assms(3) show ?thesis by (auto simp: send_effect_kept)
  next
    case None
    obtain so w1 where st: "(case pre_calc_stats w p of
                        Some st \<Rightarrow> (Some st, w\<lparr>pre_calc_stats := (pre_calc_stats w)(p := None)\<rparr>)
                      | None \<Rightarrow> lstat ev p w) = (so, w1)"
      by (cases "(case pre_calc_stats w p of
                        Some st \<Rightarrow> (Some st, w\<lparr>pre_calc_stats := (pre_calc_stats w)(p := None)\<rparr>)
                      | None \<Rightarrow> lstat ev p w)") auto
    then have k1: "blob_by_hash_cache w1 = blob_by_hash_cache w" "db_blobs w1 = db_blobs w"
        "pre_calc_reused_files w1 = pre_calc_reused_files w"
      by (auto simp: lstat_def kept_prims split: option.splits)
    have c1: "cache_ok H w1" by (rule cache_ok_from[of H w]) (use assms(3) k1 in simp_all)
    show ?thesis
    proof (cases so)
      case n: None
      with assms(1) CF_start None st have "r = Raised (SourceFileNotFound p)" "w' = w1"
        by (simp_all add: create_file_send_def)
      with k1 assms(3) show ?thesis by (simp add: send_effect_kept)
    next
      case (Some st0)
      show ?thesis
      proof (cases "S_ISREG (st_mode st0)")
        case True
        obtain r1 w2 where gb: "get_or_create_blob cfg ev p 0 st0 None w1 = (r1, w2)"
          by (cases "get_or_create_blob cfg ev p 0 st0 None w1") auto
        with assms(1) CF_start None st Some True have fb: "forward_blob cfg p (r1, w2) = (r, w')"
          by (simp add: create_file_send_def)
        have ge: "send_effect H w1 w2
             \<and> (\<forall>blob st'. r1 = Returned (blob, st') \<longrightarrow> blob \<in> set (db_blobs w2))
             \<and> (\<forall>q i' st' l' f'. r1 = Yielded q (GocbGen i' st' l' f') \<longrightarrow> yield_ok st' q l' f')"
          by (rule gocb_effect[OF gb assms(2) c1]) simp
        from ge have "send_effect H w1 w2" by simp
        then have s2: "send_effect H w w2" using k1 by (rule send_effect_from)
        from forward_blob_effect[OF fb, of H] ge s2 show ?thesis by auto
      next
        case False
        have "w' = w1 \<or> (\<exists>w2. readlink ev p w1 = (None, w2) \<and> w' = w2)
              \<or> (\<exists>t w2. readlink ev p w1 = (Some t, w2) \<and> w' = w2)"
          using assms(1) CF_start None st Some False
          by (auto simp: create_file_send_def create_file_row_def split: if_splits option.splits prod.splits)
        then have k2: "blob_by_hash_cache w' = blob_by_hash_cache w" "db_blobs w' = db_blobs w"
            "pre_calc_reused_files w' = pre_calc_reused_files w"
          using k1 by (auto simp: readlink_def kept_prims)
        have "(\<forall>fl. r = Returned fl \<longrightarrow> row_blob_in (db_blobs w') fl) \<and> (\<forall>q g'. r \<noteq> Yielded q g')"
          using assms(1) CF_start None st Some False
          by (auto simp: create_file_send_def create_file_row_def row_blob_in_created
                split: if_splits option.splits prod.splits)
        with k2 assms(3) show ?thesis by (simp add: send_effect_kept)
      qed
    qed
  qed
next
  case (CF_blob p gg)
  obtain i st l f where gg: "gg = GocbGen i st l f" by (cases gg) auto
  obtain r1 w2 where gb: "get_or_create_blob cfg ev p i st (Some (l, f)) w = (r1, w2)"
    by (cases "get_or_create_blob cfg ev p i st (Some (l, f)) w") auto
  with assms(1) CF_blob gg have fb: "forward_blob cfg p (r1, w2) = (r, w')"
    by (simp add: create_file_send_def)
  have ge: "send_effect H w w2
       \<and> (\<forall>blob st'. r1 = Returned (blob, st') \<longrightarrow> blob \<in> set (db_blobs w2))
       \<and> (\<forall>q i' st' l' f'. r1 = Yielded q (GocbGen i' st' l' f') \<longrightarrow> yield_ok st' q l' f')"
    by (rule gocb_effect[OF gb assms(2,3)]) (use assms(4) CF_blob gg in simp)
  from forward_blob_effect[OF fb, of H] ge show ?thesis by auto
qed

subsection \<open>The coordinator keeps the hash cache and the catalog in step\<close>

text \<open>
  The invariant of the coordinator loop for a fingerprint \<open>H\<close> and the catalog
  \<open>db0\<close> the run started with. The world: the hash cache agrees with the
  catalog, the catalog extends \<open>db0\<close> by at most one blob with \<open>H\<close>. The
  scheduler: every generator of the schedule queue and of the size fetcher is
  ready with the fingerprints the hash cache knows, every generator of the hash
  fetcher is ready once the keys of the pending batch are known as well. With
  \<open>T\<close> the blobs of the rows are followed too: every reused row and every row
  made so far names a blob of the catalog.
\<close>

definition sched_ok :: "hash \<Rightarrow> bool \<Rightarrow> hash set \<Rightarrow> Blob list \<Rightarrow> sched \<Rightarrow> bool" where
  "sched_ok H T K db s \<longleftrightarrow>
     (T \<longrightarrow> (\<forall>fl \<in> set (files s). row_blob_in db fl))
     \<and> (\<forall>gv \<in> set (schedule_queue s). gen_ready H K (fst gv))
     \<and> (\<forall>t \<in> set (tasks (fetcher_size s)). gen_ready H K (snd t))
     \<and> (\<forall>t \<in> set (tasks (fetcher_hash s)). gen_ready H (keys (fetcher_hash s) \<union> K) (snd t))"

definition world_ok :: "hash \<Rightarrow> bool \<Rightarrow> Blob list \<Rightarrow> world \<Rightarrow> bool" where
  "world_ok H T db0 w \<longleftrightarrow>
     cache_ok H w \<and> ext_db H db0 (db_blobs w)
     \<and> (T \<longrightarrow> (\<forall>p fl. pre_calc_reused_files w p = Some fl \<longrightarrow> row_blob_in (db_blobs w) fl))"

definition dedup_inv :: "hash \<Rightarrow> bool \<Rightarrow> Blob list \<Rightarrow> state \<Rightarrow> bool" where
  "dedup_inv H T db0 x \<longleftrightarrow>
     world_ok H T db0 (snd x)
     \<and> sched_ok H T (dom (blob_by_hash_cache (snd x))) (db_blobs (snd x)) (fst x)"

lemma dedup_inv_pair:
  "dedup_inv H T db0 (s, w) \<longleftrightarrow>
     world_ok H T db0 w \<and> sched_ok H T (dom (blob_by_hash_cache w)) (db_blobs w) s"
  by (simp add: dedup_inv_def)

lemma sched_ok_mono:
  assumes "sched_ok H T K db s" and "K \<subseteq> K'" and "set db \<subseteq> set db'"
  shows "sched_ok H T K' db' s"
proof -
  have k: "keys (fetcher_hash s) \<union> K \<subseteq> keys (fetcher_hash s) \<union> K'" using assms(2) by auto
  from assms(1) show ?thesis unfolding sched_ok_def
    using gen_ready_mono[OF _ assms(2)] gen_ready_mono[OF _ k] row_blob_in_mono[OF _ assms(3)]
    by blast
qed

lemma world_ok_kept:
  assumes "world_ok H T db0 w"
    and "blob_by_hash_cache w' = blob_by_hash_cache w" and "db_blobs w' = db_blobs w"
    and "pre_calc_reused_files w' = pre_calc_reused_files w"
  shows "world_ok H T db0 w'"
  using assms by (simp add: world_ok_def cache_ok_def)

lemma dedup_inv_kept:
  assumes "dedup_inv H T db0 (s, w)"
    and "blob_by_hash_cache w' = blob_by_hash_cache w" and "db_blobs w' = db_blobs w"
    and "pre_calc_reused_files w' = pre_calc_reused_files w"
  shows "dedup_inv H T db0 (s, w')"
  using assms world_ok_kept[of H T db0 w w'] by (simp add: dedup_inv_pair)

lemma world_ok_send:
  assumes "world_ok H T db0 w" and "send_effect H w w'"
  shows "world_ok H T db0 w'"
proof -
  from assms(2) have c: "cache_ok H w'" and r: "pre_calc_reused_files w' = pre_calc_reused_files w"
    and d: "db_step H (db_blobs w) (db_blobs w')" by (simp_all add: send_effect_def)
  from assms(1) have e: "ext_db H db0 (db_blobs w)" by (simp add: world_ok_def)
  note m = db_step_mono[OF d]
  have "row_blob_in (db_blobs w') fl" if "T" "pre_calc_reused_files w' p = Some fl" for p fl
  proof -
    from that r assms(1) have "row_blob_in (db_blobs w) fl" by (simp add: world_ok_def)
    then show ?thesis using m by (rule row_blob_in_mono)
  qed
  with c ext_db_step[OF e d] show ?thesis by (auto simp: world_ok_def)
qed

lemma find_mem: "find P xs = Some x \<Longrightarrow> x \<in> set xs"
  by (induction xs) (auto split: if_splits)

lemma find_hash_None: "find (\<lambda>b. hash b = h) db = None \<Longrightarrow> h \<notin> hash ` set db"
  by (auto simp: find_None_iff)

lemma get_blobs_cache:
  "(blob_by_hash_cache w ++ get_blobs w ks) h =
     (if h \<in> ks then Some (find (\<lambda>b. hash b = h) (db_blobs w)) else blob_by_hash_cache w h)"
  by (simp add: map_add_def get_blobs_def)

lemma get_blobs_dom:
  "dom (blob_by_hash_cache w ++ get_blobs w ks) = dom (blob_by_hash_cache w) \<union> ks"
proof -
  have "dom (get_blobs w ks) = ks" by (auto simp: get_blobs_def dom_def)
  then show ?thesis by (auto simp only: dom_map_add)
qed

lemma hash_query_world:
  assumes "world_ok H T db0 w"
  shows "world_ok H T db0
           (log_event e (w\<lparr>blob_by_hash_cache := blob_by_hash_cache w ++ get_blobs w ks\<rparr>))"
proof -
  let ?w1 = "log_event e (w\<lparr>blob_by_hash_cache := blob_by_hash_cache w ++ get_blobs w ks\<rparr>)"
  have f: "blob_by_hash_cache ?w1 = blob_by_hash_cache w ++ get_blobs w ks"
    "db_blobs ?w1 = db_blobs w" "pre_calc_reused_files ?w1 = pre_calc_reused_files w"
    by (simp_all add: kept_prims)
  from assms have c: "cache_ok H w" by (simp add: world_ok_def)
  have j: "H \<notin> hash ` set (db_blobs w)" if "(blob_by_hash_cache w ++ get_blobs w ks) H = Some None"
  proof (cases "H \<in> ks")
    case True
    with that have "find (\<lambda>b. hash b = H) (db_blobs w) = None" by (simp add: get_blobs_cache)
    then show ?thesis by (rule find_hash_None)
  next
    case False
    with that have "blob_by_hash_cache w H = Some None" by (simp add: get_blobs_cache)
    with c show ?thesis by (simp add: cache_ok_def)
  qed
  have k: "b \<in> set (db_blobs w)" if "(blob_by_hash_cache w ++ get_blobs w ks) h = Some (Some b)" for h b
  proof (cases "h \<in> ks")
    case True
    with that have "find (\<lambda>b. hash b = h) (db_blobs w) = Some b" by (simp add: get_blobs_cache)
    then show ?thesis by (rule find_mem)
  next
    case False
    with that have "blob_by_hash_cache w h = Some (Some b)" by (simp add: get_blobs_cache)
    with c show ?thesis by (simp add: cache_ok_def)
  qed
  have "cache_ok H ?w1" unfolding cache_ok_def f using j k by blast
  with assms show ?thesis by (simp add: world_ok_def f)
qed

lemma size_batch_run_dedup:
  assumes "dedup_inv H T db0 (s, w)"
  shows "dedup_inv H T db0 (size_batch_run (s, w))"
proof -
  let ?fs = "fetcher_size s"
  let ?ex = "has_blob_with_size_batched w (keys ?fs)"
  let ?w1 = "log_event (EvSizeQuery (keys ?fs)) (w\<lparr>blob_by_size_cache := blob_by_size_cache w ++ ?ex\<rparr>)"
  let ?s1 = "s\<lparr>schedule_queue := map (\<lambda>(k, g). (g, Some (SizeRsp (?ex k = Some True)))) (rev (rev (tasks ?fs)))
                                   @ schedule_queue s,
               fetcher_size := ?fs\<lparr>tasks := [], keys := {}\<rparr>\<rparr>"
  have e: "size_batch_run (s, w) = (?s1, ?w1)"
    by (simp add: size_batch_run_def Let_def fold_callback)
  have f: "blob_by_hash_cache ?w1 = blob_by_hash_cache w"
    "db_blobs ?w1 = db_blobs w" "pre_calc_reused_files ?w1 = pre_calc_reused_files w"
    by (simp_all add: kept_prims)
  from assms have w: "world_ok H T db0 w"
    and s: "sched_ok H T (dom (blob_by_hash_cache w)) (db_blobs w) s" by (simp_all add: dedup_inv_pair)
  from s have "sched_ok H T (dom (blob_by_hash_cache w)) (db_blobs w) ?s1"
    by (auto simp: sched_ok_def)
  with world_ok_kept[OF w f] show ?thesis by (simp add: e dedup_inv_pair f)
qed

lemma hash_batch_run_dedup:
  assumes "dedup_inv H T db0 (s, w)"
  shows "dedup_inv H T db0 (hash_batch_run (s, w))"
proof -
  let ?fh = "fetcher_hash s"
  let ?bl = "get_blobs w (keys ?fh)"
  let ?w1 = "log_event (EvHashQuery (keys ?fh)) (w\<lparr>blob_by_hash_cache := blob_by_hash_cache w ++ ?bl\<rparr>)"
  let ?s1 = "s\<lparr>schedule_queue :=
                 map (\<lambda>(k, g). (g, Some (HashRsp (case ?bl k of Some r \<Rightarrow> r | None \<Rightarrow> None))))
                   (rev (rev (tasks ?fh))) @ schedule_queue s,
               fetcher_hash := ?fh\<lparr>tasks := [], keys := {}\<rparr>\<rparr>"
  have e: "hash_batch_run (s, w) = (?s1, ?w1)"
    by (simp add: hash_batch_run_def Let_def fold_callback)
  have f1: "blob_by_hash_cache ?w1 = blob_by_hash_cache w ++ ?bl" by (simp add: kept_prims)
  have f: "dom (blob_by_hash_cache ?w1) = keys ?fh \<union> dom (blob_by_hash_cache w)"
    "db_blobs ?w1 = db_blobs w"
    unfolding f1 get_blobs_dom by (simp_all add: kept_prims Un_commute)
  from assms have w: "world_ok H T db0 w"
    and s: "sched_ok H T (dom (blob_by_hash_cache w)) (db_blobs w) s" by (simp_all add: dedup_inv_pair)
  have m: "dom (blob_by_hash_cache w) \<subseteq> keys ?fh \<union> dom (blob_by_hash_cache w)" by auto
  from s have "sched_ok H T (keys ?fh \<union> dom (blob_by_hash_cache w)) (db_blobs w) ?s1"
    unfolding sched_ok_def using gen_ready_mono[OF _ m] by auto
  with hash_query_world[OF w] show ?thesis by (simp add: e dedup_inv_pair f)
qed

lemma flush_if_needed_dedup:
  assumes "\<And>s w. dedup_inv H T db0 (s, w) \<Longrightarrow> dedup_inv H T db0 (batch_run (s, w))"
    and "dedup_inv H T db0 (s, w)"
  shows "dedup_inv H T db0 (flush_if_needed ev fetcher batch_run (s, w))"
proof -
  have t: "dedup_inv H T db0 (s, tick w)"
    by (rule dedup_inv_kept[OF assms(2)]) (simp_all add: kept_prims)
  from assms t show ?thesis by (auto simp: flush_if_needed_def time_now_def)
qed

lemma flush_dedup:
  assumes "\<And>s w. dedup_inv H T db0 (s, w) \<Longrightarrow> dedup_inv H T db0 (batch_run (s, w))"
    and "dedup_inv H T db0 (s, w)"
  shows "dedup_inv H T db0 (flush fetcher batch_run (s, w))"
  using assms by (auto simp: flush_def)

lemma size_flush_if_needed_dedup:
  "dedup_inv H T db0 (s, w) \<Longrightarrow>
     dedup_inv H T db0 (flush_if_needed ev fetcher_size size_batch_run (s, w))"
  by (rule flush_if_needed_dedup) (auto intro: size_batch_run_dedup)

lemma hash_flush_if_needed_dedup:
  "dedup_inv H T db0 (s, w) \<Longrightarrow>
     dedup_inv H T db0 (flush_if_needed ev fetcher_hash hash_batch_run (s, w))"
  by (rule flush_if_needed_dedup) (auto intro: hash_batch_run_dedup)

lemma size_flush_dedup:
  "dedup_inv H T db0 (s, w) \<Longrightarrow> dedup_inv H T db0 (flush fetcher_size size_batch_run (s, w))"
  by (rule flush_dedup) (auto intro: size_batch_run_dedup)

lemma hash_flush_dedup:
  "dedup_inv H T db0 (s, w) \<Longrightarrow> dedup_inv H T db0 (flush fetcher_hash hash_batch_run (s, w))"
  by (rule flush_dedup) (auto intro: hash_batch_run_dedup)

lemma bqm_flush_if_needed_dedup:
  assumes "dedup_inv H T db0 x"
  shows "dedup_inv H T db0 (bqm_flush_if_needed ev x)"
proof -
  obtain s w where x: "x = (s, w)" by (cases x) auto
  obtain s1 w1 where b: "flush_if_needed ev fetcher_size size_batch_run (s, w) = (s1, w1)"
    by (cases "flush_if_needed ev fetcher_size size_batch_run (s, w)") auto
  have "dedup_inv H T db0 (flush_if_needed ev fetcher_size size_batch_run (s, w))"
    by (rule size_flush_if_needed_dedup) (use assms x in simp)
  then have "dedup_inv H T db0 (s1, w1)" by (simp add: b)
  then have "dedup_inv H T db0 (flush_if_needed ev fetcher_hash hash_batch_run (s1, w1))"
    by (rule hash_flush_if_needed_dedup)
  then show ?thesis by (simp add: bqm_flush_if_needed_def x b)
qed

lemma bqm_flush_dedup:
  assumes "dedup_inv H T db0 x"
  shows "dedup_inv H T db0 (bqm_flush x)"
proof -
  obtain s w where x: "x = (s, w)" by (cases x) auto
  obtain s1 w1 where b: "flush fetcher_size size_batch_run (s, w) = (s1, w1)"
    by (cases "flush fetcher_size size_batch_run (s, w)") auto
  have "dedup_inv H T db0 (flush fetcher_size size_batch_run (s, w))"
    by (rule size_flush_dedup) (use assms x in simp)
  then have "dedup_inv H T db0 (s1, w1)" by (simp add: b)
  then have "dedup_inv H T db0 (flush fetcher_hash hash_batch_run (s1, w1))"
    by (rule hash_flush_dedup)
  then show ?thesis by (simp add: bqm_flush_def x b)
qed

lemma end_of_iteration_dedup:
  assumes "dedup_inv H T db0 x"
  shows "dedup_inv H T db0 (end_of_iteration ev x)"
proof -
  obtain s1 w1 where b: "bqm_flush_if_needed ev x = (s1, w1)" by (cases "bqm_flush_if_needed ev x") auto
  from bqm_flush_if_needed_dedup[OF assms, of ev] b have i: "dedup_inv H T db0 (s1, w1)" by simp
  from i bqm_flush_dedup[OF i] show ?thesis by (simp add: end_of_iteration_def b)
qed

lemma bqm_query_dedup:
  assumes "gen_ready H (asked q) g" and "dedup_inv H T db0 (s, w)"
  shows "dedup_inv H T db0 (bqm_query ev q g (s, w))"
proof -
  from assms(2) have w: "world_ok H T db0 w"
    and s: "sched_ok H T (dom (blob_by_hash_cache w)) (db_blobs w) s" by (simp_all add: dedup_inv_pair)
  have wt: "world_ok H T db0 (tick w)" by (rule world_ok_kept[OF w]) (simp_all add: kept_prims)
  let ?K = "dom (blob_by_hash_cache w)"
  show ?thesis
  proof (cases q)
    case (SizeReq sz)
    let ?fs1 = "(fetcher_size s)\<lparr>tasks := tasks (fetcher_size s) @ [(sz, g)],
                                 keys := insert sz (keys (fetcher_size s))\<rparr>"
    let ?fs2 = "(if length (tasks ?fs1) = 1
                 then ?fs1\<lparr>first_task_scheduled_time := time_at ev (clock w)\<rparr> else ?fs1)"
    from assms(1) SizeReq have "gen_ready H {} g" by (simp add: asked_def)
    then have g: "gen_ready H ?K g" by (rule gen_ready_mono) simp
    have "sched_ok H T ?K (db_blobs w) (s\<lparr>fetcher_size := ?fs2\<rparr>)"
      using s g by (auto simp: sched_ok_def)
    with wt have "dedup_inv H T db0 (s\<lparr>fetcher_size := ?fs2\<rparr>, tick w)"
      by (simp add: dedup_inv_pair kept_prims)
    then have "dedup_inv H T db0
        (flush_if_needed ev fetcher_size size_batch_run (s\<lparr>fetcher_size := ?fs2\<rparr>, tick w))"
      by (rule size_flush_if_needed_dedup)
    then show ?thesis by (simp add: bqm_query_def SizeReq size_query_def Let_def time_now_def)
  next
    case (HashReq h)
    let ?fh1 = "(fetcher_hash s)\<lparr>tasks := tasks (fetcher_hash s) @ [(h, g)],
                                 keys := insert h (keys (fetcher_hash s))\<rparr>"
    let ?fh2 = "(if length (tasks ?fh1) = 1
                 then ?fh1\<lparr>first_task_scheduled_time := time_at ev (clock w)\<rparr> else ?fh1)"
    have kf: "keys ?fh2 = insert h (keys (fetcher_hash s))"
      and tf: "tasks ?fh2 = tasks (fetcher_hash s) @ [(h, g)]" by simp_all
    from assms(1) HashReq have "gen_ready H {h} g" by (simp add: asked_def)
    then have g: "gen_ready H (insert h (keys (fetcher_hash s)) \<union> ?K) g" by (rule gen_ready_mono) simp
    have old: "gen_ready H (insert h (keys (fetcher_hash s)) \<union> ?K) (snd t)"
      if "t \<in> set (tasks (fetcher_hash s))" for t
    proof -
      from s that have "gen_ready H (keys (fetcher_hash s) \<union> ?K) (snd t)" by (simp add: sched_ok_def)
      then show ?thesis by (rule gen_ready_mono) auto
    qed
    have "sched_ok H T ?K (db_blobs w) (s\<lparr>fetcher_hash := ?fh2\<rparr>)"
      unfolding sched_ok_def using s g old by (auto simp: sched_ok_def kf tf simp del: fun_upd_apply)
    with wt have "dedup_inv H T db0 (s\<lparr>fetcher_hash := ?fh2\<rparr>, tick w)"
      by (simp add: dedup_inv_pair kept_prims)
    then have "dedup_inv H T db0
        (flush_if_needed ev fetcher_hash hash_batch_run (s\<lparr>fetcher_hash := ?fh2\<rparr>, tick w))"
      by (rule hash_flush_if_needed_dedup)
    then show ?thesis by (simp add: bqm_query_def HashReq hash_query_def Let_def time_now_def)
  qed
qed

lemma loop_body_dedup:
  assumes "loop_body cfg ev x = (r, x')" and "small_only cfg H" and "dedup_inv H T db0 x"
  shows "dedup_inv H T db0 x'"
proof -
  obtain s w where x: "x = (s, w)" by (cases x) auto
  from assms(3) x have w: "world_ok H T db0 w"
    and s: "sched_ok H T (dom (blob_by_hash_cache w)) (db_blobs w) s" by (simp_all add: dedup_inv_pair)
  show ?thesis
  proof (cases "schedule_queue s")
    case Nil
    with assms x show ?thesis by (auto simp: loop_body_def)
  next
    case (Cons gv q)
    obtain g v where gv: "gv = (g, v)" by (cases gv) auto
    let ?s0 = "s\<lparr>schedule_queue := q\<rparr>"
    obtain r1 w1 where cf: "create_file_send cfg ev g v w = (r1, w1)"
      by (cases "create_file_send cfg ev g v w") auto
    from s Cons gv have gr: "gen_ready H (dom (blob_by_hash_cache w)) g" by (simp add: sched_ok_def)
    from w have c: "cache_ok H w" by (simp add: world_ok_def)
    note ce = create_file_send_effect[OF cf assms(2) c gr]
    then have se: "send_effect H w w1" by simp
    note w1 = world_ok_send[OF w se]
    from se have m: "dom (blob_by_hash_cache w) \<subseteq> dom (blob_by_hash_cache w1)"
      "set (db_blobs w) \<subseteq> set (db_blobs w1)"
      by (auto simp: send_effect_def dest: db_step_mono)
    from s Cons have "sched_ok H T (dom (blob_by_hash_cache w)) (db_blobs w) ?s0"
      by (auto simp: sched_ok_def)
    then have s0: "sched_ok H T (dom (blob_by_hash_cache w1)) (db_blobs w1) ?s0"
      using m by (rule sched_ok_mono)
    with w1 have i0: "dedup_inv H T db0 (?s0, w1)" by (simp add: dedup_inv_pair)
    show ?thesis
    proof (cases r1)
      case (Yielded req g')
      with ce have "gen_ready H (asked req) g'" by simp
      from bqm_query_dedup[OF this i0] have "dedup_inv H T db0 (bqm_query ev req g' (?s0, w1))" .
      from end_of_iteration_dedup[OF this] assms(1) x Cons gv cf Yielded show ?thesis
        by (auto simp: loop_body_def Let_def)
    next
      case (Returned fl)
      have "row_blob_in (db_blobs w1) fl" if "T"
      proof -
        from ce Returned have "row_blob_in (db_blobs w1) fl \<or> (\<exists>p. pre_calc_reused_files w p = Some fl)"
          by simp
        then show ?thesis
        proof
          assume "\<exists>p. pre_calc_reused_files w p = Some fl"
          with w that have "row_blob_in (db_blobs w) fl" by (auto simp: world_ok_def)
          then show ?thesis using m(2) by (rule row_blob_in_mono)
        qed
      qed
      with s0 have "sched_ok H T (dom (blob_by_hash_cache w1)) (db_blobs w1) (?s0\<lparr>files := files ?s0 @ [fl]\<rparr>)"
        by (auto simp: sched_ok_def)
      with w1 have "dedup_inv H T db0 (?s0\<lparr>files := files ?s0 @ [fl]\<rparr>, w1)" by (simp add: dedup_inv_pair)
      from end_of_iteration_dedup[OF this] assms(1) x Cons gv cf Returned show ?thesis
        by (auto simp: loop_body_def Let_def)
    next
      case (Raised e)
      from end_of_iteration_dedup[OF i0] i0 assms(1) x Cons gv cf Raised show ?thesis
        by (auto simp: loop_body_def Let_def split: exn.splits if_splits)
    qed
  qed
qed

lemma create_files_loop_dedup:
  "create_files_loop cfg ev x = (r, x') \<Longrightarrow> small_only cfg H \<Longrightarrow> dedup_inv H T db0 x \<Longrightarrow>
     dedup_inv H T db0 x'"
proof (induction cfg ev x rule: create_files_loop.induct)
  case (1 cfg ev x)
  show ?case
  proof (cases "length (schedule_queue (fst x)) > 0")
    case False
    with "1.prems" show ?thesis by (simp add: create_files_loop.simps[of cfg ev x])
  next
    case True
    obtain r1 x1 where lb: "loop_body cfg ev x = (r1, x1)" by (cases "loop_body cfg ev x") auto
    note inv1 = loop_body_dedup[OF lb "1.prems"(2,3)]
    show ?thesis
    proof (cases r1)
      case (Some e)
      with "1.prems"(1) True lb inv1 show ?thesis
        by (auto simp: create_files_loop.simps[of cfg ev x])
    next
      case None
      with "1.prems"(1) True lb have rec: "create_files_loop cfg ev x1 = (r, x')"
        by (simp add: create_files_loop.simps[of cfg ev x])
      from "1.IH"[OF True lb[symmetric] None rec "1.prems"(2) inv1] show ?thesis .
    qed
  qed
qed

subsection \<open>The stages before the loop and the whole run\<close>

lemma fold_regular_mem:
  "fold (\<lambda>file m. if S_ISREG (f_mode file) then m(key_of_file file \<mapsto> file) else m) xs m0 k = Some y
     \<Longrightarrow> y \<in> set xs \<or> m0 k = Some y"
proof (induction xs arbitrary: m0)
  case Nil
  then show ?case by simp
next
  case (Cons x xs)
  from Cons.prems
  have "fold (\<lambda>file m. if S_ISREG (f_mode file) then m(key_of_file file \<mapsto> file) else m) xs
          (if S_ISREG (f_mode x) then m0(key_of_file x \<mapsto> x) else m0) k = Some y"
    by simp
  from Cons.IH[OF this] show ?case by (auto split: if_splits)
qed

lemma stat_to_files_in: "stat_to_files bf k = Some fl \<Longrightarrow> fl \<in> set bf"
  unfolding stat_to_files_def by (drule fold_regular_mem) simp

lemma reuse_entries_kept:
  "reuse_entries cfg m es w = (r, w') \<Longrightarrow>
     blob_by_hash_cache w' = blob_by_hash_cache w \<and> db_blobs w' = db_blobs w
     \<and> (\<forall>p fl. pre_calc_reused_files w' p = Some fl \<longrightarrow>
           pre_calc_reused_files w p = Some fl \<or> fl \<in> ran m)"
proof (induction es arbitrary: w)
  case Nil
  then show ?case by simp
next
  case (Cons e es)
  obtain p st where e: "e = (p, st)" by (cases e) auto
  show ?case
  proof (cases "S_ISREG (st_mode st)")
    case False
    with Cons.prems e have "reuse_entries cfg m es w = (r, w')" by simp
    from Cons.IH[OF this] show ?thesis .
  next
    case True
    show ?thesis
    proof (cases "relative_to_source cfg p")
      case None
      with True Cons.prems e show ?thesis by simp
    next
      case (Some rel)
      show ?thesis
      proof (cases "m (key_of_entry rel st)")
        case n: None
        with True Some Cons.prems e have "reuse_entries cfg m es w = (r, w')" by simp
        from Cons.IH[OF this] show ?thesis .
      next
        case (Some fl0)
        let ?w1 = "w\<lparr>pre_calc_reused_files := (pre_calc_reused_files w)(p \<mapsto> fl0)\<rparr>"
        from True \<open>relative_to_source cfg p = Some rel\<close> Some Cons.prems e
        have rec: "reuse_entries cfg m es ?w1 = (r, w')" by simp
        from Some have "fl0 \<in> ran m" by (rule ranI)
        with Cons.IH[OF rec] show ?thesis by (auto split: if_splits)
      qed
    qed
  qed
qed

lemma hash_entries_kept:
  "hash_entries cfg ev ex es w = (r, w') \<Longrightarrow>
     blob_by_hash_cache w' = blob_by_hash_cache w \<and> db_blobs w' = db_blobs w
     \<and> pre_calc_reused_files w' = pre_calc_reused_files w"
proof (induction es arbitrary: w)
  case Nil
  then show ?case by simp
next
  case (Cons e es)
  obtain p st where e: "e = (p, st)" by (cases e) auto
  show ?case
  proof (cases "ex (st_size st)")
    case None
    with Cons.prems e show ?thesis by simp
  next
    case (Some b)
    show ?thesis
    proof (cases b)
      case False
      with Some Cons.prems e have "hash_entries cfg ev ex es w = (r, w')" by simp
      from Cons.IH[OF this] show ?thesis .
    next
      case True
      obtain co w1 where rs: "read_source ev p w = (co, w1)" by (cases "read_source ev p w") auto
      then have k1: "blob_by_hash_cache w1 = blob_by_hash_cache w" "db_blobs w1 = db_blobs w"
          "pre_calc_reused_files w1 = pre_calc_reused_files w"
        by (auto simp: read_source_def kept_prims)
      show ?thesis
      proof (cases co)
        case None
        with Some True rs Cons.prems e k1 show ?thesis by auto
      next
        case (Some c)
        let ?w2 = "w1\<lparr>pre_calc_hashes := (pre_calc_hashes w1)(p \<mapsto> calc_bytes_hash cfg c)\<rparr>"
        from \<open>ex (st_size st) = Some b\<close> True rs Some Cons.prems e
        have "hash_entries cfg ev ex es ?w2 = (r, w')" by simp
        from Cons.IH[OF this] k1 show ?thesis by simp
      qed
    qed
  qed
qed

text \<open>Every row of the last backup names a blob of the catalog \<open>db\<close>.\<close>

definition last_backup_in :: "env \<Rightarrow> Blob list \<Rightarrow> bool" where
  "last_backup_in ev db \<longleftrightarrow>
     (case last_backup_files ev of None \<Rightarrow> True | Some bf \<Rightarrow> \<forall>fl \<in> set bf. row_blob_in db fl)"

lemma prepare_world:
  assumes "prepare cfg ev af w = (r, w1)" and "world_ok H False db0 w"
    and "T \<longrightarrow> pre_calc_reused_files w = Map.empty \<and> last_backup_in ev (db_blobs w)"
  shows "world_ok H T db0 w1 \<and> dom (blob_by_hash_cache w1) = dom (blob_by_hash_cache w)"
proof -
  let ?w = "pre_calculate_stats af w"
  have k: "blob_by_hash_cache ?w = blob_by_hash_cache w" "db_blobs ?w = db_blobs w"
    "pre_calc_reused_files ?w = pre_calc_reused_files w"
    by (simp_all add: pre_calculate_stats_def)
  obtain r0 w0 where a: "(if reuse_stat_unchanged_file cfg
            then reuse_unchanged_files cfg ev af ?w else (None, ?w)) = (r0, w0)"
    by (cases "(if reuse_stat_unchanged_file cfg
            then reuse_unchanged_files cfg ev af ?w else (None, ?w))") auto
  have k0: "blob_by_hash_cache w0 = blob_by_hash_cache w \<and> db_blobs w0 = db_blobs w
       \<and> (\<forall>p fl. pre_calc_reused_files w0 p = Some fl \<longrightarrow>
             pre_calc_reused_files w p = Some fl
             \<or> (\<exists>bf. last_backup_files ev = Some bf \<and> fl \<in> set bf))"
  proof (cases "reuse_stat_unchanged_file cfg \<and> last_backup_files ev \<noteq> None")
    case False
    with a k show ?thesis by (auto simp: reuse_unchanged_files_def split: if_splits option.splits)
  next
    case True
    then obtain bf where bf: "last_backup_files ev = Some bf" by auto
    with True a have "reuse_entries cfg (stat_to_files bf) af ?w = (r0, w0)"
      by (simp add: reuse_unchanged_files_def)
    from reuse_entries_kept[OF this] k bf show ?thesis
      by (auto simp: ran_def dest: stat_to_files_in)
  qed
  have k1: "blob_by_hash_cache w1 = blob_by_hash_cache w0 \<and> db_blobs w1 = db_blobs w0
       \<and> pre_calc_reused_files w1 = pre_calc_reused_files w0"
  proof (cases r0)
    case (Some e)
    with assms(1) a show ?thesis by (simp add: prepare_def)
  next
    case None
    show ?thesis
    proof (cases "effective_concurrency cfg > 1")
      case False
      with None assms(1) a show ?thesis by (simp add: prepare_def)
    next
      case True
      with None assms(1) a have "pre_calculate_hash cfg ev af w0 = (r, w1)" by (simp add: prepare_def)
      then show ?thesis
        by (auto simp: pre_calculate_hash_def Let_def dest!: hash_entries_kept)
    qed
  qed
  from assms(2) have c: "cache_ok H w" and x: "ext_db H db0 (db_blobs w)" by (simp_all add: world_ok_def)
  have c1: "cache_ok H w1" by (rule cache_ok_from[OF c]) (use k0 k1 in simp_all)
  have "row_blob_in (db_blobs w1) fl" if "T" "pre_calc_reused_files w1 p = Some fl" for p fl
  proof -
    from that k1 k0 assms(3) obtain bf where "last_backup_files ev = Some bf" "fl \<in> set bf" by auto
    with that(1) assms(3) have "row_blob_in (db_blobs w) fl" by (auto simp: last_backup_in_def)
    with k0 k1 show ?thesis by simp
  qed
  with c1 x k0 k1 show ?thesis by (auto simp: world_ok_def)
qed

lemma create_backup_dedup:
  assumes "create_backup cfg ev af (s, w) = (r, w')" and "small_only cfg H"
    and "world_ok H False db0 w"
    and "T \<longrightarrow> pre_calc_reused_files w = Map.empty \<and> last_backup_in ev (db_blobs w)"
    and "schedule_queue s = []" and "tasks (fetcher_size s) = []" and "tasks (fetcher_hash s) = []"
    and "files s = []"
  shows "ext_db H db0 (db_blobs w')
       \<and> (T \<longrightarrow> (\<forall>fls. r = Inr fls \<longrightarrow> (\<forall>fl \<in> set fls. row_blob_in (db_blobs w') fl)))"
proof -
  obtain r1 w1 where p: "prepare cfg ev af w = (r1, w1)" by (cases "prepare cfg ev af w") auto
  note pw = prepare_world[OF p assms(3,4)]
  then have w1: "world_ok H T db0 w1" by simp
  show ?thesis
  proof (cases r1)
    case (Some e)
    with assms(1) p have "w' = w1" "r = Inl e" by (simp_all add: create_backup_def)
    with w1 show ?thesis by (simp add: world_ok_def)
  next
    case None
    let ?s = "s\<lparr>schedule_queue := schedule_queue s @ map (\<lambda>(p, st). (CF_start p, None)) af\<rparr>"
    obtain r2 s2 w2 where l: "create_files_loop cfg ev (?s, w1) = (r2, s2, w2)"
      by (cases "create_files_loop cfg ev (?s, w1)") auto
    have "sched_ok H T (dom (blob_by_hash_cache w1)) (db_blobs w1) ?s"
      using assms(5-8) by (auto simp: sched_ok_def)
    with w1 have "dedup_inv H T db0 (?s, w1)" by (simp add: dedup_inv_pair)
    from create_files_loop_dedup[OF l assms(2) this]
    have i2: "world_ok H T db0 w2" "sched_ok H T (dom (blob_by_hash_cache w2)) (db_blobs w2) s2"
      by (simp_all add: dedup_inv_pair)
    from assms(1) p None l have "w' = w2" "\<forall>fls. r = Inr fls \<longrightarrow> fls = files s2"
      by (auto simp: create_backup_def split: option.splits)
    with i2 show ?thesis by (auto simp: world_ok_def sched_ok_def)
  qed
qed

lemma apply_blob_rollback_db: "db_blobs (apply_blob_rollback w) = db_blobs w"
proof -
  have "db_blobs (fold remove_file dps w) = db_blobs w" for dps
    by (induction dps arbitrary: w) (auto simp: kept_prims)
  then show ?thesis by (simp add: apply_blob_rollback_def)
qed

lemma run_dedup:
  assumes "run cfg ev af w = (r, w')" and "small_only cfg H"
    and "T \<longrightarrow> pre_calc_reused_files w = Map.empty \<and> last_backup_in ev (db_blobs w)"
  shows "ext_db H (db_blobs w) (db_blobs w')
       \<and> (T \<longrightarrow> (\<forall>fls. r = Inr fls \<longrightarrow> (\<forall>fl \<in> set fls. row_blob_in (db_blobs w') fl)))"
proof -
  obtain s0 w0 where is0: "initial_state ev w = (s0, w0)" by (cases "initial_state ev w") auto
  then have s0: "schedule_queue s0 = []" "tasks (fetcher_size s0) = []" "tasks (fetcher_hash s0) = []"
      "files s0 = []"
    and k0: "blob_by_hash_cache w0 = Map.empty" "db_blobs w0 = db_blobs w"
      "pre_calc_reused_files w0 = pre_calc_reused_files w"
    by (auto simp: initial_state_def Let_def time_now_def fetcher_init_def kept_prims)
  have w0: "world_ok H False (db_blobs w) w0"
    by (simp add: world_ok_def cache_ok_def k0 ext_db_refl)
  obtain r3 w3 where cb: "create_backup cfg ev af (s0, w0) = (r3, w3)"
    by (cases "create_backup cfg ev af (s0, w0)") auto
  have t0: "T \<longrightarrow> pre_calc_reused_files w0 = Map.empty \<and> last_backup_in ev (db_blobs w0)"
    using assms(3) k0 by simp
  note c = create_backup_dedup[OF cb assms(2) w0 t0 s0]
  from assms(1) is0 cb have "(\<exists>e. r3 = Inl e \<and> r = Inl e \<and> w' = apply_blob_rollback w3)
      \<or> (\<exists>fls. r3 = Inr fls \<and> r = Inr fls \<and> w' = w3)"
    by (cases r3) (auto simp: run_def)
  with c show ?thesis by (auto simp: apply_blob_rollback_db)
qed

subsection \<open>An empty file under \<open>read_all\<close>\<close>

text \<open>The Blob row of the empty content stored with the compress method \<open>cm\<close>.\<close>

definition empty_blob :: "config \<Rightarrow> CompressMethod \<Rightarrow> Blob" where
  "empty_blob cfg cm =
     \<lparr>hash = empty_hash cfg, compress = name_of cm, raw_size = 0,
      stored_size = int (length (compressed cfg cm []))\<rparr>"

lemma policy_phase_empty_file:
  assumes "policy_phase cfg ev p st lc w = (c, f, w')" and "st_size st = 0"
  shows "(\<forall>q l. c \<noteq> Yield q l)
       \<and> policy f = Some (empty_file_policy lc (pre_calc_hashes w p \<noteq> None) (can_cow cfg st))"
proof -
  have ny: "\<forall>q l. c \<noteq> Yield q l"
  proof (intro allI notI)
    fix q l assume "c = Yield q l"
    with assms(1) have "policy_phase cfg ev p st lc w = (Yield q l, f, w')" by simp
    from policy_phase_yield[OF this] assms(2) show False by simp
  qed
  from policy_phase_table[OF assms(1) ny] assms(2) show ?thesis
    using ny by (auto simp: spec_policy_def empty_file_policy_def)
qed

lemma policy_phase_empty_content:
  assumes "policy_phase cfg ev p st False w = (Next, f, w')" and "policy f = Some read_all"
    and "fs_at ev (clock w) p = Some nd" and "n_content nd = []"
  shows "blob_hash f = Some (empty_hash cfg) \<and> blob_content f = Some []"
  using assms
  unfolding policy_phase_defs Let_def empty_hash_def
  by (auto split: if_splits option.splits prod.splits)

lemma resume_empty_read_all:
  assumes "policy f = Some read_all" and "blob_hash f = Some (empty_hash cfg)"
    and "blob_content f = Some []"
  shows "attempt_resume cfg ev p st At_hash_req f w =
           (case cache_get w (empty_hash cfg) of
              Some b \<Rightarrow> (Return b, f, w)
            | None \<Rightarrow>
                (Return (empty_blob cfg (compress_method f)), f,
                 (write_file (BlobPath (empty_hash cfg)) (compressed cfg (compress_method f) [])
                    (add_remove_file_rollbacker (BlobPath (empty_hash cfg)) w))
                 \<lparr>db_blobs := db_blobs w @ [empty_blob cfg (compress_method f)]\<rparr>))"
  using assms
  by (simp add: attempt_resume_def dedup_resume_def and_then_def write_blob_def write_known_hash_def
        bp_rba_def commit_blob_def create_blob_def empty_blob_def Let_def kept_prims
        split: option.splits)

lemma ext_db_committed:
  assumes "ext_db H (db_blobs w) (db_blobs w')"
  shows "db_blobs w' = db_blobs w @ committed_blobs w w'
       \<and> count_hash H (committed_blobs w w') \<le> 1
       \<and> (H \<in> hash ` set (db_blobs w) \<longrightarrow> count_hash H (committed_blobs w w') = 0)"
proof -
  from assms have "db_blobs w' = db_blobs w @ drop (length (db_blobs w)) (db_blobs w')"
    by (metis append_take_drop_id ext_db_def)
  with assms show ?thesis by (auto simp: ext_db_def committed_blobs_def)
qed

text \<open>
  C8, against the claim as stated. With copy-on-write available the policy of
  the regular file \<open>e\<close> of size 0 is \<open>default\<close>, not \<open>read_all\<close>. And when the
  catalog already holds the blob of the empty content, a run on the empty file
  \<open>e\<close> commits no blob at all: the row of \<open>e\<close> names the blob the catalog had.
\<close>

theorem empty_file_counterexample:
  "S_ISREG (st_mode (st_regular 0 5000)) \<and> st_size (st_regular 0 5000) = 0
   \<and> policy (fst (snd (policy_phase cow_config (static_env [''e'' \<mapsto> regular_file 0 []]) ''e''
                         (st_regular 0 5000) False empty_world)))
       = Some default_policy
   \<and> fst (run example_config (static_env [''e'' \<mapsto> regular_file 0 []]) [(''e'', st_regular 0 5000)]
            (empty_world\<lparr>db_blobs := [empty_blob example_config plain]\<rparr>))
       = Inr [session_create_file ''e'' (st_regular 0 5000) None 5
                (Some (empty_blob example_config plain))]
   \<and> committed_blobs (empty_world\<lparr>db_blobs := [empty_blob example_config plain]\<rparr>)
       (snd (run example_config (static_env [''e'' \<mapsto> regular_file 0 []]) [(''e'', st_regular 0 5000)]
               (empty_world\<lparr>db_blobs := [empty_blob example_config plain]\<rparr>)))
       = []"
  by (simp add: run_defs example_defs policy_phase_defs Let_def committed_blobs_def empty_blob_def
        empty_hash_def)

text \<open>
  C8, amended. (1) For a stat size of 0 an attempt makes no size query and its
  policy is \<open>copy_hash\<close> on the final retry, else \<open>default\<close> when a hash was
  pre-calculated for the path or copy-on-write is available, else \<open>read_all\<close>.
  (2) Under \<open>read_all\<close>, when the file is read as empty, the attempt holds the
  fingerprint of the empty content and the empty content. (3) Resumed after its
  hash request, such an attempt returns the blob the hash cache has for that
  fingerprint and changes nothing, or, when the cache has none, commits the blob
  of the empty content with raw size 0. (4) In a run, whatever its outcome, the
  catalog is only appended to, and at most one blob with the fingerprint of the
  empty content is committed, none when the catalog held one before the run;
  this needs that no content of more than 10 MiB has that fingerprint, since
  \<open>hash_once\<close> commits without a lookup. (5) When the action starts with no
  reused file recorded and every row of the last backup names a blob of the
  catalog, every row of a run that ends without an exception names a blob of
  the catalog; so when the catalog held no blob of the empty content and a row
  names it, exactly one such blob was committed.
\<close>

theorem empty_blob_committed_at_most_once:
  "(policy_phase cfg ev p st lc w0 = (c, f, w1) \<and> st_size st = 0
      \<longrightarrow> (\<forall>q l. c \<noteq> Yield q l)
          \<and> policy f = Some (empty_file_policy lc (pre_calc_hashes w0 p \<noteq> None) (can_cow cfg st)))
   \<and> (policy_phase cfg ev p st False w0 = (Next, f, w1) \<and> policy f = Some read_all
        \<and> fs_at ev (clock w0) p = Some nd \<and> n_content nd = []
      \<longrightarrow> blob_hash f = Some (empty_hash cfg) \<and> blob_content f = Some [])
   \<and> (policy f2 = Some read_all \<and> blob_hash f2 = Some (empty_hash cfg) \<and> blob_content f2 = Some []
      \<longrightarrow> attempt_resume cfg ev p st At_hash_req f2 w2 =
            (case cache_get w2 (empty_hash cfg) of
               Some b \<Rightarrow> (Return b, f2, w2)
             | None \<Rightarrow>
                 (Return (empty_blob cfg (compress_method f2)), f2,
                  (write_file (BlobPath (empty_hash cfg)) (compressed cfg (compress_method f2) [])
                     (add_remove_file_rollbacker (BlobPath (empty_hash cfg)) w2))
                  \<lparr>db_blobs := db_blobs w2 @ [empty_blob cfg (compress_method f2)]\<rparr>)))
   \<and> (run cfg ev all_files w = (r, w')
        \<and> (\<forall>content. calc_bytes_hash cfg content = empty_hash cfg
              \<longrightarrow> int (length content) \<le> HASH_ONCE_SIZE_THRESHOLD)
      \<longrightarrow> db_blobs w' = db_blobs w @ committed_blobs w w'
          \<and> count_hash (empty_hash cfg) (committed_blobs w w') \<le> 1
          \<and> (empty_hash cfg \<in> hash ` set (db_blobs w)
               \<longrightarrow> count_hash (empty_hash cfg) (committed_blobs w w') = 0)
          \<and> (pre_calc_reused_files w = Map.empty \<and> last_backup_in ev (db_blobs w)
               \<longrightarrow> (\<forall>fls. r = Inr fls \<longrightarrow>
                      (\<forall>fl \<in> set fls. row_blob_in (db_blobs w') fl)
                      \<and> (empty_hash cfg \<notin> hash ` set (db_blobs w)
                           \<and> (\<exists>fl \<in> set fls. f_blob_hash fl = Some (empty_hash cfg))
                         \<longrightarrow> count_hash (empty_hash cfg) (committed_blobs w w') = 1))))"
proof (intro conjI impI)
  assume "policy_phase cfg ev p st lc w0 = (c, f, w1) \<and> st_size st = 0"
  then have a: "policy_phase cfg ev p st lc w0 = (c, f, w1)" "st_size st = 0" by simp_all
  from policy_phase_empty_file[OF a] show "\<forall>q l. c \<noteq> Yield q l" by simp
  from policy_phase_empty_file[OF a]
  show "policy f = Some (empty_file_policy lc (pre_calc_hashes w0 p \<noteq> None) (can_cow cfg st))"
    by simp
next
  assume "policy_phase cfg ev p st False w0 = (Next, f, w1) \<and> policy f = Some read_all
        \<and> fs_at ev (clock w0) p = Some nd \<and> n_content nd = []"
  then have a: "policy_phase cfg ev p st False w0 = (Next, f, w1)" "policy f = Some read_all"
    "fs_at ev (clock w0) p = Some nd" "n_content nd = []" by simp_all
  from policy_phase_empty_content[OF a] show "blob_hash f = Some (empty_hash cfg)" by simp
  from policy_phase_empty_content[OF a] show "blob_content f = Some []" by simp
next
  assume "policy f2 = Some read_all \<and> blob_hash f2 = Some (empty_hash cfg) \<and> blob_content f2 = Some []"
  then have a: "policy f2 = Some read_all" "blob_hash f2 = Some (empty_hash cfg)"
    "blob_content f2 = Some []" by simp_all
  show "attempt_resume cfg ev p st At_hash_req f2 w2 =
            (case cache_get w2 (empty_hash cfg) of
               Some b \<Rightarrow> (Return b, f2, w2)
             | None \<Rightarrow>
                 (Return (empty_blob cfg (compress_method f2)), f2,
                  (write_file (BlobPath (empty_hash cfg)) (compressed cfg (compress_method f2) [])
                     (add_remove_file_rollbacker (BlobPath (empty_hash cfg)) w2))
                  \<lparr>db_blobs := db_blobs w2 @ [empty_blob cfg (compress_method f2)]\<rparr>))"
    by (rule resume_empty_read_all[OF a])
next
  assume h: "run cfg ev all_files w = (r, w')
        \<and> (\<forall>content. calc_bytes_hash cfg content = empty_hash cfg
              \<longrightarrow> int (length content) \<le> HASH_ONCE_SIZE_THRESHOLD)"
  then have r: "run cfg ev all_files w = (r, w')" and so: "small_only cfg (empty_hash cfg)"
    by (simp_all add: small_only_def)
  from run_dedup[OF r so, of False] have e: "ext_db (empty_hash cfg) (db_blobs w) (db_blobs w')" by simp
  note ec = ext_db_committed[OF e]
  from ec show "db_blobs w' = db_blobs w @ committed_blobs w w'" by simp
  from ec show "count_hash (empty_hash cfg) (committed_blobs w w') \<le> 1" by simp
  {
    assume "empty_hash cfg \<in> hash ` set (db_blobs w)"
    with ec show "count_hash (empty_hash cfg) (committed_blobs w w') = 0" by simp
  }
  {
    assume t: "pre_calc_reused_files w = Map.empty \<and> last_backup_in ev (db_blobs w)"
    have rows: "\<forall>fl \<in> set fls. row_blob_in (db_blobs w') fl" if "r = Inr fls" for fls
      using run_dedup[OF r so, of True] t that by simp
    show "\<forall>fls. r = Inr fls \<longrightarrow>
                      (\<forall>fl \<in> set fls. row_blob_in (db_blobs w') fl)
                      \<and> (empty_hash cfg \<notin> hash ` set (db_blobs w)
                           \<and> (\<exists>fl \<in> set fls. f_blob_hash fl = Some (empty_hash cfg))
                         \<longrightarrow> count_hash (empty_hash cfg) (committed_blobs w w') = 1)"
    proof (intro allI impI conjI)
      fix fls assume "r = Inr fls"
      from rows[OF this] show "\<forall>fl \<in> set fls. row_blob_in (db_blobs w') fl" .
    next
      fix fls
      assume i: "r = Inr fls"
        and n: "empty_hash cfg \<notin> hash ` set (db_blobs w)
                  \<and> (\<exists>fl \<in> set fls. f_blob_hash fl = Some (empty_hash cfg))"
      then obtain fl where fl: "fl \<in> set fls" "f_blob_hash fl = Some (empty_hash cfg)" by blast
      with rows[OF i] have "empty_hash cfg \<in> hash ` set (db_blobs w')"
        by (auto simp: row_blob_in_def)
      with ec have "empty_hash cfg \<in> hash ` set (db_blobs w @ committed_blobs w w')" by simp
      with n have "empty_hash cfg \<in> hash ` set (committed_blobs w w')" by auto
      then have "count_hash (empty_hash cfg) (committed_blobs w w') \<noteq> 0" by (simp add: count_hash_0)
      with ec show "count_hash (empty_hash cfg) (committed_blobs w w') = 1" by simp
    qed
  }
qed

text \<open>A run on the two empty files \<open>e1\<close> and \<open>e2\<close> with an empty catalog: both
  rows name the blob of the empty content, which is committed once.\<close>

lemma run_two_empty_example:
  "fst (run example_config
          (static_env [''e1'' \<mapsto> regular_file 0 [], ''e2'' \<mapsto> regular_file 0 []])
          [(''e1'', st_regular 0 5000), (''e2'', st_regular 0 5000)] empty_world)
     = Inr [session_create_file ''e1'' (st_regular 0 5000) None 5 (Some (empty_blob example_config plain)),
            session_create_file ''e2'' (st_regular 0 5000) None 5 (Some (empty_blob example_config plain))]
   \<and> db_blobs (snd (run example_config
          (static_env [''e1'' \<mapsto> regular_file 0 [], ''e2'' \<mapsto> regular_file 0 []])
          [(''e1'', st_regular 0 5000), (''e2'', st_regular 0 5000)] empty_world))
     = [empty_blob example_config plain]"
  by (simp add: run_defs example_defs Let_def empty_blob_def empty_hash_def)

theorem empty_blob_committed_at_most_once_witness:
  "pre_calc_reused_files empty_world = Map.empty
   \<and> fst (run example_config
          (static_env [''e1'' \<mapsto> regular_file 0 [], ''e2'' \<mapsto> regular_file 0 []])
          [(''e1'', st_regular 0 5000), (''e2'', st_regular 0 5000)] empty_world)
     = Inr [session_create_file ''e1'' (st_regular 0 5000) None 5 (Some (empty_blob example_config plain)),
            session_create_file ''e2'' (st_regular 0 5000) None 5 (Some (empty_blob example_config plain))]
   \<and> committed_blobs empty_world (snd (run example_config
          (static_env [''e1'' \<mapsto> regular_file 0 [], ''e2'' \<mapsto> regular_file 0 []])
          [(''e1'', st_regular 0 5000), (''e2'', st_regular 0 5000)] empty_world))
     = [empty_blob example_config plain]
   \<and> count_hash (empty_hash example_config)
       (committed_blobs empty_world (snd (run example_config
          (static_env [''e1'' \<mapsto> regular_file 0 [], ''e2'' \<mapsto> regular_file 0 []])
          [(''e1'', st_regular 0 5000), (''e2'', st_regular 0 5000)] empty_world))) = 1"
proof -
  let ?ev = "static_env [''e1'' \<mapsto> regular_file 0 [], ''e2'' \<mapsto> regular_file 0 []]"
  let ?af = "[(''e1'', st_regular 0 5000), (''e2'', st_regular 0 5000)]"
  let ?b = "empty_blob example_config plain"
  let ?fls = "[session_create_file ''e1'' (st_regular 0 5000) None 5 (Some ?b),
               session_create_file ''e2'' (st_regular 0 5000) None 5 (Some ?b)]"
  let ?r = "run example_config ?ev ?af empty_world"
  have r: "?r = (Inr ?fls, snd ?r)" using run_two_empty_example by (metis prod.collapse)
  have d: "db_blobs (snd ?r) = [?b]" using run_two_empty_example by simp
  have s: "\<forall>content. calc_bytes_hash example_config content = empty_hash example_config
       \<longrightarrow> int (length content) \<le> HASH_ONCE_SIZE_THRESHOLD"
    by (simp add: example_config_def empty_hash_def HASH_ONCE_SIZE_THRESHOLD_def)
  have e: "pre_calc_reused_files empty_world = Map.empty" by (simp add: empty_world_def)
  have l: "last_backup_in ?ev (db_blobs empty_world)" by (simp add: last_backup_in_def static_env_def)
  have n: "empty_hash example_config \<notin> hash ` set (db_blobs empty_world)" by (simp add: empty_world_def)
  have m: "\<exists>fl \<in> set ?fls. f_blob_hash fl = Some (empty_hash example_config)"
    by (simp add: session_create_file_def empty_blob_def)
  note t = empty_blob_committed_at_most_once[where cfg = example_config and ev = ?ev
      and all_files = ?af and w = empty_world and r = "Inr ?fls" and w' = "snd ?r",
      THEN conjunct2, THEN conjunct2, THEN conjunct2, THEN mp, OF conjI[OF r s]]
  from t have c: "db_blobs (snd ?r) = db_blobs empty_world @ committed_blobs empty_world (snd ?r)"
    by simp
  with d have cb: "committed_blobs empty_world (snd ?r) = [?b]" by (simp add: empty_world_def)
  from t e l n m have "count_hash (empty_hash example_config) (committed_blobs empty_world (snd ?r)) = 1"
    by blast
  with e run_two_empty_example cb show ?thesis by (intro conjI) simp_all
qed

end
